(* ===== verification/Qso_Prelude.thy ===== *)
theory Qso_Prelude
  imports Main "HOL-Library.Word" "HOL-Library.Mapping" "HOL-Library.AList_Mapping"
begin

section \<open>Prelude: machine integers, results with panics, vectors and maps\<close>

text \<open>
  What every component of the development shares:
  \<^item> the fixed-width integers of the program and Rust's saturating and overflow-checked
    arithmetic on them;
  \<^item> the three-way result of a method that takes \<open>&mut self\<close>: it panics, it returns an
    error in some state, or it returns a value in some state;
  \<^item> \<open>Vec\<close> operations on lists and \<open>HashMap\<close> operations on \<open>mapping\<close>;
  \<^item> generic lemmas on filtered lists that the secondary indices rest on.
\<close>

named_theorems store_simps \<open>how the primitive steps of the store act on its fields\<close>
named_theorems inv_intros \<open>preservation of the store invariant, one rule per operation\<close>


subsection \<open>Integers\<close>

type_synonym u8 = "8 word"
type_synonym u16 = "16 word"
type_synonym u32 = "32 word"
type_synonym u64 = "64 word"

abbreviation u64_max :: u64 where
  "u64_max \<equiv> - 1"

text \<open>\<open>usize::MAX\<close> on the 64-bit targets the crate is built for; lengths are \<open>nat\<close>.\<close>

definition usize_max :: nat where
  "usize_max = 18446744073709551615"

definition saturating_add :: "u64 \<Rightarrow> u64 \<Rightarrow> u64" where
  "saturating_add a b = (if a \<le> u64_max - b then a + b else u64_max)"

definition saturating_sub :: "u64 \<Rightarrow> u64 \<Rightarrow> u64" where
  "saturating_sub a b = (if b \<le> a then a - b else 0)"

text \<open>
  The two code-generation switches of a Rust profile that change what the crate does:
  overflow checks (an overflowing \<open>+=\<close> panics instead of wrapping) and
  debug assertions. Cargo's \<open>dev\<close> profile turns both on, \<open>release\<close> turns both off.
\<close>

record profile =
  overflow_checks :: bool
  debug_assertions :: bool

definition dev_profile :: profile where
  "dev_profile = \<lparr>overflow_checks = True, debug_assertions = True\<rparr>"

definition release_profile :: profile where
  "release_profile = \<lparr>overflow_checks = False, debug_assertions = False\<rparr>"

lemma profile_sel [simp]:
  "overflow_checks dev_profile" "debug_assertions dev_profile"
  "\<not> overflow_checks release_profile" "\<not> debug_assertions release_profile"
  by (simp_all add: dev_profile_def release_profile_def)

text \<open>\<open>x += 1\<close> on a \<open>u64\<close>: \<open>None\<close> is the overflow panic of a checked build.\<close>

definition incr_u64 :: "profile \<Rightarrow> u64 \<Rightarrow> u64 option" where
  "incr_u64 pf a = (if overflow_checks pf \<and> a = u64_max then None else Some (a + 1))"

lemma incr_u64_ok [simp]: "a \<noteq> u64_max \<Longrightarrow> incr_u64 pf a = Some (a + 1)"
  by (simp add: incr_u64_def)

lemma less_max_iff: "a < u64_max \<longleftrightarrow> a \<noteq> u64_max"
  using word_order.not_eq_extremum [of a] by simp

lemma unat_succ: "a \<noteq> u64_max \<Longrightarrow> unat (a + 1) = Suc (unat a)"
  by (metis Suc_eq_plus1 add.commute add_eq_0_iff unatSuc)

lemma less_succ: "a \<noteq> u64_max \<Longrightarrow> a < a + (1::u64)"
  by (simp add: word_less_nat_alt unat_succ)

lemma succ_le_iff: "a \<noteq> u64_max \<Longrightarrow> a + 1 \<le> b \<longleftrightarrow> a < (b::u64)"
  by (simp add: word_less_nat_alt word_le_nat_alt unat_succ Suc_le_eq)

lemma saturating_succ:
  "saturating_add a 1 = (if a = u64_max then u64_max else a + 1)"
proof -
  have "a \<le> u64_max - 1 \<longleftrightarrow> a \<noteq> u64_max"
  proof (cases "a = u64_max")
    case False
    then have "unat a < unat u64_max"
      by (simp only: less_max_iff [symmetric] word_less_nat_alt)
    then have "unat a \<le> unat (u64_max - 1)"
      by (simp add: unsigned_minus_1_eq_mask mask_eq_exp_minus_1)
    then show ?thesis
      using False by (simp add: word_le_nat_alt)
  qed (simp add: word_le_nat_alt unsigned_minus_1_eq_mask mask_eq_exp_minus_1)
  then show ?thesis
    by (simp add: saturating_add_def)
qed

lemma saturating_pred_succ [simp]: "a \<noteq> u64_max \<Longrightarrow> saturating_sub (a + 1) 1 = a"
  by (simp add: saturating_sub_def word_le_nat_alt unat_succ)

lemma max_succ_self [simp]: "max a (saturating_add a 1) = saturating_add a 1"
  by (cases "a = u64_max") (simp_all add: saturating_succ max_def less_imp_le [OF less_succ])


subsection \<open>Results of methods that mutate their receiver\<close>

text \<open>
  A method \<open>fn f(&mut self, \<dots>) -> Result<T, E>\<close> either panics (the value under
  mutation is lost with the task), or returns \<open>Err(e)\<close>, or returns \<open>Ok(v)\<close>; in the
  last two cases the receiver is left in some state, which need not be the state before
  the call even when the result is an error.
\<close>

datatype ('s, 'e, 'a) result = Panic | Err 'e 's | Ok 'a 's

text \<open>The operator \<open>?\<close>: go on with the value, or return the error in the state reached.\<close>

fun and_then :: "('s, 'e, 'a) result \<Rightarrow> ('a \<Rightarrow> 's \<Rightarrow> ('s, 'e, 'b) result) \<Rightarrow> ('s, 'e, 'b) result" where
  "and_then Panic f = Panic"
| "and_then (Err e s) f = Err e s"
| "and_then (Ok x s) f = f x s"

lemma and_then_assoc:
  "and_then (and_then m f) g = and_then m (\<lambda>x s. and_then (f x s) g)"
  by (cases m) simp_all

lemma and_then_Ok_iff:
  "and_then m f = Ok y t \<longleftrightarrow> (\<exists>x s. m = Ok x s \<and> f x s = Ok y t)"
  by (cases m) auto

lemma and_then_Panic_iff:
  "and_then m f = Panic \<longleftrightarrow> m = Panic \<or> (\<exists>x s. m = Ok x s \<and> f x s = Panic)"
  by (cases m) auto


subsection \<open>Vectors\<close>

text \<open>\<open>Vec::pop\<close>: the last element and the rest, or \<open>None\<close> on an empty vector.\<close>

definition vec_pop :: "'a list \<Rightarrow> ('a \<times> 'a list) option" where
  "vec_pop xs = (if xs = [] then None else Some (last xs, butlast xs))"

lemma vec_pop_push [simp]: "vec_pop (xs @ [x]) = Some (x, xs)"
  by (simp add: vec_pop_def)

lemma vec_pop_Nil [simp]: "vec_pop [] = None"
  by (simp add: vec_pop_def)

lemma vec_pop_Some: "vec_pop xs = Some (y, ys) \<longleftrightarrow> xs = ys @ [y]"
  by (cases xs rule: rev_cases) (auto simp: vec_pop_def)

lemma vec_pop_None: "vec_pop xs = None \<longleftrightarrow> xs = []"
  by (simp add: vec_pop_def)

text \<open>\<open>Vec::truncate(n)\<close> keeps the first \<open>n\<close> elements: \<open>take n\<close>.
  \<open>Vec::insert(i, x)\<close> panics past the end; \<open>Vec::remove(i)\<close> panics out of range.\<close>

definition vec_insert :: "'a list \<Rightarrow> nat \<Rightarrow> 'a \<Rightarrow> 'a list option" where
  "vec_insert xs i x = (if i \<le> length xs then Some (take i xs @ x # drop i xs) else None)"

definition vec_remove :: "'a list \<Rightarrow> nat \<Rightarrow> 'a list option" where
  "vec_remove xs i = (if i < length xs then Some (take i xs @ drop (Suc i) xs) else None)"

text \<open>\<open>iter().filter_map(f).collect()\<close>\<close>

fun filter_map :: "('a \<Rightarrow> 'b option) \<Rightarrow> 'a list \<Rightarrow> 'b list" where
  "filter_map f [] = []"
| "filter_map f (x # xs) = (case f x of None \<Rightarrow> filter_map f xs | Some y \<Rightarrow> y # filter_map f xs)"

lemma filter_map_append [simp]: "filter_map f (xs @ ys) = filter_map f xs @ filter_map f ys"
  by (induction xs) (auto split: option.splits)

lemma filter_map_total:
  "(\<And>x. x \<in> set xs \<Longrightarrow> f x \<noteq> None) \<Longrightarrow> filter_map f xs = map (\<lambda>x. the (f x)) xs"
  by (induction xs) (auto split: option.splits)

lemma filter_map_cong:
  "(\<And>x. x \<in> set xs \<Longrightarrow> f x = g x) \<Longrightarrow> filter_map f xs = filter_map g xs"
  by (induction xs) (auto split: option.splits)

lemma filter_filter_map:
  "filter P (filter_map f xs)
    = filter_map f (filter (\<lambda>x. case f x of None \<Rightarrow> False | Some y \<Rightarrow> P y) xs)"
  by (induction xs) (auto split: option.splits)

subsection \<open>Mappings\<close>

text \<open>A mapping from the function it looks up; updates in that form.\<close>

lemma lookup_Mapping [simp]: "Mapping.lookup (Mapping.Mapping f) = f"
  by (simp add: Mapping.lookup.abs_eq fun_eq_iff)

lemma Mapping_lookup [simp]: "Mapping.Mapping (Mapping.lookup m) = m"
  by (rule mapping_eqI) simp

lemma update_Mapping: "Mapping.update k v m = Mapping.Mapping ((Mapping.lookup m)(k \<mapsto> v))"
  by (rule mapping_eqI) (simp add: lookup_update')

lemma lookup_delete_if: "Mapping.lookup (Mapping.delete k m) k' = (if k' = k then None else Mapping.lookup m k')"
  by (cases "k' = k") simp_all

lemma delete_Mapping: "Mapping.delete k m = Mapping.Mapping ((Mapping.lookup m)(k := None))"
  by (rule mapping_eqI) (simp add: lookup_delete_if)

lemma empty_Mapping: "Mapping.empty = Mapping.Mapping Map.empty"
  by (rule mapping_eqI) simp

end
