(* ===== verification/Qso_Types.thy ===== *)
theory Qso_Types
  imports Qso_Prelude
begin

section \<open>Domain types: identifiers, records, drafts, patches and operations\<close>

text \<open>
  The types of \<^verbatim>\<open>src/types.rs\<close>, \<^verbatim>\<open>src/qso.rs\<close> and \<^verbatim>\<open>src/op.rs\<close>, with the three
  methods of \<open>QsoPatch\<close>. Rust lets several structs share field names; here the fields of
  \<open>QsoRecord\<close>, \<open>QsoDraft\<close> and \<open>QsoPatch\<close> carry the prefixes \<open>qr_\<close>, \<open>qd_\<close> and \<open>qp_\<close>.
  Strings are lists of bytes, as \<open>String\<close> compares and hashes its UTF-8 bytes.
\<close>


subsection \<open>Identifiers and enums (types.rs)\<close>

type_synonym qso_id = u64
type_synonym op_seq = u64
type_synonym contest_instance_id = u64
type_synonym radio_id = u32
type_synonym operator_id = u32

datatype band = B160m | B80m | B40m | B20m | B15m | B10m | BandOther

datatype mode = CW | SSB | Digital | ModeOther


subsection \<open>Records, drafts and patches (qso.rs)\<close>

record exchange_blob =
  bytes :: "u8 list"

record qso_flags =
  is_void :: bool
  dupe_override :: bool

record qso_record =
  qr_id :: qso_id
  qr_contest_instance_id :: contest_instance_id
  qr_callsign_raw :: string
  qr_callsign_norm :: string
  qr_band :: band
  qr_mode :: mode
  qr_freq_hz :: u64
  qr_ts_ms :: u64
  qr_radio_id :: radio_id
  qr_operator_id :: operator_id
  qr_exchange :: exchange_blob
  qr_flags :: qso_flags

record qso_draft =
  qd_contest_instance_id :: contest_instance_id
  qd_callsign_raw :: string
  qd_callsign_norm :: string
  qd_band :: band
  qd_mode :: mode
  qd_freq_hz :: u64
  qd_ts_ms :: u64
  qd_radio_id :: radio_id
  qd_operator_id :: operator_id
  qd_exchange :: exchange_blob
  qd_flags :: qso_flags

record qso_patch =
  qp_contest_instance_id :: "contest_instance_id option"
  qp_callsign_raw :: "string option"
  qp_callsign_norm :: "string option"
  qp_band :: "band option"
  qp_mode :: "mode option"
  qp_freq_hz :: "u64 option"
  qp_ts_ms :: "u64 option"
  qp_radio_id :: "radio_id option"
  qp_operator_id :: "operator_id option"
  qp_exchange :: "exchange_blob option"
  qp_is_void :: "bool option"
  qp_dupe_override :: "bool option"

text \<open>\<open>QsoPatch::default()\<close>: no field set.\<close>

definition default_patch :: qso_patch where
  "default_patch = \<lparr>qp_contest_instance_id = None,
    qp_callsign_raw = None,
    qp_callsign_norm = None,
    qp_band = None,
    qp_mode = None,
    qp_freq_hz = None,
    qp_ts_ms = None,
    qp_radio_id = None,
    qp_operator_id = None,
    qp_exchange = None,
    qp_is_void = None,
    qp_dupe_override = None\<rparr>"

definition patch_is_empty :: "qso_patch \<Rightarrow> bool" where
  "patch_is_empty p = (p = default_patch)"

definition capture_inverse_for :: "qso_patch \<Rightarrow> qso_record \<Rightarrow> qso_patch" where
  "capture_inverse_for p r = \<lparr>
    qp_contest_instance_id = map_option (\<lambda>_. qr_contest_instance_id r) (qp_contest_instance_id p),
    qp_callsign_raw = map_option (\<lambda>_. qr_callsign_raw r) (qp_callsign_raw p),
    qp_callsign_norm = map_option (\<lambda>_. qr_callsign_norm r) (qp_callsign_norm p),
    qp_band = map_option (\<lambda>_. qr_band r) (qp_band p),
    qp_mode = map_option (\<lambda>_. qr_mode r) (qp_mode p),
    qp_freq_hz = map_option (\<lambda>_. qr_freq_hz r) (qp_freq_hz p),
    qp_ts_ms = map_option (\<lambda>_. qr_ts_ms r) (qp_ts_ms p),
    qp_radio_id = map_option (\<lambda>_. qr_radio_id r) (qp_radio_id p),
    qp_operator_id = map_option (\<lambda>_. qr_operator_id r) (qp_operator_id p),
    qp_exchange = map_option (\<lambda>_. qr_exchange r) (qp_exchange p),
    qp_is_void = map_option (\<lambda>_. is_void (qr_flags r)) (qp_is_void p),
    qp_dupe_override = map_option (\<lambda>_. dupe_override (qr_flags r)) (qp_dupe_override p)\<rparr>"

text \<open>\<open>if let Some(v) = self.f { rec.f = v; }\<close>, once per field, in the source's order.\<close>

definition if_some :: "'v option \<Rightarrow> ('v \<Rightarrow> 'r \<Rightarrow> 'r) \<Rightarrow> 'r \<Rightarrow> 'r" where
  "if_some o_v upd r = (case o_v of None \<Rightarrow> r | Some v \<Rightarrow> upd v r)"

definition apply_to :: "qso_patch \<Rightarrow> qso_record \<Rightarrow> qso_record" where
  "apply_to p r0 =
    (let r1 = if_some (qp_contest_instance_id p) (\<lambda>v r. r\<lparr>qr_contest_instance_id := v\<rparr>) r0;
         r2 = if_some (qp_callsign_raw p) (\<lambda>v r. r\<lparr>qr_callsign_raw := v\<rparr>) r1;
         r3 = if_some (qp_callsign_norm p) (\<lambda>v r. r\<lparr>qr_callsign_norm := v\<rparr>) r2;
         r4 = if_some (qp_band p) (\<lambda>v r. r\<lparr>qr_band := v\<rparr>) r3;
         r5 = if_some (qp_mode p) (\<lambda>v r. r\<lparr>qr_mode := v\<rparr>) r4;
         r6 = if_some (qp_freq_hz p) (\<lambda>v r. r\<lparr>qr_freq_hz := v\<rparr>) r5;
         r7 = if_some (qp_ts_ms p) (\<lambda>v r. r\<lparr>qr_ts_ms := v\<rparr>) r6;
         r8 = if_some (qp_radio_id p) (\<lambda>v r. r\<lparr>qr_radio_id := v\<rparr>) r7;
         r9 = if_some (qp_operator_id p) (\<lambda>v r. r\<lparr>qr_operator_id := v\<rparr>) r8;
         r10 = if_some (qp_exchange p) (\<lambda>v r. r\<lparr>qr_exchange := v\<rparr>) r9;
         r11 = if_some (qp_is_void p) (\<lambda>v r. r\<lparr>qr_flags := (qr_flags r)\<lparr>is_void := v\<rparr>\<rparr>) r10
     in if_some (qp_dupe_override p) (\<lambda>v r. r\<lparr>qr_flags := (qr_flags r)\<lparr>dupe_override := v\<rparr>\<rparr>) r11)"

text \<open>Reading each field of a patched record: the patch's value where it has one.\<close>

definition opt_or :: "'v option \<Rightarrow> 'v \<Rightarrow> 'v" where
  "opt_or o_v d = (case o_v of None \<Rightarrow> d | Some v \<Rightarrow> v)"

lemma opt_or_simps [simp]: "opt_or None d = d" "opt_or (Some v) d = v"
  by (simp_all add: opt_or_def)

lemma opt_or_restore [simp]:
  "opt_or (map_option (\<lambda>_. a) x) (opt_or x a) = a"
  "map_option (\<lambda>_. opt_or x a) (map_option (\<lambda>_. a) x) = x"
  by (cases x; simp)+

lemma opt_or_same [simp]: "opt_or (map_option (\<lambda>_. a) x) a = a"
  by (cases x) simp_all

text \<open>Reading a field after an optional update; one instance per field carries the proofs.\<close>

lemma if_some_sel: "f (if_some o_v upd r) = opt_or (map_option (\<lambda>v. f (upd v r)) o_v) (f r)"
  by (cases o_v) (simp_all add: if_some_def)

lemmas if_some_sels =
  if_some_sel [where f = qr_id]
  if_some_sel [where f = qr_contest_instance_id]
  if_some_sel [where f = qr_callsign_raw]
  if_some_sel [where f = qr_callsign_norm]
  if_some_sel [where f = qr_band]
  if_some_sel [where f = qr_mode]
  if_some_sel [where f = qr_freq_hz]
  if_some_sel [where f = qr_ts_ms]
  if_some_sel [where f = qr_radio_id]
  if_some_sel [where f = qr_operator_id]
  if_some_sel [where f = qr_exchange]
  if_some_sel [where f = "\<lambda>r. is_void (qr_flags r)"]
  if_some_sel [where f = "\<lambda>r. dupe_override (qr_flags r)"]

lemma apply_to_sel [simp]:
  "qr_id (apply_to p r) = qr_id r"
  "qr_contest_instance_id (apply_to p r) = opt_or (qp_contest_instance_id p) (qr_contest_instance_id r)"
  "qr_callsign_raw (apply_to p r) = opt_or (qp_callsign_raw p) (qr_callsign_raw r)"
  "qr_callsign_norm (apply_to p r) = opt_or (qp_callsign_norm p) (qr_callsign_norm r)"
  "qr_band (apply_to p r) = opt_or (qp_band p) (qr_band r)"
  "qr_mode (apply_to p r) = opt_or (qp_mode p) (qr_mode r)"
  "qr_freq_hz (apply_to p r) = opt_or (qp_freq_hz p) (qr_freq_hz r)"
  "qr_ts_ms (apply_to p r) = opt_or (qp_ts_ms p) (qr_ts_ms r)"
  "qr_radio_id (apply_to p r) = opt_or (qp_radio_id p) (qr_radio_id r)"
  "qr_operator_id (apply_to p r) = opt_or (qp_operator_id p) (qr_operator_id r)"
  "qr_exchange (apply_to p r) = opt_or (qp_exchange p) (qr_exchange r)"
  "is_void (qr_flags (apply_to p r)) = opt_or (qp_is_void p) (is_void (qr_flags r))"
  "dupe_override (qr_flags (apply_to p r)) = opt_or (qp_dupe_override p) (dupe_override (qr_flags r))"
  by (simp_all add: apply_to_def Let_def if_some_sels option.map_ident)

lemma capture_sel [simp]:
  "qp_contest_instance_id (capture_inverse_for p r) = map_option (\<lambda>_. qr_contest_instance_id r) (qp_contest_instance_id p)"
  "qp_callsign_raw (capture_inverse_for p r) = map_option (\<lambda>_. qr_callsign_raw r) (qp_callsign_raw p)"
  "qp_callsign_norm (capture_inverse_for p r) = map_option (\<lambda>_. qr_callsign_norm r) (qp_callsign_norm p)"
  "qp_band (capture_inverse_for p r) = map_option (\<lambda>_. qr_band r) (qp_band p)"
  "qp_mode (capture_inverse_for p r) = map_option (\<lambda>_. qr_mode r) (qp_mode p)"
  "qp_freq_hz (capture_inverse_for p r) = map_option (\<lambda>_. qr_freq_hz r) (qp_freq_hz p)"
  "qp_ts_ms (capture_inverse_for p r) = map_option (\<lambda>_. qr_ts_ms r) (qp_ts_ms p)"
  "qp_radio_id (capture_inverse_for p r) = map_option (\<lambda>_. qr_radio_id r) (qp_radio_id p)"
  "qp_operator_id (capture_inverse_for p r) = map_option (\<lambda>_. qr_operator_id r) (qp_operator_id p)"
  "qp_exchange (capture_inverse_for p r) = map_option (\<lambda>_. qr_exchange r) (qp_exchange p)"
  "qp_is_void (capture_inverse_for p r) = map_option (\<lambda>_. is_void (qr_flags r)) (qp_is_void p)"
  "qp_dupe_override (capture_inverse_for p r) = map_option (\<lambda>_. dupe_override (qr_flags r)) (qp_dupe_override p)"
  by (simp_all add: capture_inverse_for_def)

lemma qso_record_eqI:
  fixes r s :: qso_record
  assumes "qr_id r = qr_id s"
    and "qr_contest_instance_id r = qr_contest_instance_id s"
    and "qr_callsign_raw r = qr_callsign_raw s"
    and "qr_callsign_norm r = qr_callsign_norm s"
    and "qr_band r = qr_band s"
    and "qr_mode r = qr_mode s"
    and "qr_freq_hz r = qr_freq_hz s"
    and "qr_ts_ms r = qr_ts_ms s"
    and "qr_radio_id r = qr_radio_id s"
    and "qr_operator_id r = qr_operator_id s"
    and "qr_exchange r = qr_exchange s"
    and "is_void (qr_flags r) = is_void (qr_flags s)"
    and "dupe_override (qr_flags r) = dupe_override (qr_flags s)"
  shows "r = s"
  using assms by (cases r; cases s) (auto intro: qso_flags.equality)

text \<open>An inverse patch undoes its patch, and inverting it against the patched record gives
  the patch back.\<close>

lemma apply_inverse [simp]: "apply_to (capture_inverse_for p r) (apply_to p r) = r"
  by (rule qso_record_eqI) simp_all

lemma capture_inverse_inverse [simp]:
  "capture_inverse_for (capture_inverse_for p r) (apply_to p r) = p"
  by (rule qso_patch.equality) simp_all

lemma apply_default [simp]: "apply_to default_patch r = r"
  by (rule qso_record_eqI) (simp_all add: default_patch_def)

lemma patch_is_empty_apply: "patch_is_empty p \<Longrightarrow> apply_to p r = r"
  by (simp add: patch_is_empty_def)


subsection \<open>Operations (op.rs)\<close>

definition OP_FORMAT_VERSION :: u16 where
  "OP_FORMAT_VERSION = 1"

text \<open>\<open>OpPatch i p prev\<close> and \<open>OpVoid i prev_is_void\<close> carry what is needed to invert them.\<close>

datatype op =
    OpInsert qso_record
  | OpPatch qso_id qso_patch qso_patch
  | OpVoid qso_id bool

record stored_op =
  so_seq :: op_seq
  so_ts_ms :: u64
  so_op :: op

record stored_op_envelope =
  env_format_version :: u16
  env_stored :: stored_op

definition envelope_new :: "stored_op \<Rightarrow> stored_op_envelope" where
  "envelope_new s = \<lparr>env_format_version = OP_FORMAT_VERSION, env_stored = s\<rparr>"

end
