(* ===== verification/Qso_Index.thy ===== *)
theory Qso_Index
  imports Qso_Types
begin

section \<open>Ordered secondary indices\<close>

text \<open>
  The store keeps two secondary indices from a key of the record (the normalised callsign,
  the contest instance) to the vector of the ids that have the key, in insertion order.
  This theory models the index routines of \<^verbatim>\<open>src/core/store.rs\<close> that do not touch the
  rest of the store: the binary search that finds the insertion point from the position
  table, the ordered insertion, the removal with its clean-up of empty entries. It states
  what a \<^emph>\<open>canonical\<close> index is (each entry lists, in insertion order, exactly the ids whose
  record has the key, and there is no empty entry) and proves that the routines keep
  indices canonical.
\<close>


subsection \<open>Binary search (slice::binary_search_by_key)\<close>

text \<open>
  The standard library's search on a slice sorted by a key: \<open>Inr i\<close> stands for \<open>Ok(i)\<close>
  (an element with the key), \<open>Inl i\<close> for \<open>Err(i)\<close> (the place to insert it). The halving
  of the interval terminates because it shrinks.
\<close>

function bsearch_loop :: "('a \<Rightarrow> nat) \<Rightarrow> nat \<Rightarrow> 'a list \<Rightarrow> nat \<Rightarrow> nat \<Rightarrow> nat + nat" where
  "bsearch_loop f target xs lo hi =
    (if lo < hi then
       (let mid = lo + (hi - lo) div 2; k = f (xs ! mid) in
          if k = target then Inr mid
          else if k < target then bsearch_loop f target xs (Suc mid) hi
          else bsearch_loop f target xs lo mid)
     else Inl lo)"
  by pat_completeness auto
termination
  by (relation "measure (\<lambda>(f, target, xs, lo, hi). hi - lo)") auto

declare bsearch_loop.simps [simp del]

definition binary_search_by_key :: "('a \<Rightarrow> nat) \<Rightarrow> nat \<Rightarrow> 'a list \<Rightarrow> nat + nat" where
  "binary_search_by_key f target xs = bsearch_loop f target xs 0 (length xs)"

definition below :: "('a \<Rightarrow> nat) \<Rightarrow> nat \<Rightarrow> 'a list \<Rightarrow> nat" where
  "below f target xs = length (filter (\<lambda>x. f x < target) xs)"

lemma below_le: "below f target xs \<le> length xs"
  by (simp add: below_def)

lemma below_nth:
  "sorted_wrt (\<lambda>a b. f a < f b) xs \<Longrightarrow> i < length xs
    \<Longrightarrow> f (xs ! i) < target \<longleftrightarrow> i < below f target xs"
proof (induction xs arbitrary: i)
  case (Cons x xs)
  show ?case
  proof (cases "f x < target")
    case True
    with Cons show ?thesis
      by (cases i) (auto simp: below_def)
  next
    case False
    then have ge: "\<not> f y < target" if "y \<in> set (x # xs)" for y
      using that Cons.prems(1) by auto
    then have "below f target (x # xs) = 0"
      by (simp add: below_def filter_empty_conv)
    moreover have "\<not> f ((x # xs) ! i) < target"
      by (rule ge [OF nth_mem [OF Cons.prems(2)]])
    ultimately show ?thesis by simp
  qed
qed simp

lemma bsearch_loop_absent:
  "sorted_wrt (\<lambda>a b. f a < f b) xs \<Longrightarrow> \<forall>x \<in> set xs. f x \<noteq> target
    \<Longrightarrow> lo \<le> below f target xs \<Longrightarrow> below f target xs \<le> hi \<Longrightarrow> hi \<le> length xs
    \<Longrightarrow> bsearch_loop f target xs lo hi = Inl (below f target xs)"
proof (induction f target xs lo hi rule: bsearch_loop.induct)
  case (1 f target xs lo hi)
  show ?case
  proof (cases "lo < hi")
    case True
    let ?mid = "lo + (hi - lo) div 2"
    from True "1.prems" have mid: "?mid < length xs" by auto
    then have ne: "f (xs ! ?mid) \<noteq> target" and
      lt: "f (xs ! ?mid) < target \<longleftrightarrow> ?mid < below f target xs"
      using "1.prems" below_nth [of f xs ?mid target] by auto
    show ?thesis
      using True ne lt "1.prems" "1.IH"(1) [of ?mid "f (xs ! ?mid)"] "1.IH"(2) [of ?mid "f (xs ! ?mid)"]
      by (subst bsearch_loop.simps) (simp add: Let_def)
  qed (use "1.prems" in \<open>simp add: bsearch_loop.simps\<close>)
qed

lemma bsearch_loop_bounds:
  "lo \<le> hi \<Longrightarrow> case bsearch_loop f target xs lo hi of
     Inr i \<Rightarrow> i < hi \<and> f (xs ! i) = target | Inl i \<Rightarrow> i \<le> hi"
proof (induction f target xs lo hi rule: bsearch_loop.induct)
  case (1 f target xs lo hi)
  let ?mid = "lo + (hi - lo) div 2"
  consider "\<not> lo < hi" | "lo < hi" "f (xs ! ?mid) = target"
    | "lo < hi" "f (xs ! ?mid) < target" | "lo < hi" "target < f (xs ! ?mid)"
    by linarith
  then show ?case
  proof cases
    case 3
    then have "bsearch_loop f target xs lo hi = bsearch_loop f target xs (Suc ?mid) hi"
      by (subst bsearch_loop.simps) (simp add: Let_def)
    with 3 "1.IH"(1) [of ?mid "f (xs ! ?mid)"] show ?thesis by simp
  next
    case 4
    then have "bsearch_loop f target xs lo hi = bsearch_loop f target xs lo ?mid"
      by (subst bsearch_loop.simps) (simp add: Let_def)
    moreover have "?mid < hi" using 4 by linarith
    ultimately show ?thesis
      using 4 "1.IH"(2) [of ?mid "f (xs ! ?mid)"] by (force split: sum.splits)
  qed (use "1.prems" in \<open>subst bsearch_loop.simps, auto simp: Let_def\<close>)+
qed

text \<open>The documented contract of the search, on a slice strictly sorted by the key.\<close>

lemma binary_search_absent:
  assumes "sorted_wrt (\<lambda>a b. f a < f b) xs" and "\<And>x. x \<in> set xs \<Longrightarrow> f x \<noteq> target"
  shows "binary_search_by_key f target xs = Inl (below f target xs)"
  using assms by (simp add: binary_search_by_key_def bsearch_loop_absent below_le)

lemma binary_search_bounds:
  "case binary_search_by_key f target xs of
     Inr i \<Rightarrow> i < length xs \<and> f (xs ! i) = target | Inl i \<Rightarrow> i \<le> length xs"
  using bsearch_loop_bounds [of 0 "length xs"] by (simp add: binary_search_by_key_def)


subsection \<open>The index routines of the store\<close>

text \<open>\<open>*pos.get(&id).unwrap_or(&usize::MAX)\<close>\<close>

definition pos_or_max :: "(qso_id, nat) mapping \<Rightarrow> qso_id \<Rightarrow> nat" where
  "pos_or_max pos i = (case Mapping.lookup pos i of Some n \<Rightarrow> n | None \<Rightarrow> usize_max)"

definition insert_id_ordered :: "qso_id list \<Rightarrow> qso_id \<Rightarrow> (qso_id, nat) mapping \<Rightarrow> qso_id list option" where
  "insert_id_ordered ids i pos =
    (let target = pos_or_max pos i;
         at = (case binary_search_by_key (pos_or_max pos) target ids of Inr n \<Rightarrow> n | Inl n \<Rightarrow> n)
     in vec_insert ids at i)"

text \<open>\<open>entry(key).or_default().push(id)\<close>\<close>

text \<open>\<open>VecIndex\<close> of \<^verbatim>\<open>src/core/indices.rs\<close>.\<close>

type_synonym 'k vec_index = "('k, qso_id list) mapping"

definition entry_push :: "'k \<Rightarrow> qso_id \<Rightarrow> 'k vec_index \<Rightarrow> 'k vec_index" where
  "entry_push k i ix = Mapping.map_default k [] (\<lambda>ids. ids @ [i]) ix"

text \<open>\<open>retain(|v| *v != id)\<close> on the entry of a key, which is dropped when it gets empty.\<close>

definition entry_retain :: "'k \<Rightarrow> qso_id \<Rightarrow> 'k vec_index \<Rightarrow> 'k vec_index" where
  "entry_retain k i ix =
    (case Mapping.lookup ix k of
       None \<Rightarrow> ix
     | Some ids \<Rightarrow>
         (let ids' = filter (\<lambda>v. v \<noteq> i) ids in
          if ids' = [] then Mapping.delete k ix else Mapping.update k ids' ix))"

text \<open>Moving an id from the entry of its old key to the place of its position in the entry
  of its new key, as \<open>update_call_index\<close> and \<open>update_contest_index\<close> both do.\<close>

definition entry_move ::
    "'k \<Rightarrow> 'k \<Rightarrow> qso_id \<Rightarrow> (qso_id, nat) mapping \<Rightarrow> 'k vec_index
      \<Rightarrow> 'k vec_index option" where
  "entry_move old new i pos ix =
    (let ix1 = entry_retain old i ix in
     case insert_id_ordered (Mapping.lookup_default [] ix1 new) i pos of
       None \<Rightarrow> None
     | Some ids \<Rightarrow> Some (Mapping.update new ids ix1))"

lemma insert_id_ordered_total: "\<exists>ids'. insert_id_ordered ids i pos = Some ids'"
  using binary_search_bounds [where f = "pos_or_max pos" and target = "pos_or_max pos i" and xs = ids]
  by (auto simp: insert_id_ordered_def vec_insert_def Let_def split: sum.splits)


subsection \<open>Canonical indices\<close>

text \<open>The ids, in insertion order, whose record has the key \<open>k\<close>: the full scan that the
  index stands for. The store's own debug assertion computes the same list.\<close>

definition has_key ::
    "(qso_record \<Rightarrow> 'k) \<Rightarrow> (qso_id, qso_record) mapping \<Rightarrow> 'k \<Rightarrow> qso_id \<Rightarrow> bool" where
  "has_key key rs k i = (case Mapping.lookup rs i of Some r \<Rightarrow> key r = k | None \<Rightarrow> False)"

definition matching ::
    "(qso_record \<Rightarrow> 'k) \<Rightarrow> (qso_id, qso_record) mapping \<Rightarrow> qso_id list \<Rightarrow> 'k \<Rightarrow> qso_id list" where
  "matching key rs ord k = filter (has_key key rs k) ord"

definition canonical_index ::
    "(qso_record \<Rightarrow> 'k) \<Rightarrow> (qso_id, qso_record) mapping \<Rightarrow> qso_id list
      \<Rightarrow> 'k vec_index \<Rightarrow> bool" where
  "canonical_index key rs ord ix \<longleftrightarrow>
    (\<forall>k. Mapping.lookup ix k =
      (if matching key rs ord k = [] then None else Some (matching key rs ord k)))"

text \<open>The position table is the inverse of the order vector.\<close>

definition pos_ok :: "qso_id list \<Rightarrow> (qso_id, nat) mapping \<Rightarrow> bool" where
  "pos_ok ord pos \<longleftrightarrow> (\<forall>i n. Mapping.lookup pos i = Some n \<longleftrightarrow> n < length ord \<and> ord ! n = i)"

lemma has_key_Some: "Mapping.lookup rs i = Some r \<Longrightarrow> has_key key rs k i \<longleftrightarrow> key r = k"
  by (simp add: has_key_def)

lemma has_key_update [simp]:
  "has_key key (Mapping.update i r rs) k j \<longleftrightarrow> (if j = i then key r = k else has_key key rs k j)"
  by (simp add: has_key_def lookup_update')

lemma has_key_delete [simp]:
  "has_key key (Mapping.delete i rs) k j \<longleftrightarrow> j \<noteq> i \<and> has_key key rs k j"
  by (cases "j = i") (simp_all add: has_key_def)

lemma canonical_index_unique:
  "canonical_index key rs ord ix \<Longrightarrow> canonical_index key rs ord ix' \<Longrightarrow> ix = ix'"
  by (rule mapping_eqI) (simp add: canonical_index_def)

lemma canonical_lookup:
  "canonical_index key rs ord ix \<Longrightarrow> Mapping.lookup_default [] ix k = matching key rs ord k"
  by (simp add: canonical_index_def Mapping.lookup_default_def)

lemma canonical_lookup_Some:
  "canonical_index key rs ord ix \<Longrightarrow> Mapping.lookup ix k = Some ids \<Longrightarrow> matching key rs ord k = ids"
  by (simp add: canonical_index_def split: if_splits)

lemma canonical_empty: "canonical_index key rs [] Mapping.empty"
  by (simp add: canonical_index_def matching_def)

lemma pos_ok_empty: "pos_ok [] Mapping.empty"
  by (simp add: pos_ok_def)

lemma pos_ok_nth: "pos_ok ord pos \<Longrightarrow> n < length ord \<Longrightarrow> Mapping.lookup pos (ord ! n) = Some n"
  by (simp add: pos_ok_def)

lemma pos_ok_distinct: "pos_ok ord pos \<Longrightarrow> distinct ord"
proof (unfold distinct_conv_nth, intro allI impI)
  fix m n assume "pos_ok ord pos" and mn: "m < length ord" "n < length ord" "m \<noteq> n"
  then have "Mapping.lookup pos (ord ! m) = Some m" "Mapping.lookup pos (ord ! n) = Some n"
    by (simp_all add: pos_ok_nth)
  with mn show "ord ! m \<noteq> ord ! n" by auto
qed

lemma pos_ok_unique:
  assumes "pos_ok ord pos" "pos_ok ord pos'"
  shows "pos = pos'"
proof (rule mapping_eqI)
  fix i
  have "Mapping.lookup pos i = Some n \<longleftrightarrow> Mapping.lookup pos' i = Some n" for n
    using assms unfolding pos_ok_def by blast
  then show "Mapping.lookup pos i = Mapping.lookup pos' i"
    by (metis not_Some_eq)
qed

lemma pos_ok_append:
  assumes "pos_ok ord pos" "i \<notin> set ord"
  shows "pos_ok (ord @ [i]) (Mapping.update i (length ord) pos)"
proof -
  have "ord ! n \<noteq> i" if "n < length ord" for n
    using assms(2) that by (metis nth_mem)
  with assms(1) show ?thesis
    by (auto simp: pos_ok_def lookup_update' nth_append less_Suc_eq)
qed

lemma matching_cong:
  "(\<And>i. i \<in> set ord \<Longrightarrow> has_key key rs k i = has_key key rs' k i)
    \<Longrightarrow> matching key rs ord k = matching key rs' ord k"
  by (auto simp: matching_def intro: filter_cong)

lemma matching_update_other:
  "i \<notin> set ord \<Longrightarrow> matching key (Mapping.update i r rs) ord k = matching key rs ord k"
  by (rule matching_cong) auto

text \<open>Appending a record at the end of the order.\<close>

lemma canonical_push:
  assumes "canonical_index key rs ord ix" "qr_id r = i" "i \<notin> set ord"
  shows "canonical_index key (Mapping.update i r rs) (ord @ [i]) (entry_push (key r) i ix)"
proof -
  have "matching key (Mapping.update i r rs) (ord @ [i]) k
      = matching key rs ord k @ (if key r = k then [i] else [])" for k
    using matching_update_other [OF assms(3), of key r rs k] by (simp add: matching_def)
  with assms(1) show ?thesis
    by (auto simp: canonical_index_def entry_push_def lookup_map_default' Mapping.lookup_default_def)
qed

text \<open>A change that keeps the record's key keeps the index.\<close>

lemma canonical_same_key:
  assumes "canonical_index key rs ord ix" "Mapping.lookup rs i = Some r" "key r' = key r"
  shows "canonical_index key (Mapping.update i r' rs) ord ix"
proof -
  have "matching key (Mapping.update i r' rs) ord k = matching key rs ord k" for k
    by (rule matching_cong) (simp add: assms(3) has_key_Some [OF assms(2)])
  with assms(1) show ?thesis by (simp add: canonical_index_def)
qed

text \<open>The ordered insertion: an id that is absent from the entry lands at the place its
  position gives it, so the entry is again the filtered order.\<close>

lemma insert_id_ordered_filter:
  assumes pos: "pos_ok ord pos" and i: "i \<in> set ord" and "\<not> P i"
  shows "insert_id_ordered (filter P ord) i pos = Some (filter (\<lambda>v. v = i \<or> P v) ord)"
proof -
  from i obtain us vs where ord: "ord = us @ i # vs" "i \<notin> set us"
    by (meson split_list_first)
  have key: "pos_or_max pos (ord ! n) = n" if "n < length ord" for n
    using pos_ok_nth [OF pos that] by (simp add: pos_or_max_def)
  have sorted: "sorted_wrt (\<lambda>a b. pos_or_max pos a < pos_or_max pos b) ord"
    by (auto simp: sorted_wrt_iff_nth_less key)
  then have parts: "\<forall>u \<in> set us. pos_or_max pos u < pos_or_max pos i"
      "\<forall>v \<in> set vs. pos_or_max pos i < pos_or_max pos v"
    by (auto simp: ord(1) sorted_wrt_append)
  have flt: "filter P ord = filter P us @ filter P vs"
    using \<open>\<not> P i\<close> by (simp add: ord(1))
  have "filter (\<lambda>x. pos_or_max pos x < pos_or_max pos i) (filter P us) = filter P us"
    by (rule filter_True) (use parts(1) in auto)
  moreover have "filter (\<lambda>x. pos_or_max pos x < pos_or_max pos i) (filter P vs) = []"
    using parts(2) by (fastforce simp: filter_empty_conv)
  ultimately have at: "below (pos_or_max pos) (pos_or_max pos i) (filter P ord) = length (filter P us)"
    by (simp only: below_def flt filter_append append_Nil2)
  have absent: "pos_or_max pos v \<noteq> pos_or_max pos i" if "v \<in> set (filter P ord)" for v
    using that parts by (auto simp: flt)
  have "binary_search_by_key (pos_or_max pos) (pos_or_max pos i) (filter P ord)
      = Inl (length (filter P us))"
    using binary_search_absent [OF sorted_wrt_filter [OF sorted] absent] at by simp
  then have "insert_id_ordered (filter P ord) i pos = Some (filter P us @ i # filter P vs)"
    by (simp add: insert_id_ordered_def vec_insert_def flt)
  moreover have "filter (\<lambda>v. v = i \<or> P v) us = filter P us"
    using ord(2) by (intro filter_cong) auto
  moreover have "filter (\<lambda>v. v = i \<or> P v) vs = filter P vs"
    using parts(2) by (intro filter_cong) auto
  ultimately show ?thesis by (simp add: ord(1))
qed

lemma canonical_retain:
  assumes "canonical_index key rs ord ix" "Mapping.lookup rs i = Some r"
  shows "Mapping.lookup (entry_retain (key r) i ix) k =
    (let ids = filter (\<lambda>v. v \<noteq> i) (matching key rs ord k) in if ids = [] then None else Some ids)"
proof (cases "k = key r")
  case True
  then show ?thesis
    using assms(1) by (auto simp: canonical_index_def entry_retain_def Let_def split: option.splits)
next
  case False
  have "filter (\<lambda>v. v \<noteq> i) (matching key rs ord k) = matching key rs ord k"
    by (rule filter_True) (use False in \<open>auto simp: matching_def has_key_Some [OF assms(2)]\<close>)
  with False assms(1) show ?thesis
    by (auto simp: canonical_index_def entry_retain_def Let_def split: option.splits)
qed

lemma canonical_move:
  assumes ix: "canonical_index key rs ord ix" and r: "Mapping.lookup rs i = Some r"
    and ne: "key r \<noteq> key r'" and pos: "pos_ok ord pos" "i \<in> set ord"
  shows "\<exists>ix'. entry_move (key r) (key r') i pos ix = Some ix'
    \<and> canonical_index key (Mapping.update i r' rs) ord ix'"
proof -
  let ?ix1 = "entry_retain (key r) i ix" and ?m = "matching key (Mapping.update i r' rs) ord"
  note retain = canonical_retain [OF ix r]
  have m_new: "?m (key r') = filter (\<lambda>v. v = i \<or> has_key key rs (key r') v) ord"
    unfolding matching_def by (rule filter_cong) auto
  have m_other: "?m k = filter (\<lambda>v. v \<noteq> i) (matching key rs ord k)" if "k \<noteq> key r'" for k
    using that unfolding matching_def filter_filter by (intro filter_cong [OF refl]) auto
  have absent: "\<not> has_key key rs (key r') i"
    using ne by (simp add: has_key_Some [OF r])
  have "filter (\<lambda>v. v \<noteq> i) (matching key rs ord (key r')) = matching key rs ord (key r')"
    by (rule filter_True) (use absent in \<open>auto simp: matching_def\<close>)
  with retain [of "key r'"]
  have "Mapping.lookup_default [] ?ix1 (key r') = filter (has_key key rs (key r')) ord"
    by (simp add: Mapping.lookup_default_def Let_def matching_def)
  then have mv: "entry_move (key r) (key r') i pos ix = Some (Mapping.update (key r') (?m (key r')) ?ix1)"
    using insert_id_ordered_filter [where P = "has_key key rs (key r')", OF pos absent]
    by (simp add: entry_move_def m_new)
  have "?m (key r') \<noteq> []"
    using pos(2) by (auto simp: m_new filter_empty_conv)
  then have "canonical_index key (Mapping.update i r' rs) ord (Mapping.update (key r') (?m (key r')) ?ix1)"
    unfolding canonical_index_def lookup_update' using retain m_other by (auto simp: Let_def)
  with mv show ?thesis by blast
qed

text \<open>Removing a record altogether (the rollback of an insert).\<close>

lemma canonical_delete:
  assumes "canonical_index key rs ord ix" "Mapping.lookup rs i = Some r"
  shows "canonical_index key (Mapping.delete i rs) (filter (\<lambda>v. v \<noteq> i) ord) (entry_retain (key r) i ix)"
proof -
  have "matching key (Mapping.delete i rs) (filter (\<lambda>v. v \<noteq> i) ord) k
      = filter (\<lambda>v. v \<noteq> i) (matching key rs ord k)" for k
    unfolding matching_def filter_filter by (rule filter_cong [OF refl]) auto
  with canonical_retain [OF assms] show ?thesis
    by (simp add: canonical_index_def Let_def)
qed

end
