(* ===== verification/Qso_Store.thy ===== *)
theory Qso_Store
  imports Qso_Index
begin

section \<open>The authoritative store (core/store.rs)\<close>

text \<open>
  \<open>QsoStore\<close> and every method of it, in the order of \<^verbatim>\<open>src/core/store.rs\<close>. A method on
  \<open>&mut self\<close> takes the store and returns a \<^typ>\<open>('s, 'e, 'a) result\<close>: the state in an
  \<open>Err\<close> is the state the code leaves behind at that early return. Two things the code
  reads from outside are arguments: the build profile \<open>pf\<close> (overflow checks, debug
  assertions) and the reading \<open>clk\<close> of the system clock, in nanoseconds since the Unix
  epoch (negative when the clock is set before it).
\<close>


subsection \<open>State\<close>

datatype store_error = MissingQso qso_id | AlreadyExists qso_id | NothingToUndo | NothingToRedo

record store_snapshot =
  snap_next_qso_id :: qso_id
  snap_next_op_seq :: op_seq
  snap_order :: "qso_id list"
  snap_records :: "qso_record list"

record qso_store =
  records :: "(qso_id, qso_record) mapping"
  order :: "qso_id list"
  pos :: "(qso_id, nat) mapping"
  by_call :: "string vec_index"
  by_contest :: "contest_instance_id vec_index"
  undo :: "op list"
  redo :: "op list"
  pending_ops :: "stored_op list"
  next_op_seq :: op_seq
  next_qso_id :: qso_id

record mutation_checkpoint =
  cp_undo_len :: nat
  cp_redo_len :: nat
  cp_pending_ops_len :: nat
  cp_next_op_seq :: op_seq
  cp_next_qso_id :: qso_id

type_synonym 'a store_result = "(qso_store, store_error, 'a) result"

definition default_store :: qso_store where
  "default_store = \<lparr>records = Mapping.empty, order = [], pos = Mapping.empty,
    by_call = Mapping.empty, by_contest = Mapping.empty, undo = [], redo = [],
    pending_ops = [], next_op_seq = 0, next_qso_id = 0\<rparr>"

definition new_store :: qso_store where
  "new_store = default_store\<lparr>next_op_seq := 1, next_qso_id := 1\<rparr>"

definition now_ms :: "int \<Rightarrow> u64" where
  "now_ms clk = (if clk < 0 then 0 else word_of_int (clk div 1000000))"


subsection \<open>Index maintenance\<close>

definition insert_indices :: "qso_record \<Rightarrow> qso_store \<Rightarrow> qso_store" where
  "insert_indices r st = st\<lparr>
    by_call := entry_push (qr_callsign_norm r) (qr_id r) (by_call st),
    by_contest := entry_push (qr_contest_instance_id r) (qr_id r) (by_contest st)\<rparr>"

definition remove_indices :: "qso_record \<Rightarrow> qso_store \<Rightarrow> qso_store" where
  "remove_indices r st = st\<lparr>
    by_call := entry_retain (qr_callsign_norm r) (qr_id r) (by_call st),
    by_contest := entry_retain (qr_contest_instance_id r) (qr_id r) (by_contest st)\<rparr>"

definition update_call_index :: "qso_id \<Rightarrow> string \<Rightarrow> string \<Rightarrow> qso_store \<Rightarrow> qso_store option" where
  "update_call_index i old_call new_call st =
    (case entry_move old_call new_call i (pos st) (by_call st) of
       None \<Rightarrow> None
     | Some ix \<Rightarrow> Some (st\<lparr>by_call := ix\<rparr>))"

definition update_contest_index ::
    "qso_id \<Rightarrow> contest_instance_id \<Rightarrow> contest_instance_id \<Rightarrow> qso_store \<Rightarrow> qso_store option" where
  "update_contest_index i old new st =
    (case entry_move old new i (pos st) (by_contest st) of
       None \<Rightarrow> None
     | Some ix \<Rightarrow> Some (st\<lparr>by_contest := ix\<rparr>))"

text \<open>Only compiled with debug assertions: every index entry must equal the full scan.\<close>

definition debug_assert_indices_consistent :: "qso_store \<Rightarrow> bool" where
  "debug_assert_indices_consistent st \<longleftrightarrow>
    (\<forall>call \<in> Mapping.keys (by_call st).
       Mapping.lookup (by_call st) call = Some (matching qr_callsign_norm (records st) (order st) call)) \<and>
    (\<forall>contest \<in> Mapping.keys (by_contest st).
       Mapping.lookup (by_contest st) contest
         = Some (matching qr_contest_instance_id (records st) (order st) contest))"

text \<open>
  The tail that \<open>apply_patch_with_seq\<close> and \<open>rollback_patch\<close> share: after the record \<open>r\<close>
  became \<open>r'\<close>, move the id in the indices whose key changed, then run the debug
  assertion. \<open>None\<close> is a panic.
\<close>

definition reindex :: "profile \<Rightarrow> qso_id \<Rightarrow> qso_record \<Rightarrow> qso_record \<Rightarrow> qso_store \<Rightarrow> qso_store option" where
  "reindex pf i r r' st =
    (case (if qr_callsign_norm r \<noteq> qr_callsign_norm r'
           then update_call_index i (qr_callsign_norm r) (qr_callsign_norm r') st else Some st) of
       None \<Rightarrow> None
     | Some st1 \<Rightarrow>
       (case (if qr_contest_instance_id r \<noteq> qr_contest_instance_id r'
              then update_contest_index i (qr_contest_instance_id r) (qr_contest_instance_id r') st1
              else Some st1) of
          None \<Rightarrow> None
        | Some st2 \<Rightarrow>
            if debug_assertions pf \<and> \<not> debug_assert_indices_consistent st2 then None else Some st2))"


subsection \<open>Sequence numbers\<close>

definition take_next_op_seq :: "profile \<Rightarrow> qso_store \<Rightarrow> (op_seq \<times> qso_store) option" where
  "take_next_op_seq pf st =
    (case incr_u64 pf (next_op_seq st) of
       None \<Rightarrow> None
     | Some n \<Rightarrow> Some (next_op_seq st, st\<lparr>next_op_seq := n\<rparr>))"

definition bump_next_seq_from :: "op_seq \<Rightarrow> qso_store \<Rightarrow> qso_store" where
  "bump_next_seq_from seq st = st\<lparr>next_op_seq := max (next_op_seq st) (saturating_add seq 1)\<rparr>"


subsection \<open>Applying operations\<close>

text \<open>Each returns the stored operation for the journal and the inverse for the undo stack.\<close>

definition apply_insert_with_seq :: "int \<Rightarrow> qso_record \<Rightarrow> op_seq \<Rightarrow> qso_store \<Rightarrow> (stored_op \<times> op) store_result" where
  "apply_insert_with_seq clk qso seq st =
    (case Mapping.lookup (records st) (qr_id qso) of
       Some _ \<Rightarrow> Err (AlreadyExists (qr_id qso)) st
     | None \<Rightarrow>
       (let i = qr_id qso;
            st1 = st\<lparr>next_qso_id := max (next_qso_id st) (saturating_add i 1)\<rparr>;
            st2 = insert_indices qso st1;
            st3 = st2\<lparr>pos := Mapping.update i (length (order st2)) (pos st2)\<rparr>;
            st4 = st3\<lparr>order := order st3 @ [i]\<rparr>;
            st5 = st4\<lparr>records := Mapping.update i qso (records st4)\<rparr>;
            st6 = bump_next_seq_from seq st5;
            stored = \<lparr>so_seq = seq, so_ts_ms = now_ms clk, so_op = OpInsert qso\<rparr>
        in Ok (stored, OpVoid i False) st6))"

definition apply_patch_with_seq ::
    "profile \<Rightarrow> int \<Rightarrow> qso_id \<Rightarrow> qso_patch \<Rightarrow> op_seq \<Rightarrow> qso_store \<Rightarrow> (stored_op \<times> op) store_result" where
  "apply_patch_with_seq pf clk i patch seq st =
    (case Mapping.lookup (records st) i of
       None \<Rightarrow> Err (MissingQso i) st
     | Some r \<Rightarrow>
       (let prev = capture_inverse_for patch r;
            r' = apply_to patch r
        in case reindex pf i r r' (st\<lparr>records := Mapping.update i r' (records st)\<rparr>) of
             None \<Rightarrow> Panic
           | Some st1 \<Rightarrow>
             (let st2 = bump_next_seq_from seq st1;
                  stored = \<lparr>so_seq = seq, so_ts_ms = now_ms clk, so_op = OpPatch i patch prev\<rparr>
              in Ok (stored, OpPatch i prev patch) st2)))"

definition apply_void_with_seq ::
    "int \<Rightarrow> qso_id \<Rightarrow> bool \<Rightarrow> op_seq \<Rightarrow> qso_store \<Rightarrow> (stored_op \<times> op) store_result" where
  "apply_void_with_seq clk i prev_is_void seq st =
    (case Mapping.lookup (records st) i of
       None \<Rightarrow> Err (MissingQso i) st
     | Some r \<Rightarrow>
       (let r' = r\<lparr>qr_flags := (qr_flags r)\<lparr>is_void := \<not> prev_is_void\<rparr>\<rparr>;
            new_is_void = is_void (qr_flags r');
            st1 = st\<lparr>records := Mapping.update i r' (records st)\<rparr>;
            st2 = bump_next_seq_from seq st1;
            stored = \<lparr>so_seq = seq, so_ts_ms = now_ms clk, so_op = OpVoid i prev_is_void\<rparr>
        in Ok (stored, OpVoid i new_is_void) st2))"

definition apply_insert :: "profile \<Rightarrow> int \<Rightarrow> qso_record \<Rightarrow> qso_store \<Rightarrow> (stored_op \<times> op) store_result" where
  "apply_insert pf clk qso st =
    (case take_next_op_seq pf st of
       None \<Rightarrow> Panic | Some (seq, st1) \<Rightarrow> apply_insert_with_seq clk qso seq st1)"

definition apply_patch :: "profile \<Rightarrow> int \<Rightarrow> qso_id \<Rightarrow> qso_patch \<Rightarrow> qso_store \<Rightarrow> (stored_op \<times> op) store_result" where
  "apply_patch pf clk i patch st =
    (case take_next_op_seq pf st of
       None \<Rightarrow> Panic | Some (seq, st1) \<Rightarrow> apply_patch_with_seq pf clk i patch seq st1)"

definition apply_void :: "profile \<Rightarrow> int \<Rightarrow> qso_id \<Rightarrow> bool \<Rightarrow> qso_store \<Rightarrow> (stored_op \<times> op) store_result" where
  "apply_void pf clk i prev_is_void st =
    (case take_next_op_seq pf st of
       None \<Rightarrow> Panic | Some (seq, st1) \<Rightarrow> apply_void_with_seq clk i prev_is_void seq st1)"

fun apply_op :: "profile \<Rightarrow> int \<Rightarrow> op \<Rightarrow> qso_store \<Rightarrow> (stored_op \<times> op) store_result" where
  "apply_op pf clk (OpInsert qso) st = apply_insert pf clk qso st"
| "apply_op pf clk (OpPatch i patch _) st = apply_patch pf clk i patch st"
| "apply_op pf clk (OpVoid i prev_is_void) st = apply_void pf clk i prev_is_void st"


subsection \<open>Public mutations\<close>

definition record_of_draft :: "qso_id \<Rightarrow> qso_draft \<Rightarrow> qso_record" where
  "record_of_draft i d = \<lparr>
    qr_id = i,
    qr_contest_instance_id = qd_contest_instance_id d,
    qr_callsign_raw = qd_callsign_raw d,
    qr_callsign_norm = qd_callsign_norm d,
    qr_band = qd_band d,
    qr_mode = qd_mode d,
    qr_freq_hz = qd_freq_hz d,
    qr_ts_ms = qd_ts_ms d,
    qr_radio_id = qd_radio_id d,
    qr_operator_id = qd_operator_id d,
    qr_exchange = qd_exchange d,
    qr_flags = qd_flags d\<rparr>"

text \<open>The tail of \<open>insert\<close>, \<open>patch\<close> and \<open>void\<close>: push the inverse, clear redo, queue the op.\<close>

definition commit_mutation :: "stored_op \<Rightarrow> op \<Rightarrow> qso_store \<Rightarrow> qso_store" where
  "commit_mutation stored inv_op st = st\<lparr>undo := undo st @ [inv_op], redo := [],
    pending_ops := pending_ops st @ [stored]\<rparr>"

definition store_insert :: "profile \<Rightarrow> int \<Rightarrow> qso_draft \<Rightarrow> qso_store \<Rightarrow> (qso_id \<times> stored_op) store_result" where
  "store_insert pf clk draft st =
    (case incr_u64 pf (next_qso_id st) of
       None \<Rightarrow> Panic
     | Some n \<Rightarrow>
       (let i = next_qso_id st; qso = record_of_draft i draft in
        and_then (apply_insert pf clk qso (st\<lparr>next_qso_id := n\<rparr>))
          (\<lambda>(stored, inv_op) st1. Ok (i, stored) (commit_mutation stored inv_op st1))))"

definition store_patch :: "profile \<Rightarrow> int \<Rightarrow> qso_id \<Rightarrow> qso_patch \<Rightarrow> qso_store \<Rightarrow> stored_op store_result" where
  "store_patch pf clk i patch st =
    and_then (apply_patch pf clk i patch st)
      (\<lambda>(stored, inv_op) st1. Ok stored (commit_mutation stored inv_op st1))"

definition store_void :: "profile \<Rightarrow> int \<Rightarrow> qso_id \<Rightarrow> qso_store \<Rightarrow> stored_op store_result" where
  "store_void pf clk i st =
    (case Mapping.lookup (records st) i of
       None \<Rightarrow> Err (MissingQso i) st
     | Some r \<Rightarrow>
        and_then (apply_void pf clk i (is_void (qr_flags r)) st)
          (\<lambda>(stored, inv_op) st1. Ok stored (commit_mutation stored inv_op st1)))"

definition store_undo :: "profile \<Rightarrow> int \<Rightarrow> qso_store \<Rightarrow> stored_op store_result" where
  "store_undo pf clk st =
    (case vec_pop (undo st) of
       None \<Rightarrow> Err NothingToUndo st
     | Some (op, rest) \<Rightarrow>
        and_then (apply_op pf clk op (st\<lparr>undo := rest\<rparr>))
          (\<lambda>(stored, inv_op) st1. Ok stored
            (st1\<lparr>redo := redo st1 @ [inv_op], pending_ops := pending_ops st1 @ [stored]\<rparr>)))"

definition store_redo :: "profile \<Rightarrow> int \<Rightarrow> qso_store \<Rightarrow> stored_op store_result" where
  "store_redo pf clk st =
    (case vec_pop (redo st) of
       None \<Rightarrow> Err NothingToRedo st
     | Some (op, rest) \<Rightarrow>
        and_then (apply_op pf clk op (st\<lparr>redo := rest\<rparr>))
          (\<lambda>(stored, inv_op) st1. Ok stored
            (st1\<lparr>undo := undo st1 @ [inv_op], pending_ops := pending_ops st1 @ [stored]\<rparr>)))"

text \<open>Replay of one journal entry; undo and redo are cleared, nothing is queued.\<close>

definition apply_replayed_op :: "profile \<Rightarrow> int \<Rightarrow> stored_op \<Rightarrow> qso_store \<Rightarrow> unit store_result" where
  "apply_replayed_op pf clk so st =
    and_then
      (case so_op so of
         OpInsert qso \<Rightarrow> apply_insert_with_seq clk qso (so_seq so) st
       | OpPatch i patch _ \<Rightarrow> apply_patch_with_seq pf clk i patch (so_seq so) st
       | OpVoid i prev_is_void \<Rightarrow> apply_void_with_seq clk i prev_is_void (so_seq so) st)
      (\<lambda>_ st1. Ok () (st1\<lparr>undo := [], redo := []\<rparr>))"


subsection \<open>Queries\<close>

definition store_get :: "qso_id \<Rightarrow> qso_store \<Rightarrow> qso_record option" where
  "store_get i st = Mapping.lookup (records st) i"

text \<open>\<open>order[len.saturating_sub(n)..]\<close>, looked up; subtraction on \<open>nat\<close> saturates.\<close>

definition store_recent :: "nat \<Rightarrow> qso_store \<Rightarrow> qso_record list" where
  "store_recent n st =
    (let len = length (order st); start = len - n
     in filter_map (Mapping.lookup (records st)) (drop start (order st)))"

definition store_by_call :: "string \<Rightarrow> qso_store \<Rightarrow> qso_record list" where
  "store_by_call call st =
    (case Mapping.lookup (by_call st) call of
       None \<Rightarrow> []
     | Some ids \<Rightarrow> filter_map (Mapping.lookup (records st)) ids)"

definition ordered_ids :: "qso_store \<Rightarrow> qso_id list" where
  "ordered_ids st = order st"

definition drain_pending_ops :: "qso_store \<Rightarrow> stored_op list \<times> qso_store" where
  "drain_pending_ops st = (pending_ops st, st\<lparr>pending_ops := []\<rparr>)"

definition clear_pending_ops :: "qso_store \<Rightarrow> qso_store" where
  "clear_pending_ops st = st\<lparr>pending_ops := []\<rparr>"

definition undo_len :: "qso_store \<Rightarrow> nat" where
  "undo_len st = length (undo st)"

definition redo_len :: "qso_store \<Rightarrow> nat" where
  "redo_len st = length (redo st)"

definition latest_op_seq :: "qso_store \<Rightarrow> op_seq" where
  "latest_op_seq st = saturating_sub (next_op_seq st) 1"


subsection \<open>Snapshots\<close>

definition export_snapshot :: "qso_store \<Rightarrow> store_snapshot" where
  "export_snapshot st = \<lparr>
    snap_next_qso_id = next_qso_id st,
    snap_next_op_seq = next_op_seq st,
    snap_order = order st,
    snap_records = filter_map (Mapping.lookup (records st)) (order st)\<rparr>"

definition restore_record :: "qso_record \<Rightarrow> qso_store \<Rightarrow> qso_store" where
  "restore_record r st =
    (let st1 = insert_indices r st in st1\<lparr>records := Mapping.update (qr_id r) r (records st1)\<rparr>)"

definition from_snapshot :: "store_snapshot \<Rightarrow> store_error + qso_store" where
  "from_snapshot snap =
    (let st0 = default_store\<lparr>next_qso_id := snap_next_qso_id snap,
                 next_op_seq := snap_next_op_seq snap, order := snap_order snap\<rparr>;
         st1 = fold (\<lambda>(idx, i) st. st\<lparr>pos := Mapping.update i idx (pos st)\<rparr>)
                 (List.enumerate 0 (order st0)) st0
     in Inr (fold restore_record (snap_records snap) st1))"


subsection \<open>Checkpoint and rollback of a mutation\<close>

definition take_checkpoint :: "qso_store \<Rightarrow> mutation_checkpoint" where
  "take_checkpoint st = \<lparr>
    cp_undo_len = length (undo st),
    cp_redo_len = length (redo st),
    cp_pending_ops_len = length (pending_ops st),
    cp_next_op_seq = next_op_seq st,
    cp_next_qso_id = next_qso_id st\<rparr>"

definition rollback_insert :: "qso_id \<Rightarrow> qso_store \<Rightarrow> unit store_result" where
  "rollback_insert i st =
    (case Mapping.lookup (records st) i of
       None \<Rightarrow> Err (MissingQso i) st
     | Some rec \<Rightarrow>
       (let st1 = remove_indices rec (st\<lparr>records := Mapping.delete i (records st)\<rparr>) in
        case Mapping.lookup (pos st1) i of
          None \<Rightarrow> Err (MissingQso i) st1
        | Some idx \<Rightarrow>
          (let st2 = st1\<lparr>pos := Mapping.delete i (pos st1)\<rparr> in
           case vec_remove (order st2) idx of
             None \<Rightarrow> Panic
           | Some ord \<Rightarrow>
               Ok () (st2\<lparr>order := ord,
                 pos := fold (\<lambda>(n, q). Mapping.update q n) (drop idx (List.enumerate 0 ord)) (pos st2)\<rparr>))))"

definition rollback_patch :: "profile \<Rightarrow> qso_id \<Rightarrow> qso_patch \<Rightarrow> qso_store \<Rightarrow> unit store_result" where
  "rollback_patch pf i prev st =
    (case Mapping.lookup (records st) i of
       None \<Rightarrow> Err (MissingQso i) st
     | Some r \<Rightarrow>
       (let r' = apply_to prev r in
        case reindex pf i r r' (st\<lparr>records := Mapping.update i r' (records st)\<rparr>) of
          None \<Rightarrow> Panic
        | Some st1 \<Rightarrow> Ok () st1))"

definition rollback_void :: "qso_id \<Rightarrow> bool \<Rightarrow> qso_store \<Rightarrow> unit store_result" where
  "rollback_void i prev_is_void st =
    (case Mapping.lookup (records st) i of
       None \<Rightarrow> Err (MissingQso i) st
     | Some r \<Rightarrow>
        Ok () (st\<lparr>records := Mapping.update i (r\<lparr>qr_flags := (qr_flags r)\<lparr>is_void := prev_is_void\<rparr>\<rparr>) (records st)\<rparr>))"

definition rollback_mutation ::
    "profile \<Rightarrow> mutation_checkpoint \<Rightarrow> stored_op \<Rightarrow> qso_store \<Rightarrow> unit store_result" where
  "rollback_mutation pf cp so st =
    and_then
      (case so_op so of
         OpInsert qso \<Rightarrow> rollback_insert (qr_id qso) st
       | OpPatch i _ prev \<Rightarrow> rollback_patch pf i prev st
       | OpVoid i prev_is_void \<Rightarrow> rollback_void i prev_is_void st)
      (\<lambda>_ st1. Ok () (st1\<lparr>
         next_op_seq := cp_next_op_seq cp,
         next_qso_id := cp_next_qso_id cp,
         undo := take (cp_undo_len cp) (undo st1),
         redo := take (cp_redo_len cp) (redo st1),
         pending_ops := take (cp_pending_ops_len cp) (pending_ops st1)\<rparr>))"

end
