(* ===== verification/Qso_Log.thy ===== *)
theory Qso_Log
  imports Qso_Store
begin

section \<open>The abstract log and the store invariant\<close>

text \<open>
  The contract of the store is a log: the list of its records in insertion order. This
  theory gives the log its own operations, states the representation invariant of
  \<^typ>\<open>qso_store\<close> (position table inverse to the order, records keyed by their own id,
  both secondary indices canonical), and proves that the five data structures of a
  well-formed store are determined by its log. Equality of two stores is from then on
  equality of two lists.
\<close>


subsection \<open>Logs\<close>

type_synonym qso_log = "qso_record list"

definition log_ids :: "qso_log \<Rightarrow> qso_id set" where
  "log_ids L = qr_id ` set L"

definition log_find :: "qso_id \<Rightarrow> qso_log \<Rightarrow> qso_record option" where
  "log_find i L = find (\<lambda>r. qr_id r = i) L"

definition log_update :: "qso_id \<Rightarrow> (qso_record \<Rightarrow> qso_record) \<Rightarrow> qso_log \<Rightarrow> qso_log" where
  "log_update i f L = map (\<lambda>r. if qr_id r = i then f r else r) L"

definition set_void :: "bool \<Rightarrow> qso_record \<Rightarrow> qso_record" where
  "set_void b r = r\<lparr>qr_flags := (qr_flags r)\<lparr>is_void := b\<rparr>\<rparr>"

text \<open>What an operation does to a log; \<open>None\<close> when it does not apply.\<close>

fun log_apply :: "op \<Rightarrow> qso_log \<Rightarrow> qso_log option" where
  "log_apply (OpInsert r) L = (if qr_id r \<in> log_ids L then None else Some (L @ [r]))"
| "log_apply (OpPatch i p _) L = (if i \<in> log_ids L then Some (log_update i (apply_to p) L) else None)"
| "log_apply (OpVoid i b) L = (if i \<in> log_ids L then Some (log_update i (set_void (\<not> b)) L) else None)"

text \<open>The operation as it is journalled, and the inverse kept for undo, both computed from
  the log before the operation.\<close>

fun log_emit :: "op \<Rightarrow> qso_log \<Rightarrow> op" where
  "log_emit (OpPatch i p _) L = OpPatch i p (capture_inverse_for p (the (log_find i L)))"
| "log_emit op L = op"

fun log_inverse :: "op \<Rightarrow> qso_log \<Rightarrow> op" where
  "log_inverse (OpInsert r) L = OpVoid (qr_id r) False"
| "log_inverse (OpPatch i p _) L = OpPatch i (capture_inverse_for p (the (log_find i L))) p"
| "log_inverse (OpVoid i b) L = OpVoid i (\<not> b)"

lemma set_void_sel [simp]:
  "qr_id (set_void b r) = qr_id r" "is_void (qr_flags (set_void b r)) = b"
  "qr_callsign_norm (set_void b r) = qr_callsign_norm r"
  "qr_contest_instance_id (set_void b r) = qr_contest_instance_id r"
  by (simp_all add: set_void_def)

lemma set_void_set_void [simp]: "set_void a (set_void b r) = set_void a r"
  by (simp add: set_void_def)

lemma set_void_self: "is_void (qr_flags r) = b \<Longrightarrow> set_void b r = r"
  by (auto simp: set_void_def)

lemma log_ids_simps [simp]:
  "log_ids [] = {}" "log_ids (r # L) = insert (qr_id r) (log_ids L)" "log_ids (L @ M) = log_ids L \<union> log_ids M"
  by (auto simp: log_ids_def)

lemma log_find_None: "log_find i L = None \<longleftrightarrow> i \<notin> log_ids L"
  by (auto simp: log_find_def log_ids_def find_None_iff)

lemma log_find_Some_id: "log_find i L = Some r \<Longrightarrow> qr_id r = i"
  by (auto simp: log_find_def find_Some_iff)

lemma log_find_mem: "log_find i L = Some r \<Longrightarrow> i \<in> log_ids L"
  using log_find_None [of i L] by auto

lemma log_find_in: "i \<in> log_ids L \<Longrightarrow> \<exists>r. log_find i L = Some r \<and> qr_id r = i"
  using log_find_None [of i L] log_find_Some_id [of i L] by (cases "log_find i L") auto

lemma log_find_append: "log_find i (L @ M) = (case log_find i L of None \<Rightarrow> log_find i M | r \<Rightarrow> r)"
  by (induction L) (auto simp: log_find_def)

lemma log_find_Cons: "log_find i (r # L) = (if qr_id r = i then Some r else log_find i L)"
  by (simp add: log_find_def)

lemma log_update_append [simp]: "log_update i f (L @ M) = log_update i f L @ log_update i f M"
  by (simp add: log_update_def)

lemma log_update_simps [simp]:
  "log_update i f [] = []"
  "log_update i f (r # L) = (if qr_id r = i then f r else r) # log_update i f L"
  by (simp_all add: log_update_def)

lemma log_update_fresh: "i \<notin> log_ids L \<Longrightarrow> log_update i f L = L"
  by (induction L) (auto simp: log_update_def)

lemma log_ids_update [simp]:
  "(\<And>r. qr_id (f r) = qr_id r) \<Longrightarrow> log_ids (log_update i f L) = log_ids L"
  by (induction L) (auto simp: log_update_def)

lemma log_find_update:
  "(\<And>r. qr_id (f r) = qr_id r) \<Longrightarrow>
    log_find j (log_update i f L) = (if j = i then map_option f (log_find j L) else log_find j L)"
  by (induction L) (auto simp: log_find_def log_update_def)

lemma log_update_update:
  "(\<And>r. qr_id (f r) = qr_id r) \<Longrightarrow> log_update i g (log_update i f L) = log_update i (g \<circ> f) L"
  by (simp add: log_update_def)

text \<open>With distinct ids an update only looks at the record found.\<close>

lemma log_update_found:
  "distinct (map qr_id L) \<Longrightarrow> log_find i L = Some r \<Longrightarrow> f r = g r \<Longrightarrow> log_update i f L = log_update i g L"
proof (induction L)
  case (Cons a L)
  show ?case
  proof (cases "qr_id a = i")
    case True
    with Cons.prems(1) have "i \<notin> log_ids L" by (auto simp: log_ids_def)
    then have "log_update i f L = L" "log_update i g L = L" by (simp_all add: log_update_fresh)
    with True Cons.prems show ?thesis by (simp add: log_find_Cons)
  next
    case False
    with Cons have "log_update i f L = log_update i g L" by (simp add: log_find_Cons)
    with False show ?thesis by simp
  qed
qed (simp add: log_find_def)

lemma log_update_id:
  "distinct (map qr_id L) \<Longrightarrow> log_find i L = Some r \<Longrightarrow> f r = r \<Longrightarrow> log_update i f L = L"
  using log_update_found [of L i r f "\<lambda>r. r"] by (simp add: log_update_def)

lemma map_id_update: "(\<And>r. qr_id (f r) = qr_id r) \<Longrightarrow> map qr_id (log_update i f L) = map qr_id L"
  by (simp add: log_update_def)

lemma log_apply_distinct:
  "distinct (map qr_id L) \<Longrightarrow> log_apply op L = Some L' \<Longrightarrow> distinct (map qr_id L')"
  by (cases op) (auto simp: map_id_update log_ids_def split: if_splits)


subsection \<open>The representation invariant\<close>

definition store_wf :: "qso_store \<Rightarrow> bool" where
  "store_wf st \<longleftrightarrow>
    pos_ok (order st) (pos st) \<and>
    (\<forall>i. Mapping.lookup (records st) i = None \<longleftrightarrow> i \<notin> set (order st)) \<and>
    (\<forall>i r. Mapping.lookup (records st) i = Some r \<longrightarrow> qr_id r = i) \<and>
    canonical_index qr_callsign_norm (records st) (order st) (by_call st) \<and>
    canonical_index qr_contest_instance_id (records st) (order st) (by_contest st)"

text \<open>Assigned ids stay below the next one.\<close>

definition ids_below :: "qso_store \<Rightarrow> bool" where
  "ids_below st \<longleftrightarrow> (\<forall>i \<in> set (order st). i < next_qso_id st)"

text \<open>Undo and redo stacks never hold an insert: its compensation is a void.\<close>

definition no_inserts :: "op list \<Rightarrow> bool" where
  "no_inserts ops \<longleftrightarrow> (\<forall>op \<in> set ops. \<forall>r. op \<noteq> OpInsert r)"

definition store_inv :: "qso_store \<Rightarrow> bool" where
  "store_inv st \<longleftrightarrow> store_wf st \<and> ids_below st \<and> no_inserts (undo st) \<and> no_inserts (redo st)"

definition log_of :: "qso_store \<Rightarrow> qso_log" where
  "log_of st = map (\<lambda>i. the (Mapping.lookup (records st) i)) (order st)"

lemma store_wf_new [simp]: "store_wf new_store" "log_of new_store = []" "ids_below new_store"
  by (simp_all add: store_wf_def new_store_def default_store_def log_of_def ids_below_def
      pos_ok_empty canonical_empty)

lemma store_inv_new [simp]: "store_inv new_store"
  by (simp add: store_inv_def no_inserts_def) (simp add: new_store_def default_store_def)

lemma no_inserts_simps [simp]:
  "no_inserts []" "no_inserts (ops @ [op]) \<longleftrightarrow> no_inserts ops \<and> (\<forall>r. op \<noteq> OpInsert r)"
  by (auto simp: no_inserts_def)

lemma no_inserts_butlast: "no_inserts ops \<Longrightarrow> no_inserts (butlast ops)"
  by (auto simp: no_inserts_def dest: in_set_butlastD)

lemma log_inverse_not_insert [simp]: "log_inverse op L \<noteq> OpInsert r"
  by (cases op) auto

lemma store_wf_frame [simp]:
  "store_wf (st\<lparr>undo := u\<rparr>) = store_wf st" "store_wf (st\<lparr>redo := u\<rparr>) = store_wf st"
  "store_wf (st\<lparr>pending_ops := q\<rparr>) = store_wf st" "store_wf (st\<lparr>next_op_seq := n\<rparr>) = store_wf st"
  "store_wf (st\<lparr>next_qso_id := n\<rparr>) = store_wf st"
  by (simp_all add: store_wf_def)

lemma log_of_frame [simp]:
  "log_of (st\<lparr>undo := u\<rparr>) = log_of st" "log_of (st\<lparr>redo := u\<rparr>) = log_of st"
  "log_of (st\<lparr>pending_ops := q\<rparr>) = log_of st" "log_of (st\<lparr>next_op_seq := n\<rparr>) = log_of st"
  "log_of (st\<lparr>next_qso_id := n\<rparr>) = log_of st" "log_of (st\<lparr>by_call := c\<rparr>) = log_of st"
  "log_of (st\<lparr>by_contest := d\<rparr>) = log_of st" "log_of (st\<lparr>pos := p\<rparr>) = log_of st"
  by (simp_all add: log_of_def)

lemma wf_distinct: "store_wf st \<Longrightarrow> distinct (order st)"
  by (auto simp: store_wf_def pos_ok_distinct)

lemma wf_record_id: "store_wf st \<Longrightarrow> Mapping.lookup (records st) i = Some r \<Longrightarrow> qr_id r = i"
  by (simp add: store_wf_def)

lemma wf_order_ids: "store_wf st \<Longrightarrow> map qr_id (log_of st) = order st"
  by (auto simp: store_wf_def log_of_def intro!: map_idI)

lemma wf_log_ids: "store_wf st \<Longrightarrow> log_ids (log_of st) = set (order st)"
  by (metis list.set_map log_ids_def wf_order_ids)

lemma wf_log_distinct: "store_wf st \<Longrightarrow> distinct (map qr_id (log_of st))"
  by (simp add: wf_order_ids wf_distinct)

lemma find_map_lookup:
  assumes "\<And>j. j \<in> set ord \<Longrightarrow> \<exists>r. Mapping.lookup rs j = Some r \<and> qr_id r = j"
  shows "log_find i (map (\<lambda>j. the (Mapping.lookup rs j)) ord) = (if i \<in> set ord then Mapping.lookup rs i else None)"
  using assms by (induction ord) (fastforce simp: log_find_def)+

lemma wf_lookup:
  assumes "store_wf st"
  shows "Mapping.lookup (records st) i = log_find i (log_of st)"
proof -
  have "\<exists>r. Mapping.lookup (records st) j = Some r \<and> qr_id r = j" if "j \<in> set (order st)" for j
    using assms that by (cases "Mapping.lookup (records st) j") (auto simp: store_wf_def)
  then have "log_find i (log_of st) = (if i \<in> set (order st) then Mapping.lookup (records st) i else None)"
    unfolding log_of_def by (rule find_map_lookup)
  then show ?thesis
    using assms by (auto simp: store_wf_def)
qed

lemma wf_filter_map:
  "store_wf st \<Longrightarrow> set ids \<subseteq> set (order st) \<Longrightarrow>
    filter_map (Mapping.lookup (records st)) ids = map (\<lambda>i. the (Mapping.lookup (records st) i)) ids"
  by (rule filter_map_total) (auto simp: store_wf_def)

text \<open>The log determines the records, the order and all three index structures.\<close>

lemma wf_determined:
  assumes "store_wf st" "store_wf st'" "log_of st = log_of st'"
  shows "records st = records st' \<and> order st = order st' \<and> pos st = pos st' \<and>
    by_call st = by_call st' \<and> by_contest st = by_contest st'"
proof -
  have ord: "order st = order st'"
    using assms by (metis wf_order_ids)
  have recs: "records st = records st'"
    using assms by (auto intro: mapping_eqI simp: wf_lookup)
  show ?thesis
    using assms ord recs
    by (auto simp: store_wf_def intro: pos_ok_unique canonical_index_unique)
qed

lemma wf_store_eqI:
  assumes "store_wf st" "store_wf st'" "log_of st = log_of st'"
    and "undo st = undo st'" "redo st = redo st'" "pending_ops st = pending_ops st'"
    and "next_op_seq st = next_op_seq st'" "next_qso_id st = next_qso_id st'"
  shows "st = st'"
  using wf_determined [OF assms(1-3)] assms(4-) by (intro qso_store.equality) auto

text \<open>In a well-formed store the debug assertion holds.\<close>

lemma wf_debug_assert: "store_wf st \<Longrightarrow> debug_assert_indices_consistent st"
  by (auto simp: store_wf_def debug_assert_indices_consistent_def keys_is_none_rep Option.is_none_def
      dest: canonical_lookup_Some)

end
