(* ===== verification/Qso_Refine.thy ===== *)
theory Qso_Refine
  imports Qso_Log
begin

section \<open>The store refines the log\<close>

text \<open>
  Every \<open>apply_*_with_seq\<close> of the store is the operation \<^const>\<open>log_apply\<close> on the log: it
  fails exactly when the log operation does not apply, and otherwise leaves a well-formed
  store with the new log, the journal entry \<^const>\<open>log_emit\<close> and the inverse
  \<^const>\<open>log_inverse\<close>. Neither index maintenance nor the debug assertion can panic in a
  well-formed store.
\<close>


subsection \<open>The contract of a secondary index of the store\<close>

text \<open>
  Both indices (by callsign, by contest) are a field of the store with an update routine
  that moves an id between two entries; what the patch and rollback paths need of either
  is proved once.
\<close>

locale record_index =
  fixes key :: "qso_record \<Rightarrow> 'k"
    and index :: "qso_store \<Rightarrow> 'k vec_index"
    and set_index :: "'k vec_index \<Rightarrow> qso_store \<Rightarrow> qso_store"
    and update_index :: "qso_id \<Rightarrow> 'k \<Rightarrow> 'k \<Rightarrow> qso_store \<Rightarrow> qso_store option"
  assumes update_index:
      "update_index i old new st = map_option (\<lambda>ix. set_index ix st) (entry_move old new i (pos st) (index st))"
    and index_set: "index (set_index ix st) = ix"
    and set_same: "set_index (index st) st = st"
begin

lemma update_keeps_canonical:
  assumes "canonical_index key rs (order st) (index st)" "Mapping.lookup rs i = Some r"
    and "pos_ok (order st) (pos st)" "i \<in> set (order st)"
  shows "\<exists>ix. (if key r \<noteq> key r' then update_index i (key r) (key r') st else Some st) = Some (set_index ix st)
    \<and> canonical_index key (Mapping.update i r' rs) (order st) ix"
proof (cases "key r = key r'")
  case True
  then show ?thesis
    using canonical_same_key [OF assms(1,2)] set_same [of st] by (intro exI [of _ "index st"]) auto
next
  case False
  then show ?thesis
    using canonical_move [OF assms(1,2) False assms(3,4)] by (auto simp: update_index)
qed

end

interpretation call_index: record_index qr_callsign_norm by_call "\<lambda>ix st. st\<lparr>by_call := ix\<rparr>" update_call_index
  by unfold_locales (simp_all add: update_call_index_def split: option.split)

interpretation contest_index: record_index qr_contest_instance_id by_contest "\<lambda>ix st. st\<lparr>by_contest := ix\<rparr>"
    update_contest_index
  by unfold_locales (simp_all add: update_contest_index_def split: option.split)


subsection \<open>One record changes\<close>

lemma wf_lookup_in: "store_wf st \<Longrightarrow> Mapping.lookup (records st) i = Some r \<Longrightarrow> i \<in> set (order st)"
  by (metis option.distinct(1) store_wf_def)

lemma log_of_update:
  assumes "store_wf st"
  shows "log_of (st\<lparr>records := Mapping.update i r' (records st)\<rparr>) = log_update i (\<lambda>_. r') (log_of st)"
proof -
  have "qr_id (the (Mapping.lookup (records st) j)) = j" if "j \<in> set (order st)" for j
    using assms that by (metis option.exhaust_sel store_wf_def)
  then show ?thesis
    by (auto simp: log_of_def log_update_def lookup_update')
qed

lemma reindex_ok:
  assumes wf: "store_wf st" and r: "Mapping.lookup (records st) i = Some r" and "qr_id r' = i"
  shows "\<exists>c d. let st' = st\<lparr>records := Mapping.update i r' (records st), by_call := c, by_contest := d\<rparr> in
    reindex pf i r r' (st\<lparr>records := Mapping.update i r' (records st)\<rparr>) = Some st' \<and> store_wf st'"
proof -
  let ?st = "st\<lparr>records := Mapping.update i r' (records st)\<rparr>"
  note i = wf_lookup_in [OF wf r]
  obtain c where c: "(if qr_callsign_norm r \<noteq> qr_callsign_norm r'
        then update_call_index i (qr_callsign_norm r) (qr_callsign_norm r') ?st else Some ?st)
        = Some (?st\<lparr>by_call := c\<rparr>)"
      "canonical_index qr_callsign_norm (records ?st) (order st) c"
    using call_index.update_keeps_canonical [of "records st" ?st i r r'] wf r i by (auto simp: store_wf_def)
  let ?st1 = "?st\<lparr>by_call := c\<rparr>"
  obtain d where d: "(if qr_contest_instance_id r \<noteq> qr_contest_instance_id r'
        then update_contest_index i (qr_contest_instance_id r) (qr_contest_instance_id r') ?st1 else Some ?st1)
        = Some (?st1\<lparr>by_contest := d\<rparr>)"
      "canonical_index qr_contest_instance_id (records ?st) (order st) d"
    using contest_index.update_keeps_canonical [of "records st" ?st1 i r r'] wf r i by (auto simp: store_wf_def)
  have "store_wf (?st1\<lparr>by_contest := d\<rparr>)"
    using wf c(2) d(2) i \<open>qr_id r' = i\<close> by (auto simp: store_wf_def lookup_update')
  then show ?thesis
    using c(1) d(1) wf_debug_assert [of "?st1\<lparr>by_contest := d\<rparr>"]
    by (intro exI [of _ c] exI [of _ d]) (simp add: reindex_def Let_def)
qed

lemma wf_set_record:
  assumes wf: "store_wf st" and r: "Mapping.lookup (records st) i = Some r" and "qr_id r' = i"
    and "qr_callsign_norm r' = qr_callsign_norm r" "qr_contest_instance_id r' = qr_contest_instance_id r"
  shows "store_wf (st\<lparr>records := Mapping.update i r' (records st)\<rparr>)"
  using wf wf_lookup_in [OF wf r] \<open>qr_id r' = i\<close>
    canonical_same_key [OF _ r, of qr_callsign_norm _ _ r'] canonical_same_key [OF _ r, of qr_contest_instance_id _ _ r']
    assms(4,5)
  by (auto simp: store_wf_def lookup_update')


subsection \<open>The three operations, uniformly\<close>

fun apply_with_seq ::
    "profile \<Rightarrow> int \<Rightarrow> op \<Rightarrow> op_seq \<Rightarrow> qso_store \<Rightarrow> (stored_op \<times> op) store_result" where
  "apply_with_seq pf clk (OpInsert r) seq st = apply_insert_with_seq clk r seq st"
| "apply_with_seq pf clk (OpPatch i p _) seq st = apply_patch_with_seq pf clk i p seq st"
| "apply_with_seq pf clk (OpVoid i b) seq st = apply_void_with_seq clk i b seq st"

lemma apply_op_seq:
  "apply_op pf clk op st =
    (case take_next_op_seq pf st of None \<Rightarrow> Panic | Some (seq, st1) \<Rightarrow> apply_with_seq pf clk op seq st1)"
  by (cases op) (simp_all add: apply_insert_def apply_patch_def apply_void_def split: option.split)

lemma apply_replayed_op_seq:
  "apply_replayed_op pf clk so st =
    and_then (apply_with_seq pf clk (so_op so) (so_seq so) st) (\<lambda>_ st1. Ok () (st1\<lparr>undo := [], redo := []\<rparr>))"
  by (cases "so_op so") (simp_all add: apply_replayed_op_def)

text \<open>The next free id after an operation, and the error of one that does not apply.\<close>

fun op_next_id :: "op \<Rightarrow> qso_id \<Rightarrow> qso_id" where
  "op_next_id (OpInsert r) n = max n (saturating_add (qr_id r) 1)"
| "op_next_id _ n = n"

fun op_error :: "op \<Rightarrow> store_error" where
  "op_error (OpInsert r) = AlreadyExists (qr_id r)"
| "op_error (OpPatch i _ _) = MissingQso i"
| "op_error (OpVoid i _) = MissingQso i"

definition refined_store :: "qso_store \<Rightarrow> op_seq \<Rightarrow> op \<Rightarrow> qso_log \<Rightarrow> qso_store \<Rightarrow> bool" where
  "refined_store st seq op L st' \<longleftrightarrow>
    store_wf st' \<and> log_of st' = L \<and> undo st' = undo st \<and> redo st' = redo st \<and>
    pending_ops st' = pending_ops st \<and>
    next_op_seq st' = max (next_op_seq st) (saturating_add seq 1) \<and>
    next_qso_id st' = op_next_id op (next_qso_id st)"

lemma apply_with_seq_None:
  assumes "store_wf st" "log_apply op (log_of st) = None"
  shows "apply_with_seq pf clk op seq st = Err (op_error op) st"
  using assms
  by (cases op) (auto simp: wf_lookup apply_insert_with_seq_def apply_patch_with_seq_def
      apply_void_with_seq_def split: if_splits option.splits dest: log_find_in log_find_mem
      intro: log_find_None [THEN iffD2])

lemma refined_insert:
  assumes wf: "store_wf st" and fresh: "qr_id r \<notin> set (order st)"
  shows "\<exists>st'. apply_insert_with_seq clk r seq st
      = Ok (\<lparr>so_seq = seq, so_ts_ms = now_ms clk, so_op = OpInsert r\<rparr>, OpVoid (qr_id r) False) st'
    \<and> refined_store st seq (OpInsert r) (log_of st @ [r]) st'"
proof -
  let ?st = "st\<lparr>records := Mapping.update (qr_id r) r (records st), order := order st @ [qr_id r],
    pos := Mapping.update (qr_id r) (length (order st)) (pos st),
    by_call := entry_push (qr_callsign_norm r) (qr_id r) (by_call st),
    by_contest := entry_push (qr_contest_instance_id r) (qr_id r) (by_contest st),
    next_op_seq := max (next_op_seq st) (saturating_add seq 1),
    next_qso_id := max (next_qso_id st) (saturating_add (qr_id r) 1)\<rparr>"
  have "Mapping.lookup (records st) (qr_id r) = None"
    using assms by (simp add: store_wf_def)
  then have "apply_insert_with_seq clk r seq st
      = Ok (\<lparr>so_seq = seq, so_ts_ms = now_ms clk, so_op = OpInsert r\<rparr>, OpVoid (qr_id r) False) ?st"
    by (simp add: apply_insert_with_seq_def insert_indices_def bump_next_seq_from_def Let_def)
  moreover have "log_of ?st = log_of st @ [r]"
    using fresh by (auto simp: log_of_def lookup_update')
  moreover have "store_wf ?st"
    using wf fresh by (auto simp: store_wf_def pos_ok_append canonical_push lookup_update')
  ultimately show ?thesis
    by (simp add: refined_store_def)
qed

lemma wf_find:
  assumes wf: "store_wf st" and "i \<in> set (order st)"
  obtains r where "Mapping.lookup (records st) i = Some r" "log_find i (log_of st) = Some r" "qr_id r = i"
    and "\<And>f. log_update i (\<lambda>_. f r) (log_of st) = log_update i f (log_of st)"
proof -
  obtain r where r: "Mapping.lookup (records st) i = Some r"
    using assms by (cases "Mapping.lookup (records st) i") (auto simp: store_wf_def)
  with wf_lookup [OF wf] have find: "log_find i (log_of st) = Some r" by simp
  show ?thesis
  proof (rule that [OF r find wf_record_id [OF wf r]])
    fix f show "log_update i (\<lambda>_. f r) (log_of st) = log_update i f (log_of st)"
      by (rule log_update_found [OF wf_log_distinct [OF wf] find]) simp
  qed
qed

lemma refined_patch:
  assumes wf: "store_wf st" and "i \<in> set (order st)"
  shows "\<exists>st'. apply_patch_with_seq pf clk i p seq st
      = Ok (\<lparr>so_seq = seq, so_ts_ms = now_ms clk, so_op = log_emit (OpPatch i p q) (log_of st)\<rparr>,
            log_inverse (OpPatch i p q) (log_of st)) st'
    \<and> refined_store st seq (OpPatch i p q) (log_update i (apply_to p) (log_of st)) st'"
proof -
  obtain r where r: "Mapping.lookup (records st) i = Some r" "log_find i (log_of st) = Some r" "qr_id r = i"
    and upd: "log_update i (\<lambda>_. apply_to p r) (log_of st) = log_update i (apply_to p) (log_of st)"
    using wf_find [OF assms] by blast
  let ?rs = "Mapping.update i (apply_to p r) (records st)"
  obtain c d where ok: "reindex pf i r (apply_to p r) (st\<lparr>records := ?rs\<rparr>)
        = Some (st\<lparr>records := ?rs, by_call := c, by_contest := d\<rparr>)"
    and wf': "store_wf (st\<lparr>records := ?rs, by_call := c, by_contest := d\<rparr>)"
    using reindex_ok [OF wf r(1), of "apply_to p r" pf] r(3) by (auto simp: Let_def)
  let ?st = "st\<lparr>records := ?rs, by_call := c, by_contest := d,
    next_op_seq := max (next_op_seq st) (saturating_add seq 1)\<rparr>"
  have "log_of ?st = log_update i (apply_to p) (log_of st)"
    using log_of_update [OF wf, of i "apply_to p r"] upd by (simp add: log_of_def)
  with wf' have "refined_store st seq (OpPatch i p q) (log_update i (apply_to p) (log_of st)) ?st"
    by (simp add: refined_store_def)
  moreover have "apply_patch_with_seq pf clk i p seq st
      = Ok (\<lparr>so_seq = seq, so_ts_ms = now_ms clk, so_op = log_emit (OpPatch i p q) (log_of st)\<rparr>,
            log_inverse (OpPatch i p q) (log_of st)) ?st"
    using ok r by (simp add: apply_patch_with_seq_def bump_next_seq_from_def Let_def)
  ultimately show ?thesis by blast
qed

lemma refined_void:
  assumes wf: "store_wf st" and "i \<in> set (order st)"
  shows "\<exists>st'. apply_void_with_seq clk i b seq st
      = Ok (\<lparr>so_seq = seq, so_ts_ms = now_ms clk, so_op = OpVoid i b\<rparr>, OpVoid i (\<not> b)) st'
    \<and> refined_store st seq (OpVoid i b) (log_update i (set_void (\<not> b)) (log_of st)) st'"
proof -
  obtain r where r: "Mapping.lookup (records st) i = Some r" "log_find i (log_of st) = Some r" "qr_id r = i"
    and upd: "log_update i (\<lambda>_. set_void (\<not> b) r) (log_of st) = log_update i (set_void (\<not> b)) (log_of st)"
    using wf_find [OF assms] by blast
  let ?st = "st\<lparr>records := Mapping.update i (set_void (\<not> b) r) (records st),
    next_op_seq := max (next_op_seq st) (saturating_add seq 1)\<rparr>"
  have "log_of ?st = log_update i (set_void (\<not> b)) (log_of st)"
    using log_of_update [OF wf, of i "set_void (\<not> b) r"] upd by (simp add: log_of_def)
  moreover have "store_wf ?st"
    using wf_set_record [OF wf r(1), of "set_void (\<not> b) r"] r(3) by simp
  ultimately have "refined_store st seq (OpVoid i b) (log_update i (set_void (\<not> b)) (log_of st)) ?st"
    by (simp add: refined_store_def)
  moreover have "apply_void_with_seq clk i b seq st
      = Ok (\<lparr>so_seq = seq, so_ts_ms = now_ms clk, so_op = OpVoid i b\<rparr>, OpVoid i (\<not> b)) ?st"
    using r(1) by (simp add: apply_void_with_seq_def bump_next_seq_from_def Let_def set_void_def)
  ultimately show ?thesis by blast
qed

text \<open>The refinement: an operation that applies to the log succeeds on the store.\<close>

lemma apply_with_seq_Some:
  assumes wf: "store_wf st" and ap: "log_apply op (log_of st) = Some L'"
  shows "\<exists>st'. apply_with_seq pf clk op seq st
      = Ok (\<lparr>so_seq = seq, so_ts_ms = now_ms clk, so_op = log_emit op (log_of st)\<rparr>, log_inverse op (log_of st)) st'
    \<and> refined_store st seq op L' st'"
proof (cases op)
  case (OpInsert r)
  with ap show ?thesis
    using refined_insert [OF wf, of r clk seq] by (auto simp: wf_log_ids [OF wf] split: if_splits)
next
  case (OpPatch i p q)
  with ap show ?thesis
    using refined_patch [OF wf, of i pf clk p seq q] by (auto simp: wf_log_ids [OF wf] split: if_splits)
next
  case (OpVoid i b)
  with ap show ?thesis
    using refined_void [OF wf, of i clk b seq] by (auto simp: wf_log_ids [OF wf] split: if_splits)
qed

end
