(* ===== verification/Qso_Commands.thy ===== *)
theory Qso_Commands
  imports Qso_Refine
begin

section \<open>The public mutations over the log\<close>

text \<open>
  \<open>insert\<close>, \<open>patch\<close>, \<open>void\<close>, \<open>undo\<close> and \<open>redo\<close> as one command type, so that every
  statement about all of them is made once. A command resolves to an operation against the
  current store (\<open>cmd_op\<close>); \<open>run_cmd_Ok\<close> and \<open>run_cmd_Err\<close> then describe the complete
  effect of the command: result, log, stacks, queue of pending operations and counters.
\<close>

datatype store_cmd = CmdInsert qso_draft | CmdPatch qso_id qso_patch | CmdVoid qso_id | CmdUndo | CmdRedo

fun run_cmd :: "profile \<Rightarrow> int \<Rightarrow> store_cmd \<Rightarrow> qso_store \<Rightarrow> stored_op store_result" where
  "run_cmd pf clk (CmdInsert d) st = and_then (store_insert pf clk d st) (\<lambda>(_, so) st1. Ok so st1)"
| "run_cmd pf clk (CmdPatch i p) st = store_patch pf clk i p st"
| "run_cmd pf clk (CmdVoid i) st = store_void pf clk i st"
| "run_cmd pf clk CmdUndo st = store_undo pf clk st"
| "run_cmd pf clk CmdRedo st = store_redo pf clk st"

fun cmd_op :: "store_cmd \<Rightarrow> qso_store \<Rightarrow> op option" where
  "cmd_op (CmdInsert d) st = Some (OpInsert (record_of_draft (next_qso_id st) d))"
| "cmd_op (CmdPatch i p) st = Some (OpPatch i p default_patch)"
| "cmd_op (CmdVoid i) st = map_option (\<lambda>r. OpVoid i (is_void (qr_flags r))) (log_find i (log_of st))"
| "cmd_op CmdUndo st = map_option fst (vec_pop (undo st))"
| "cmd_op CmdRedo st = map_option fst (vec_pop (redo st))"

text \<open>The error when there is no operation to apply, the stacks after popping, and the
  stacks after a success with the inverse \<open>inv_op\<close>.\<close>

fun cmd_error :: "store_cmd \<Rightarrow> store_error" where
  "cmd_error (CmdVoid i) = MissingQso i"
| "cmd_error CmdUndo = NothingToUndo"
| "cmd_error _ = NothingToRedo"

fun cmd_pop :: "store_cmd \<Rightarrow> qso_store \<Rightarrow> qso_store" where
  "cmd_pop CmdUndo st = st\<lparr>undo := butlast (undo st)\<rparr>"
| "cmd_pop CmdRedo st = st\<lparr>redo := butlast (redo st)\<rparr>"
| "cmd_pop (CmdInsert _) st = st\<lparr>next_qso_id := next_qso_id st + 1\<rparr>"
| "cmd_pop _ st = st"

fun cmd_undo :: "store_cmd \<Rightarrow> op \<Rightarrow> op list \<Rightarrow> op list" where
  "cmd_undo CmdUndo _ u = butlast u"
| "cmd_undo _ inv_op u = u @ [inv_op]"

fun cmd_redo :: "store_cmd \<Rightarrow> op \<Rightarrow> op list \<Rightarrow> op list" where
  "cmd_redo CmdUndo inv_op r = r @ [inv_op]"
| "cmd_redo CmdRedo _ r = butlast r"
| "cmd_redo _ _ r = []"

definition has_room :: "qso_store \<Rightarrow> bool" where
  "has_room st \<longleftrightarrow> next_op_seq st \<noteq> u64_max \<and> next_qso_id st \<noteq> u64_max"

text \<open>The complete effect of a successful command.\<close>

definition cmd_effect :: "store_cmd \<Rightarrow> op \<Rightarrow> stored_op \<Rightarrow> qso_store \<Rightarrow> qso_store \<Rightarrow> bool" where
  "cmd_effect cmd op so st st' \<longleftrightarrow>
    so_seq so = next_op_seq st \<and> so_op so = log_emit op (log_of st) \<and>
    log_apply op (log_of st) = Some (log_of st') \<and> store_inv st' \<and>
    undo st' = cmd_undo cmd (log_inverse op (log_of st)) (undo st) \<and>
    redo st' = cmd_redo cmd (log_inverse op (log_of st)) (redo st) \<and>
    pending_ops st' = pending_ops st @ [so] \<and>
    next_op_seq st' = next_op_seq st + 1 \<and>
    next_qso_id st' = (case cmd of CmdInsert _ \<Rightarrow> next_qso_id st + 1 | _ \<Rightarrow> next_qso_id st)"


subsection \<open>Sequence numbers and ids\<close>

lemma take_next_op_seq_room [simp]:
  "next_op_seq st \<noteq> u64_max \<Longrightarrow>
    take_next_op_seq pf st = Some (next_op_seq st, st\<lparr>next_op_seq := next_op_seq st + 1\<rparr>)"
  by (simp add: take_next_op_seq_def)

lemma less_succ_trans: "i < n \<Longrightarrow> n \<noteq> u64_max \<Longrightarrow> i < n + 1"
  using less_succ [of n] by simp

lemma max_succ_succ: "n \<noteq> u64_max \<Longrightarrow> max (n + 1) (saturating_add n 1) = n + 1"
  by (simp add: saturating_succ)

lemma ids_below_update:
  "map qr_id L = order st \<Longrightarrow> ids_below st \<longleftrightarrow> (\<forall>i \<in> log_ids L. i < next_qso_id st)"
  by (simp add: ids_below_def log_ids_def flip: list.set_map)

lemma ids_below_log: "store_wf st \<Longrightarrow> ids_below st \<longleftrightarrow> (\<forall>i \<in> log_ids (log_of st). i < next_qso_id st)"
  by (rule ids_below_update [OF wf_order_ids])

lemma log_apply_ids:
  "log_apply op L = Some L' \<Longrightarrow>
    log_ids L' = (case op of OpInsert r \<Rightarrow> insert (qr_id r) (log_ids L) | _ \<Rightarrow> log_ids L)"
  by (cases op) (auto split: if_splits)


subsection \<open>Operations with a fresh sequence number\<close>

lemma apply_op_Ok:
  assumes "store_wf st" "next_op_seq st \<noteq> u64_max" "log_apply op (log_of st) = Some L'"
  shows "\<exists>so st'. apply_op pf clk op st = Ok (so, log_inverse op (log_of st)) st'
    \<and> so = \<lparr>so_seq = next_op_seq st, so_ts_ms = now_ms clk, so_op = log_emit op (log_of st)\<rparr>
    \<and> store_wf st' \<and> log_of st' = L' \<and> undo st' = undo st \<and> redo st' = redo st
    \<and> pending_ops st' = pending_ops st \<and> next_op_seq st' = next_op_seq st + 1
    \<and> next_qso_id st' = op_next_id op (next_qso_id st)"
  using apply_with_seq_Some [of "st\<lparr>next_op_seq := next_op_seq st + 1\<rparr>" op L' pf clk "next_op_seq st"] assms
  by (auto simp: apply_op_seq refined_store_def max_succ_succ)

lemma apply_op_Err:
  assumes "store_wf st" "next_op_seq st \<noteq> u64_max" "log_apply op (log_of st) = None"
  shows "apply_op pf clk op st = Err (op_error op) (st\<lparr>next_op_seq := next_op_seq st + 1\<rparr>)"
  using apply_with_seq_None [of "st\<lparr>next_op_seq := next_op_seq st + 1\<rparr>" op] assms
  by (simp add: apply_op_seq)


subsection \<open>Commands\<close>

text \<open>Every command is: pop, apply the operation, commit.\<close>

definition cmd_commit :: "store_cmd \<Rightarrow> stored_op \<Rightarrow> op \<Rightarrow> qso_store \<Rightarrow> qso_store" where
  "cmd_commit cmd so inv_op st =
    (case cmd of
       CmdUndo \<Rightarrow> st\<lparr>redo := redo st @ [inv_op], pending_ops := pending_ops st @ [so]\<rparr>
     | CmdRedo \<Rightarrow> st\<lparr>undo := undo st @ [inv_op], pending_ops := pending_ops st @ [so]\<rparr>
     | _ \<Rightarrow> commit_mutation so inv_op st)"

lemma run_cmd_shape:
  assumes "store_wf st" "next_qso_id st \<noteq> u64_max"
  shows "run_cmd pf clk cmd st =
    (case cmd_op cmd st of
       None \<Rightarrow> Err (cmd_error cmd) st
     | Some op \<Rightarrow> and_then (apply_op pf clk op (cmd_pop cmd st))
         (\<lambda>(so, inv_op) st1. Ok so (cmd_commit cmd so inv_op st1)))"
  using assms
  by (cases cmd) (auto simp: store_insert_def store_patch_def store_void_def store_undo_def store_redo_def
      cmd_commit_def wf_lookup and_then_assoc case_prod_unfold vec_pop_def Let_def split: option.split)

lemma cmd_pop_frame [simp]:
  "store_wf (cmd_pop cmd st) = store_wf st" "log_of (cmd_pop cmd st) = log_of st"
  "next_op_seq (cmd_pop cmd st) = next_op_seq st" "pending_ops (cmd_pop cmd st) = pending_ops st"
  by (cases cmd; simp)+

lemma cmd_commit_frame [simp]:
  "store_wf (cmd_commit cmd so i st) = store_wf st" "log_of (cmd_commit cmd so i st) = log_of st"
  "next_op_seq (cmd_commit cmd so i st) = next_op_seq st" "next_qso_id (cmd_commit cmd so i st) = next_qso_id st"
  "pending_ops (cmd_commit cmd so i st) = pending_ops st @ [so]"
  by (cases cmd; simp add: cmd_commit_def commit_mutation_def)+

lemma run_cmd_Err:
  assumes "store_wf st" "has_room st"
  shows "cmd_op cmd st = None \<Longrightarrow> run_cmd pf clk cmd st = Err (cmd_error cmd) st"
    and "cmd_op cmd st = Some op \<Longrightarrow> log_apply op (log_of st) = None \<Longrightarrow>
      run_cmd pf clk cmd st = Err (op_error op) ((cmd_pop cmd st)\<lparr>next_op_seq := next_op_seq st + 1\<rparr>)"
  using assms by (simp_all add: run_cmd_shape has_room_def apply_op_Err)

text \<open>An insert command gets an id that no record has.\<close>

lemma fresh_id:
  "store_inv st \<Longrightarrow> next_qso_id st \<notin> log_ids (log_of st)"
  by (auto simp: store_inv_def ids_below_log)

lemma cmd_op_insert:
  assumes "store_inv st" "cmd_op cmd st = Some (OpInsert r)"
  shows "qr_id r = next_qso_id st \<and> (\<exists>d. cmd = CmdInsert d)"
  using assms by (cases cmd) (auto simp: store_inv_def no_inserts_def record_of_draft_def vec_pop_def split: if_splits)

lemma run_cmd_Ok:
  assumes inv: "store_inv st" and room: "has_room st"
    and op: "cmd_op cmd st = Some op" and ap: "log_apply op (log_of st) = Some L'"
  shows "\<exists>so st'. run_cmd pf clk cmd st = Ok so st' \<and> cmd_effect cmd op so st st' \<and> log_of st' = L'
    \<and> so_ts_ms so = now_ms clk"
proof -
  have wf: "store_wf st" using inv by (simp add: store_inv_def)
  obtain so st1 where st1: "apply_op pf clk op (cmd_pop cmd st) = Ok (so, log_inverse op (log_of st)) st1"
      "so = \<lparr>so_seq = next_op_seq st, so_ts_ms = now_ms clk, so_op = log_emit op (log_of st)\<rparr>"
      "store_wf st1" "log_of st1 = L'" "undo st1 = undo (cmd_pop cmd st)" "redo st1 = redo (cmd_pop cmd st)"
      "pending_ops st1 = pending_ops st" "next_op_seq st1 = next_op_seq st + 1"
      "next_qso_id st1 = op_next_id op (next_qso_id (cmd_pop cmd st))"
    using apply_op_Ok [of "cmd_pop cmd st" op L' pf clk] wf room ap by (auto simp: has_room_def)
  let ?st' = "cmd_commit cmd so (log_inverse op (log_of st)) st1"
  have run: "run_cmd pf clk cmd st = Ok so ?st'"
    using wf room op st1(1) by (simp add: run_cmd_shape has_room_def)
  have nid: "next_qso_id st1 = (case cmd of CmdInsert _ \<Rightarrow> next_qso_id st + 1 | _ \<Rightarrow> next_qso_id st)"
    using st1(9) op room cmd_op_insert [OF inv, of cmd]
    by (cases op; cases cmd) (auto simp: has_room_def max_succ_succ record_of_draft_def)
  have stacks: "undo ?st' = cmd_undo cmd (log_inverse op (log_of st)) (undo st)"
      "redo ?st' = cmd_redo cmd (log_inverse op (log_of st)) (redo st)"
    using st1(5,6) by (cases cmd; simp add: cmd_commit_def commit_mutation_def)+
  have "no_inserts (undo ?st')" "no_inserts (redo ?st')"
    unfolding stacks using inv by (cases cmd; simp add: store_inv_def no_inserts_butlast)+
  moreover have "ids_below ?st'"
  proof -
    have "i < next_qso_id st1" if "i \<in> log_ids L'" for i
      using that inv room log_apply_ids [OF ap] cmd_op_insert [OF inv, of cmd] op nid less_succ [of "next_qso_id st"]
      by (cases op; cases cmd) (auto simp: store_inv_def ids_below_log has_room_def intro: less_succ_trans)
    then show ?thesis
      using st1(3,4) by (simp add: ids_below_log)
  qed
  ultimately show ?thesis
    using run stacks st1 nid ap by (simp add: cmd_effect_def store_inv_def)
qed

text \<open>
  A command that fails changes no data: the log, the queue and the next id are as before.
  It may leave a gap in the sequence numbers, and a failed undo or redo drops its entry.
\<close>

definition cmd_failure :: "qso_store \<Rightarrow> qso_store \<Rightarrow> bool" where
  "cmd_failure st st' \<longleftrightarrow> store_inv st' \<and> log_of st' = log_of st \<and> pending_ops st' = pending_ops st \<and>
    next_qso_id st' = next_qso_id st \<and> next_op_seq st' \<in> {next_op_seq st, next_op_seq st + 1}"

lemma cmd_insert_applies:
  "store_inv st \<Longrightarrow> log_apply (OpInsert (record_of_draft (next_qso_id st) d)) (log_of st)
    = Some (log_of st @ [record_of_draft (next_qso_id st) d])"
  using fresh_id [of st] by (simp add: record_of_draft_def)

lemma run_cmd_cases:
  assumes inv: "store_inv st" and room: "has_room st"
  obtains op so st' where "run_cmd pf clk cmd st = Ok so st'" "cmd_op cmd st = Some op"
      "cmd_effect cmd op so st st'" "so_ts_ms so = now_ms clk"
    | e st' where "run_cmd pf clk cmd st = Err e st'" "cmd_failure st st'"
proof (cases "cmd_op cmd st")
  case None
  with inv room that(2) show ?thesis
    by (auto simp: run_cmd_Err store_inv_def cmd_failure_def)
next
  case (Some op)
  show ?thesis
  proof (cases "log_apply op (log_of st)")
    case None
    have wf: "store_wf st" using inv by (simp add: store_inv_def)
    have "\<nexists>d. cmd = CmdInsert d"
      using Some None cmd_insert_applies [OF inv] by auto
    then have "cmd_failure st ((cmd_pop cmd st)\<lparr>next_op_seq := next_op_seq st + 1\<rparr>)"
      using inv by (cases cmd) (auto simp: cmd_failure_def store_inv_def no_inserts_butlast ids_below_def)
    with run_cmd_Err(2) [OF wf room Some None] that(2) show ?thesis by blast
  next
    case (Some L')
    from run_cmd_Ok [OF inv room \<open>cmd_op cmd st = Some op\<close> this] that(1) \<open>cmd_op cmd st = Some op\<close>
    show ?thesis by blast
  qed
qed

lemma cmd_effect_inv: "cmd_effect cmd op so st st' \<Longrightarrow> store_inv st'"
  by (simp add: cmd_effect_def)


subsection \<open>Sequences of commands\<close>

text \<open>A client that issues commands one after the other and goes on after an error;
  \<open>None\<close> is a panic. Each command carries the clock reading it sees.\<close>

fun run_cmds :: "profile \<Rightarrow> (int \<times> store_cmd) list \<Rightarrow> qso_store \<Rightarrow> qso_store option" where
  "run_cmds pf [] st = Some st"
| "run_cmds pf ((clk, c) # cs) st =
    (case run_cmd pf clk c st of
       Panic \<Rightarrow> None | Err _ st' \<Rightarrow> run_cmds pf cs st' | Ok _ st' \<Rightarrow> run_cmds pf cs st')"

definition room_for :: "nat \<Rightarrow> qso_store \<Rightarrow> bool" where
  "room_for n st \<longleftrightarrow> unat (next_op_seq st) + n \<le> unat u64_max \<and> unat (next_qso_id st) + n \<le> unat u64_max"

lemma unat_eq_max: "unat (a::u64) = unat u64_max \<longleftrightarrow> a = u64_max"
  by (rule word_unat_eq_iff [symmetric])

lemma room_for_Suc: "room_for (Suc n) st \<Longrightarrow> has_room st"
  by (auto simp: room_for_def has_room_def)

lemma room_for_step:
  assumes "room_for (Suc n) st" "next_op_seq st' \<in> {next_op_seq st, next_op_seq st + 1}"
    and "next_qso_id st' \<in> {next_qso_id st, next_qso_id st + 1}"
  shows "room_for n st'"
  using assms room_for_Suc [OF assms(1)] by (auto simp: room_for_def has_room_def unat_succ)

lemma run_cmds_append:
  "run_cmds pf (cs @ ds) st = (case run_cmds pf cs st of None \<Rightarrow> None | Some st' \<Rightarrow> run_cmds pf ds st')"
  by (induction pf cs st rule: run_cmds.induct) (auto split: result.splits)

lemma run_cmd_step:
  assumes "store_inv st" "room_for (Suc n) st"
  obtains st' where "store_inv st'" "room_for n st'"
    "run_cmds pf ((clk, cmd) # cs) st = run_cmds pf cs st'"
  using run_cmd_cases [OF assms(1) room_for_Suc [OF assms(2)], of pf clk cmd]
proof cases
  case (1 op so st')
  then have "room_for n st'"
    by (intro room_for_step [OF assms(2)]) (auto simp: cmd_effect_def split: store_cmd.splits)
  then show ?thesis
    by (rule that [OF cmd_effect_inv [OF 1(3)]]) (simp add: 1(1))
next
  case (2 e st')
  then have "room_for n st'"
    by (intro room_for_step [OF assms(2)]) (auto simp: cmd_failure_def)
  with 2 show ?thesis
    by (intro that) (simp_all add: cmd_failure_def)
qed

lemma run_cmds_room:
  "store_inv st \<Longrightarrow> room_for (length cs + k) st
    \<Longrightarrow> \<exists>st'. run_cmds pf cs st = Some st' \<and> store_inv st' \<and> room_for k st'"
proof (induction cs arbitrary: st)
  case (Cons c cs)
  obtain clk cmd where c: "c = (clk, cmd)" by fastforce
  from Cons.prems obtain st' where "store_inv st'" "room_for (length cs + k) st'"
    "run_cmds pf ((clk, cmd) # cs) st = run_cmds pf cs st'"
    using run_cmd_step [of st "length cs + k" pf clk cmd cs] by auto
  with Cons.IH show ?case by (simp add: c)
qed simp

lemma run_cmds_total:
  "store_inv st \<Longrightarrow> room_for (length cs) st \<Longrightarrow> \<exists>st'. run_cmds pf cs st = Some st' \<and> store_inv st'"
  using run_cmds_room [of st cs 0 pf] by auto

lemma room_for_new: "n < 18446744073709551615 \<Longrightarrow> room_for n new_store"
  by (simp add: room_for_def new_store_def default_store_def unsigned_minus_1_eq_mask mask_eq_exp_minus_1)

end
