(* ===== verification/Qso_Examples.thy ===== *)
theory Qso_Examples
  imports Qso_Commands
begin

section \<open>Sample data for the witnesses\<close>

text \<open>Concrete drafts and patches in the style of the repository's tests; the witnesses of
  the properties evaluate the model on them.\<close>

definition sample_draft :: "string \<Rightarrow> qso_draft" where
  "sample_draft call = \<lparr>qd_contest_instance_id = 1, qd_callsign_raw = call, qd_callsign_norm = call,
    qd_band = B20m, qd_mode = CW, qd_freq_hz = 14025000, qd_ts_ms = 1, qd_radio_id = 1,
    qd_operator_id = 1, qd_exchange = \<lparr>bytes = []\<rparr>,
    qd_flags = \<lparr>is_void = False, dupe_override = False\<rparr>\<rparr>"

definition void_draft :: "string \<Rightarrow> qso_draft" where
  "void_draft call = (sample_draft call)\<lparr>qd_flags := \<lparr>is_void = True, dupe_override = False\<rparr>\<rparr>"

definition call_patch :: "string \<Rightarrow> qso_patch" where
  "call_patch call = default_patch\<lparr>qp_callsign_raw := Some call, qp_callsign_norm := Some call\<rparr>"

text \<open>Insert two records, move the first to another call, void the second, patch a record
  that does not exist.\<close>

definition sample_cmds :: "(int \<times> store_cmd) list" where
  "sample_cmds = [(0, CmdInsert (sample_draft ''K1A'')), (5000000, CmdInsert (sample_draft ''K2B'')),
    (6000000, CmdPatch 1 (call_patch ''K2B'')), (7000000, CmdVoid 2), (8000000, CmdPatch 9 default_patch)]"

definition sample_store :: qso_store where
  "sample_store = the (run_cmds dev_profile sample_cmds new_store)"

lemma sample_store_run: "run_cmds dev_profile sample_cmds new_store = Some sample_store"
  and sample_store_inv: "store_inv sample_store"
  using run_cmds_total [OF store_inv_new, of sample_cmds dev_profile] room_for_new [of "length sample_cmds"]
  by (auto simp: sample_store_def sample_cmds_def)

lemma room_for_sample: "n < 1000 \<Longrightarrow> room_for n sample_store"
proof -
  have "next_op_seq sample_store = 6" "next_qso_id sample_store = 3" by code_simp+
  then show "n < 1000 \<Longrightarrow> room_for n sample_store"
    by (simp add: room_for_def unsigned_minus_1_eq_mask mask_eq_exp_minus_1)
qed

lemma has_room_sample: "has_room sample_store"
  by code_simp

end
