(* ===== verification/Qso_Undo.thy ===== *)
theory Qso_Undo
  imports Qso_Examples
begin

section \<open>Undo and redo as a zipper of logs\<close>

text \<open>
  Undo and redo apply compensating operations and journal them. The contract they
  implement is the usual one of an editor: a list of past states, the present one and a
  list of future states, with one twist: undoing an insert does not remove the record, it
  leaves it in the log, void. So an insert extends every earlier state by the void record
  before it makes the old present the most recent past.
\<close>


subsection \<open>Chains of reversible operations\<close>

text \<open>\<open>chain app exact s ops ts\<close>: applying the operations one after the other, starting in
  \<open>s\<close>, gives the states \<open>ts\<close>, and each is exactly reversible where it is applied.\<close>

fun chain :: "('op \<Rightarrow> 's \<Rightarrow> 's option) \<Rightarrow> ('op \<Rightarrow> 's \<Rightarrow> bool) \<Rightarrow> 's \<Rightarrow> 'op list \<Rightarrow> 's list \<Rightarrow> bool" where
  "chain app exact s [] [] \<longleftrightarrow> True"
| "chain app exact s (op # ops) (t # ts) \<longleftrightarrow> exact op s \<and> app op s = Some t \<and> chain app exact t ops ts"
| "chain app exact s _ _ \<longleftrightarrow> False"

lemma chain_Nil_iff: "chain app exact s [] ts \<longleftrightarrow> ts = []" "chain app exact s ops [] \<longleftrightarrow> ops = []"
  by (cases ts; simp)(cases ops; simp)

lemma chain_ConsE:
  assumes "chain app exact s (op # ops) ts"
  obtains t ts' where "ts = t # ts'" "exact op s" "app op s = Some t" "chain app exact t ops ts'"
  using assms by (cases ts) auto

lemma chain_Cons_app: "chain app exact s (op # ops) ts \<Longrightarrow> \<exists>t. app op s = Some t"
  by (erule chain_ConsE) blast

lemma chain_length: "chain app exact s ops ts \<Longrightarrow> length ops = length ts"
  by (induction app exact s ops ts rule: chain.induct) auto

text \<open>Operations that can be taken back: the inverse, computed before the operation, leads
  back and can itself be taken back.\<close>

locale reversible =
  fixes app :: "'op \<Rightarrow> 's \<Rightarrow> 's option"
    and inverse_of :: "'op \<Rightarrow> 's \<Rightarrow> 'op"
    and exact :: "'op \<Rightarrow> 's \<Rightarrow> bool"
  assumes reverse: "exact op s \<Longrightarrow> app op s = Some t \<Longrightarrow>
    exact (inverse_of op s) t \<and> app (inverse_of op s) t = Some s"
begin

lemma chain_push:
  "exact op s \<Longrightarrow> app op s = Some t \<Longrightarrow> chain app exact s ops ts
    \<Longrightarrow> chain app exact t (inverse_of op s # ops) (s # ts)"
  using reverse by simp

text \<open>One step along one chain is one step back along the other.\<close>

lemma chain_shift:
  assumes "chain app exact s (op # ops) ts" "chain app exact s rops rts"
  obtains t ts' where "ts = t # ts'" "app op s = Some t" "chain app exact t ops ts'"
    "chain app exact t (inverse_of op s # rops) (s # rts)"
proof -
  from assms(1) obtain t ts' where t: "ts = t # ts'" "exact op s" "app op s = Some t" "chain app exact t ops ts'"
    by (rule chain_ConsE)
  show ?thesis
    by (rule that [OF t(1,3,4) chain_push [OF t(2,3) assms(2)]])
qed

end

text \<open>States can also grow, without disturbing what the operations do.\<close>

locale growing = reversible app inverse_of exact
  for app :: "'op \<Rightarrow> 's \<Rightarrow> 's option" and inverse_of exact +
  fixes grow :: "'g \<Rightarrow> 's \<Rightarrow> 's"
    and fresh :: "'g \<Rightarrow> 's \<Rightarrow> bool"
  assumes grow: "exact op s \<Longrightarrow> fresh g s \<Longrightarrow> app op s = Some t \<Longrightarrow>
    exact op (grow g s) \<and> app op (grow g s) = Some (grow g t) \<and> fresh g t"
begin

lemma chain_grow:
  "chain app exact s ops ts \<Longrightarrow> fresh g s \<Longrightarrow> chain app exact (grow g s) ops (map (grow g) ts)"
proof (induction ops arbitrary: s ts)
  case Nil
  then show ?case by (simp add: chain_Nil_iff)
next
  case (Cons op ops)
  from Cons.prems(1) obtain t ts' where "ts = t # ts'" "exact op s" "app op s = Some t"
      "chain app exact t ops ts'"
    by (rule chain_ConsE)
  with grow [OF \<open>exact op s\<close> Cons.prems(2) \<open>app op s = Some t\<close>] Cons.IH show ?case by simp
qed

end


subsection \<open>Logs are reversible and can grow\<close>

text \<open>A void operation is exact where its recorded value is the record's value; an insert
  never is, its compensation is not its inverse.\<close>

fun log_exact :: "op \<Rightarrow> qso_log \<Rightarrow> bool" where
  "log_exact (OpInsert r) L = False"
| "log_exact (OpPatch i p q) L = (distinct (map qr_id L) \<and> i \<in> log_ids L)"
| "log_exact (OpVoid i b) L = (distinct (map qr_id L) \<and>
     (case log_find i L of None \<Rightarrow> False | Some r \<Rightarrow> is_void (qr_flags r) = b))"

definition log_grow :: "qso_record \<Rightarrow> qso_log \<Rightarrow> qso_log" where
  "log_grow r L = L @ [r]"

definition log_fresh :: "qso_record \<Rightarrow> qso_log \<Rightarrow> bool" where
  "log_fresh r L \<longleftrightarrow> qr_id r \<notin> log_ids L"

lemma log_reverse_patch:
  assumes "distinct (map qr_id L)" "i \<in> log_ids L"
  shows "log_update i (apply_to (capture_inverse_for p (the (log_find i L)))) (log_update i (apply_to p) L) = L"
proof -
  obtain r where r: "log_find i L = Some r" using log_find_in [OF assms(2)] by blast
  have "log_update i (apply_to (capture_inverse_for p r)) (log_update i (apply_to p) L)
      = log_update i (apply_to (capture_inverse_for p r) \<circ> apply_to p) L"
    by (rule log_update_update) simp
  also have "\<dots> = L"
    by (rule log_update_id [OF assms(1) r]) simp
  finally show ?thesis by (simp add: r)
qed

lemma log_reverse_void:
  assumes "distinct (map qr_id L)" "log_find i L = Some r" "is_void (qr_flags r) = b"
  shows "log_update i (set_void b) (log_update i (set_void (\<not> b)) L) = L"
proof -
  have "log_update i (set_void b) (log_update i (set_void (\<not> b)) L)
      = log_update i (set_void b \<circ> set_void (\<not> b)) L"
    by (rule log_update_update) simp
  also have "\<dots> = L"
    by (rule log_update_id [OF assms(1,2)]) (simp add: set_void_self [OF assms(3)])
  finally show ?thesis .
qed

interpretation log_rev: reversible log_apply log_inverse log_exact
proof unfold_locales
  fix op L L' assume ex: "log_exact op L" and ap: "log_apply op L = Some L'"
  then have "distinct (map qr_id L)"
    by (cases op) auto
  then have dist: "distinct (map qr_id L')"
    using ap by (rule log_apply_distinct)
  show "log_exact (log_inverse op L) L' \<and> log_apply (log_inverse op L) L' = Some L"
  proof (cases op)
    case (OpPatch i p q)
    with ex ap have L': "L' = log_update i (apply_to p) L" and i: "i \<in> log_ids L" "distinct (map qr_id L)"
      by auto
    with OpPatch dist log_reverse_patch [OF i(2,1), of p] show ?thesis by simp
  next
    case (OpVoid i b)
    with ex obtain r where r: "log_find i L = Some r" "is_void (qr_flags r) = b" "distinct (map qr_id L)"
      by (auto split: option.splits)
    with OpVoid ap have "L' = log_update i (set_void (\<not> b)) L" "i \<in> log_ids L"
      by (auto split: if_splits)
    with OpVoid r dist log_reverse_void [OF r(3,1,2)] show ?thesis by (simp add: log_find_update)
  qed (use ex in simp)
qed

interpretation log_grows: growing log_apply log_inverse log_exact log_grow log_fresh
proof unfold_locales
  fix op L L' r assume ex: "log_exact op L" and fr: "log_fresh r L" and ap: "log_apply op L = Some L'"
  show "log_exact op (log_grow r L) \<and> log_apply op (log_grow r L) = Some (log_grow r L') \<and> log_fresh r L'"
  proof (cases op)
    case (OpPatch i p q)
    with ex fr ap show ?thesis
      by (auto simp: log_grow_def log_fresh_def split: if_splits) (auto simp: log_ids_def)
  next
    case (OpVoid i b)
    with ex fr ap show ?thesis
      by (auto simp: log_grow_def log_fresh_def log_find_append split: if_splits option.splits)
        (auto simp: log_ids_def)
  qed (use ex in simp)
qed


subsection \<open>The zipper specification\<close>

type_synonym history = "qso_log list \<times> qso_log \<times> qso_log list"

text \<open>\<open>n\<close> is the id the store would assign. A command that does not apply changes nothing.\<close>

fun hist_step :: "store_cmd \<Rightarrow> qso_id \<Rightarrow> history \<Rightarrow> history" where
  "hist_step (CmdInsert d) n (ps, L, fs) =
    (let r = record_of_draft n d in (map (log_grow (set_void True r)) (L # ps), L @ [r], []))"
| "hist_step (CmdPatch i p) n (ps, L, fs) =
    (if i \<in> log_ids L then (L # ps, log_update i (apply_to p) L, []) else (ps, L, fs))"
| "hist_step (CmdVoid i) n (ps, L, fs) =
    (case log_find i L of
       None \<Rightarrow> (ps, L, fs)
     | Some r \<Rightarrow> (L # ps, log_update i (set_void (\<not> is_void (qr_flags r))) L, []))"
| "hist_step CmdUndo n (ps, L, fs) = (case ps of [] \<Rightarrow> (ps, L, fs) | P # ps' \<Rightarrow> (ps', P, L # fs))"
| "hist_step CmdRedo n (ps, L, fs) = (case fs of [] \<Rightarrow> (ps, L, fs) | F # fs' \<Rightarrow> (L # ps, F, fs'))"

definition hist_rel :: "qso_store \<Rightarrow> history \<Rightarrow> bool" where
  "hist_rel st h = (case h of (ps, L, fs) \<Rightarrow>
    store_inv st \<and> log_of st = L \<and>
    chain log_apply log_exact L (rev (undo st)) ps \<and>
    chain log_apply log_exact L (rev (redo st)) fs)"

text \<open>Drafts are not void when they are entered.\<close>

fun cmd_live :: "store_cmd \<Rightarrow> bool" where
  "cmd_live (CmdInsert d) = (\<not> is_void (qd_flags d))"
| "cmd_live _ = True"

lemma hist_rel_new: "hist_rel new_store ([], [], [])"
  by (simp add: hist_rel_def) (simp add: new_store_def default_store_def)

text \<open>The operation a command resolves to, in a store whose history is known.\<close>

lemma hist_insert:
  assumes rel: "hist_rel st (ps, L, fs)" and eff: "cmd_effect (CmdInsert d) op so st st'"
    and op: "cmd_op (CmdInsert d) st = Some op" and live: "\<not> is_void (qd_flags d)"
  shows "hist_rel st' (hist_step (CmdInsert d) (next_qso_id st) (ps, L, fs))"
proof -
  let ?r = "record_of_draft (next_qso_id st) d"
  have L: "log_of st = L" "store_inv st" "distinct (map qr_id L)"
    using rel wf_log_distinct [of st] by (auto simp: hist_rel_def store_inv_def)
  have r: "qr_id ?r = next_qso_id st" "is_void (qr_flags ?r) = False"
    using live by (auto simp: record_of_draft_def)
  have fr: "log_fresh (set_void True ?r) L"
    using fresh_id [OF L(2)] by (simp add: log_fresh_def r L(1))
  have "chain log_apply log_exact (log_grow (set_void True ?r) L) (rev (undo st)) (map (log_grow (set_void True ?r)) ps)"
    by (rule log_grows.chain_grow [OF _ fr]) (use rel in \<open>simp add: hist_rel_def\<close>)
  moreover have "log_find (next_qso_id st) (L @ [?r]) = Some ?r"
    using fr r(1) log_find_None [of "next_qso_id st" L]
    by (simp add: log_fresh_def log_find_append log_find_Cons)
  moreover have "log_update (next_qso_id st) (set_void True) (L @ [?r]) = log_grow (set_void True ?r) L"
    using fr r(1) by (simp add: log_grow_def log_fresh_def log_update_fresh)
  ultimately show ?thesis
    using eff op r L fr by (auto simp: hist_rel_def cmd_effect_def Let_def log_fresh_def log_ids_def chain_Nil_iff)
qed

text \<open>A patch or a void that applies: the old present becomes the latest past.\<close>

lemma hist_mutate:
  assumes rel: "hist_rel st (ps, L, fs)" and ex: "log_exact op L"
    and eff: "cmd_effect cmd op so st st'" and cmd: "(\<exists>i p. cmd = CmdPatch i p) \<or> (\<exists>i. cmd = CmdVoid i)"
  shows "hist_rel st' (L # ps, log_of st', [])"
proof -
  have "chain log_apply log_exact L (rev (undo st)) ps" "log_of st = L"
    using rel by (simp_all add: hist_rel_def)
  moreover have "log_apply op L = Some (log_of st')" "store_inv st'"
      "undo st' = undo st @ [log_inverse op L]" "redo st' = []"
    using eff cmd \<open>log_of st = L\<close> by (auto simp: cmd_effect_def)
  ultimately show ?thesis
    using log_rev.chain_push [OF ex, of "log_of st'" "rev (undo st)" ps] by (simp add: hist_rel_def)
qed

lemma hist_undo:
  assumes rel: "hist_rel st (ps, L, fs)" and op: "vec_pop (undo st) = Some (op, rest)"
    and eff: "cmd_effect CmdUndo op so st st'"
  shows "hist_rel st' (hist_step CmdUndo n (ps, L, fs))"
proof -
  have u: "undo st = rest @ [op]" using op by (simp add: vec_pop_Some)
  have "log_of st = L" and cs: "chain log_apply log_exact L (op # rev rest) ps"
      "chain log_apply log_exact L (rev (redo st)) fs"
    using rel u by (simp_all add: hist_rel_def)
  from cs obtain P ps' where "ps = P # ps'" "log_apply op L = Some P" "chain log_apply log_exact P (rev rest) ps'"
      "chain log_apply log_exact P (log_inverse op L # rev (redo st)) (L # fs)"
    by (rule log_rev.chain_shift)
  then show ?thesis
    using eff \<open>log_of st = L\<close> u by (simp add: hist_rel_def cmd_effect_def)
qed

lemma hist_redo:
  assumes rel: "hist_rel st (ps, L, fs)" and op: "vec_pop (redo st) = Some (op, rest)"
    and eff: "cmd_effect CmdRedo op so st st'"
  shows "hist_rel st' (hist_step CmdRedo n (ps, L, fs))"
proof -
  have u: "redo st = rest @ [op]" using op by (simp add: vec_pop_Some)
  have "log_of st = L" and cs: "chain log_apply log_exact L (op # rev rest) fs"
      "chain log_apply log_exact L (rev (undo st)) ps"
    using rel u by (simp_all add: hist_rel_def)
  from cs obtain F fs' where "fs = F # fs'" "log_apply op L = Some F" "chain log_apply log_exact F (rev rest) fs'"
      "chain log_apply log_exact F (log_inverse op L # rev (undo st)) (L # ps)"
    by (rule log_rev.chain_shift)
  then show ?thesis
    using eff \<open>log_of st = L\<close> u by (simp add: hist_rel_def cmd_effect_def)
qed

text \<open>When the zipper moves, the store's operation applies.\<close>

lemma hist_top_applies:
  assumes "hist_rel st (ps, L, fs)" "vec_pop (undo st) = Some (op, rest) \<or> vec_pop (redo st) = Some (op, rest)"
  shows "\<exists>L'. log_apply op (log_of st) = Some L'"
  using assms by (auto simp: hist_rel_def vec_pop_Some dest: chain_Cons_app)

text \<open>What a command does to the store, against what the zipper does.\<close>

lemma hist_cmd_ok:
  assumes rel: "hist_rel st (ps, L, fs)" and live: "cmd_live cmd" and op: "cmd_op cmd st = Some op"
    and ap: "log_apply op (log_of st) = Some L'" and eff: "cmd_effect cmd op so st st'" and L': "log_of st' = L'"
  shows "hist_rel st' (hist_step cmd (next_qso_id st) (ps, L, fs))"
proof -
  have L: "log_of st = L" "distinct (map qr_id L)"
    using rel wf_log_distinct [of st] by (auto simp: hist_rel_def store_inv_def)
  show ?thesis
  proof (cases cmd)
    case (CmdInsert d)
    with rel eff op live show ?thesis using hist_insert by auto
  next
    case (CmdPatch i p)
    with op have "op = OpPatch i p default_patch" by simp
    with ap L have i: "i \<in> log_ids L" "L' = log_update i (apply_to p) L" and ex: "log_exact op L"
      by (auto split: if_splits)
    with CmdPatch L' hist_mutate [OF rel ex eff] show ?thesis by simp
  next
    case (CmdVoid i)
    with op L obtain r where r: "log_find i L = Some r" "op = OpVoid i (is_void (qr_flags r))" by auto
    with ap L have "L' = log_update i (set_void (\<not> is_void (qr_flags r))) L" and ex: "log_exact op L"
      by (auto split: if_splits)
    with CmdVoid r L' hist_mutate [OF rel ex eff] show ?thesis by simp
  next
    case CmdUndo
    with op obtain rest where "vec_pop (undo st) = Some (op, rest)" by auto
    with CmdUndo hist_undo [OF rel] eff show ?thesis by simp
  next
    case CmdRedo
    with op obtain rest where "vec_pop (redo st) = Some (op, rest)" by auto
    with CmdRedo hist_redo [OF rel] eff show ?thesis by simp
  qed
qed

lemma hist_cmd_none:
  assumes rel: "hist_rel st (ps, L, fs)"
    and none: "cmd_op cmd st = None \<or> (\<exists>op. cmd_op cmd st = Some op \<and> log_apply op (log_of st) = None)"
  shows "hist_step cmd (next_qso_id st) (ps, L, fs) = (ps, L, fs)"
    and "hist_rel ((cmd_pop cmd st)\<lparr>next_op_seq := n\<rparr>) (ps, L, fs)" and "cmd_pop cmd st = st"
proof -
  have L: "log_of st = L" "store_inv st" using rel by (auto simp: hist_rel_def)
  have "hist_step cmd (next_qso_id st) (ps, L, fs) = (ps, L, fs) \<and> cmd_pop cmd st = st"
  proof (cases cmd)
    case (CmdInsert d)
    with none cmd_insert_applies [OF L(2)] show ?thesis by auto
  next
    case (CmdPatch i p)
    with none L show ?thesis by (auto split: if_splits)
  next
    case (CmdVoid i)
    with none L log_find_mem [of i L] show ?thesis by (auto split: if_splits option.splits)
  next
    case CmdUndo
    with none hist_top_applies [OF rel] have "vec_pop (undo st) = None"
      by (cases "vec_pop (undo st)") force+
    then have "undo st = []" by (simp add: vec_pop_None)
    with CmdUndo rel show ?thesis by (simp add: hist_rel_def chain_Nil_iff)
  next
    case CmdRedo
    with none hist_top_applies [OF rel] have "vec_pop (redo st) = None"
      by (cases "vec_pop (redo st)") force+
    then have "redo st = []" by (simp add: vec_pop_None)
    with CmdRedo rel show ?thesis by (simp add: hist_rel_def chain_Nil_iff)
  qed
  then show "hist_step cmd (next_qso_id st) (ps, L, fs) = (ps, L, fs)" "cmd_pop cmd st = st"
    by simp_all
  then show "hist_rel ((cmd_pop cmd st)\<lparr>next_op_seq := n\<rparr>) (ps, L, fs)"
    using rel by (auto simp: hist_rel_def store_inv_def ids_below_def)
qed

fun cmd_next_id :: "store_cmd \<Rightarrow> qso_id \<Rightarrow> qso_id" where
  "cmd_next_id (CmdInsert _) n = n + 1"
| "cmd_next_id _ n = n"

lemma cmd_effect_next_id: "cmd_effect cmd op so st st' \<Longrightarrow> next_qso_id st' = cmd_next_id cmd (next_qso_id st)"
  by (cases cmd) (simp_all add: cmd_effect_def)

lemma cmd_pop_next_id: "next_qso_id (cmd_pop cmd st) = cmd_next_id cmd (next_qso_id st)"
  by (cases cmd) simp_all

text \<open>The simulation: each command of the store is the step of the zipper.\<close>

lemma hist_simulation:
  assumes rel: "hist_rel st h" and room: "room_for (Suc n) st" and live: "cmd_live cmd"
  obtains st' where "hist_rel st' (hist_step cmd (next_qso_id st) h)" "room_for n st'"
    "next_qso_id st' = cmd_next_id cmd (next_qso_id st)"
    "run_cmds pf ((clk, cmd) # cs) st = run_cmds pf cs st'"
proof -
  obtain ps L fs where h: "h = (ps, L, fs)" by (cases h)
  have inv: "store_inv st" and wf: "store_wf st" using rel by (auto simp: hist_rel_def h store_inv_def)
  have hr: "has_room st" by (rule room_for_Suc [OF room])
  show ?thesis
  proof (cases "\<exists>op L'. cmd_op cmd st = Some op \<and> log_apply op (log_of st) = Some L'")
    case True
    then obtain op L' where op: "cmd_op cmd st = Some op" "log_apply op (log_of st) = Some L'" by blast
    obtain so st' where st': "run_cmd pf clk cmd st = Ok so st'" "cmd_effect cmd op so st st'" "log_of st' = L'"
      using run_cmd_Ok [OF inv hr op] by blast
    have "room_for n st'"
      by (rule room_for_step [OF room]) (use st'(2) in \<open>auto simp: cmd_effect_def split: store_cmd.splits\<close>)
    with hist_cmd_ok [OF _ live op st'(2,3), of ps L fs] rel st'(1) cmd_effect_next_id [OF st'(2)] show ?thesis
      by (intro that) (auto simp: h)
  next
    case False
    then have none: "cmd_op cmd st = None \<or> (\<exists>op. cmd_op cmd st = Some op \<and> log_apply op (log_of st) = None)"
      by (cases "cmd_op cmd st") auto
    note same = hist_cmd_none [OF rel [unfolded h] none]
    obtain m e where "m \<in> {next_op_seq st, next_op_seq st + 1}"
      "run_cmd pf clk cmd st = Err e ((cmd_pop cmd st)\<lparr>next_op_seq := m\<rparr>)"
      using none run_cmd_Err [OF wf hr] same(3) by fastforce
    moreover from this have "room_for n ((cmd_pop cmd st)\<lparr>next_op_seq := m\<rparr>)"
      by (intro room_for_step [OF room]) (auto simp: same(3))
    ultimately show ?thesis
      using same(1,2) by (intro that) (auto simp: h cmd_pop_next_id)
  qed
qed

text \<open>The zipper over a sequence of commands.\<close>

fun hist_run :: "(int \<times> store_cmd) list \<Rightarrow> qso_id \<Rightarrow> history \<Rightarrow> history" where
  "hist_run [] n h = h"
| "hist_run ((_, c) # cs) n h = hist_run cs (cmd_next_id c n) (hist_step c n h)"

lemma hist_simulation_run:
  assumes "hist_rel st h" "room_for (length cs + k) st" "\<forall>c \<in> set cs. cmd_live (snd c)"
  shows "\<exists>st'. run_cmds pf cs st = Some st' \<and> hist_rel st' (hist_run cs (next_qso_id st) h) \<and> room_for k st'"
  using assms
proof (induction cs arbitrary: st h)
  case (Cons c cs)
  obtain clk cmd where c: "c = (clk, cmd)" by fastforce
  from Cons.prems have room: "room_for (Suc (length cs + k)) st" and live: "cmd_live cmd" by (simp_all add: c)
  from Cons.prems(1) room live obtain st' where "hist_rel st' (hist_step cmd (next_qso_id st) h)"
      "room_for (length cs + k) st'" "next_qso_id st' = cmd_next_id cmd (next_qso_id st)"
      "run_cmds pf ((clk, cmd) # cs) st = run_cmds pf cs st'"
    by (rule hist_simulation [where pf = pf and clk = clk and cs = cs])
  with Cons.IH [of st'] Cons.prems(3) show ?case by (simp add: c)
qed simp

abbreviation undos :: "int list \<Rightarrow> (int \<times> store_cmd) list" where
  "undos clks \<equiv> map (\<lambda>clk. (clk, CmdUndo)) clks"

abbreviation redos :: "int list \<Rightarrow> (int \<times> store_cmd) list" where
  "redos clks \<equiv> map (\<lambda>clk. (clk, CmdRedo)) clks"

lemma hist_run_append:
  "hist_run (cs @ ds) n h = hist_run ds (fold (\<lambda>c. cmd_next_id (snd c)) cs n) (hist_run cs n h)"
  by (induction cs n h rule: hist_run.induct) auto

lemma hist_undos_redos:
  "length us = length rs \<Longrightarrow> length us \<le> length ps \<Longrightarrow>
    hist_run (undos us @ redos rs) n (ps, L, fs) = (ps, L, fs)"
proof (induction us arbitrary: ps L fs rs)
  case (Cons u us)
  from Cons.prems obtain r rs' P ps' where rs: "rs = rs' @ [r]" and ps: "ps = P # ps'"
    by (cases ps; cases rs rule: rev_cases) auto
  have "hist_run (undos us @ redos rs') n (ps', P, L # fs) = (ps', P, L # fs)"
    using Cons.prems by (intro Cons.IH) (auto simp: rs ps)
  then show ?case
    by (simp add: rs ps hist_run_append flip: append_assoc)
qed simp

text \<open>Undoing and redoing the same number of steps gives back the log, and with it every
  data structure of the store.\<close>

lemma undos_redos_store:
  assumes "hist_rel st h" "room_for (length us + length rs) st" "length us = length rs" "length us \<le> length (undo st)"
  shows "\<exists>st'. run_cmds pf (undos us @ redos rs) st = Some st' \<and> hist_rel st' h \<and> log_of st' = log_of st \<and>
    records st' = records st \<and> order st' = order st \<and> pos st' = pos st \<and>
    by_call st' = by_call st \<and> by_contest st' = by_contest st"
proof -
  obtain ps L fs where h: "h = (ps, L, fs)" by (cases h)
  have len: "length us \<le> length ps"
    using assms(1,4) chain_length by (fastforce simp: hist_rel_def h)
  have live: "\<forall>c \<in> set (undos us @ redos rs). cmd_live (snd c)" by auto
  have "room_for (length (undos us @ redos rs) + 0) st" using assms(2) by simp
  then obtain st' where run: "run_cmds pf (undos us @ redos rs) st = Some st'"
      and "hist_rel st' (hist_run (undos us @ redos rs) (next_qso_id st) h)"
    using hist_simulation_run [OF assms(1) _ live, of 0 pf] by auto
  then have rel: "hist_rel st' (ps, L, fs)"
    using hist_undos_redos [OF assms(3) len] by (simp only: h)
  then have "store_wf st'" "store_wf st" "log_of st' = log_of st"
    using assms(1) by (auto simp: hist_rel_def h store_inv_def)
  from wf_determined [OF this] this(3) run rel show ?thesis by (auto simp: h)
qed

end
