(* ===== verification/Qso_Rollback.thy ===== *)
theory Qso_Rollback
  imports Qso_Undo
begin

section \<open>Checkpoint and rollback\<close>

text \<open>
  The runtime takes a checkpoint, runs a mutation, and rolls it back when the journal
  refuses it. The rollback of an insert removes the record from five data structures and
  renumbers the position table; the rollbacks of a patch and a void write the old values
  back. All of them are characterised by their effect on the log, and the data of the
  store comes back exactly. The undo and redo stacks do not: a truncation cannot bring
  back what the mutation had removed from them.
\<close>


subsection \<open>The position table as a fold of updates\<close>

definition renumber :: "(nat \<times> qso_id) list \<Rightarrow> (qso_id, nat) mapping \<Rightarrow> (qso_id, nat) mapping" where
  "renumber xs m = fold (\<lambda>(n, q). Mapping.update q n) xs m"

lemma lookup_renumber:
  "distinct (map snd xs) \<Longrightarrow> Mapping.lookup (renumber xs m) q = Some n \<longleftrightarrow>
    (n, q) \<in> set xs \<or> (q \<notin> snd ` set xs \<and> Mapping.lookup m q = Some n)"
proof (induction xs arbitrary: m)
  case (Cons x xs)
  obtain n' q' where x: "x = (n', q')" by (cases x)
  from Cons.prems have "distinct (map snd xs)" "q' \<notin> snd ` set xs" by (auto simp: x)
  with Cons.IH [of "Mapping.update q' n' m"] show ?case
    by (auto simp: x renumber_def lookup_update' image_iff)
qed (simp add: renumber_def)

lemma pos_ok_enumerate:
  "distinct ord \<Longrightarrow> pos_ok ord (renumber (List.enumerate 0 ord) Mapping.empty)"
  by (auto simp: pos_ok_def lookup_renumber in_set_enumerate_eq)

lemma set_drop_enumerate:
  "(n, q) \<in> set (drop k (List.enumerate 0 ord)) \<longleftrightarrow> k \<le> n \<and> n < length ord \<and> ord ! n = q"
proof -
  have "drop k (List.enumerate 0 ord) ! j = (k + j, ord ! (k + j))" if "j < length ord - k" for j
    using that by (simp add: nth_enumerate_eq)
  then have "(n, q) \<in> set (drop k (List.enumerate 0 ord)) \<longleftrightarrow> (\<exists>j < length ord - k. (n, q) = (k + j, ord ! (k + j)))"
    by (auto simp: in_set_conv_nth)
  also have "\<dots> \<longleftrightarrow> k \<le> n \<and> n < length ord \<and> ord ! n = q"
    by (auto intro!: exI [of _ "n - k"])
  finally show ?thesis .
qed

lemma filter_nth_remove:
  assumes "distinct xs" "k < length xs"
  shows "filter (\<lambda>x. x \<noteq> xs ! k) xs = take k xs @ drop (Suc k) xs"
proof -
  have xs: "xs = take k xs @ xs ! k # drop (Suc k) xs"
    by (rule id_take_nth_drop [OF assms(2)])
  have "xs ! k \<notin> set (take k xs)" "xs ! k \<notin> set (drop (Suc k) xs)"
    using assms(1) by (subst (asm) xs; simp)+
  then have "filter (\<lambda>x. x \<noteq> xs ! k) (take k xs) = take k xs"
      "filter (\<lambda>x. x \<noteq> xs ! k) (drop (Suc k) xs) = drop (Suc k) xs"
    by (auto simp: filter_id_conv)
  then have "filter (\<lambda>x. x \<noteq> xs ! k) (take k xs @ xs ! k # drop (Suc k) xs) = take k xs @ drop (Suc k) xs"
    by simp
  then show ?thesis using xs by simp
qed

lemma pos_ok_remove:
  assumes ok: "pos_ok ord pm" and k: "Mapping.lookup pm i = Some k"
  shows "vec_remove ord k = Some (filter (\<lambda>v. v \<noteq> i) ord)"
    and "pos_ok (filter (\<lambda>v. v \<noteq> i) ord)
      (renumber (drop k (List.enumerate 0 (filter (\<lambda>v. v \<noteq> i) ord))) (Mapping.delete i pm))"
proof -
  have ord: "k < length ord" "ord ! k = i" "distinct ord"
    using ok k pos_ok_distinct by (auto simp: pos_ok_def)
  let ?ord = "filter (\<lambda>v. v \<noteq> i) ord"
  have eq: "?ord = take k ord @ drop (Suc k) ord"
    using filter_nth_remove [OF ord(3,1)] ord(2) by simp
  then show "vec_remove ord k = Some ?ord"
    using ord(1) by (simp add: vec_remove_def)
  have nth: "?ord ! n = (if n < k then ord ! n else ord ! Suc n)" if "n < length ?ord" for n
    using that ord(1) by (simp add: eq nth_append)
  have len: "length ?ord = length ord - 1"
    using ord(1) by (simp add: eq)
  have dist: "distinct (map snd (drop k (List.enumerate 0 ?ord)))"
    using ord(3) by (simp flip: drop_map)
  have low: "Mapping.lookup (Mapping.delete i pm) q = Some n \<longleftrightarrow> q \<noteq> i \<and> n < length ord \<and> ord ! n = q" for q n
    using ok by (cases "q = i") (auto simp: pos_ok_def)
  show "pos_ok ?ord (renumber (drop k (List.enumerate 0 ?ord)) (Mapping.delete i pm))"
    unfolding pos_ok_def lookup_renumber [OF dist] low
  proof (intro allI)
    fix q n
    have upper: "q \<in> snd ` set (drop k (List.enumerate 0 ?ord)) \<longleftrightarrow> (\<exists>m. k \<le> m \<and> m < length ?ord \<and> ?ord ! m = q)"
      by (simp add: image_iff Bex_def set_drop_enumerate split_paired_Ex) blast
    show "(n, q) \<in> set (drop k (List.enumerate 0 ?ord)) \<or>
        (q \<notin> snd ` set (drop k (List.enumerate 0 ?ord)) \<and> q \<noteq> i \<and> n < length ord \<and> ord ! n = q)
      \<longleftrightarrow> n < length ?ord \<and> ?ord ! n = q"
    proof (cases "n < k")
      case True
      have "ord ! Suc m \<noteq> ord ! n" if "k \<le> m" "m < length ord - Suc 0" for m
        using that True ord(3) by (simp add: nth_eq_iff_index_eq)
      moreover have "ord ! n \<noteq> i"
        using True ord nth_eq_iff_index_eq [of ord n k] by auto
      ultimately show ?thesis
        using True nth len ord(1) by (auto simp: upper set_drop_enumerate)
    next
      case False
      have "\<exists>m. k \<le> m \<and> m < length ?ord \<and> ?ord ! m = q" if "q \<noteq> i" "n < length ord" "ord ! n = q"
        using that False ord(1,2) nth [of "n - 1"] len by (intro exI [of _ "n - 1"]) (cases "n = k", auto)
      then show ?thesis
        using False by (auto simp: upper set_drop_enumerate)
    qed
  qed
qed



subsection \<open>Rolling back single operations\<close>

definition log_remove :: "qso_id \<Rightarrow> qso_log \<Rightarrow> qso_log" where
  "log_remove i L = filter (\<lambda>r. qr_id r \<noteq> i) L"

definition same_rest :: "qso_store \<Rightarrow> qso_store \<Rightarrow> bool" where
  "same_rest st st' \<longleftrightarrow> undo st' = undo st \<and> redo st' = redo st \<and> pending_ops st' = pending_ops st \<and>
    next_op_seq st' = next_op_seq st \<and> next_qso_id st' = next_qso_id st"

lemma rollback_insert_ok:
  assumes wf: "store_wf st" and i: "i \<in> set (order st)"
  shows "\<exists>st'. rollback_insert i st = Ok () st' \<and> store_wf st' \<and> log_of st' = log_remove i (log_of st) \<and> same_rest st st'"
proof -
  obtain r where r: "Mapping.lookup (records st) i = Some r" "qr_id r = i"
    using wf_find [OF assms] by blast
  obtain k where k: "Mapping.lookup (pos st) i = Some k"
    using wf i by (metis in_set_conv_nth pos_ok_nth store_wf_def)
  let ?ord = "filter (\<lambda>v. v \<noteq> i) (order st)"
  let ?st = "(remove_indices r (st\<lparr>records := Mapping.delete i (records st)\<rparr>))
    \<lparr>order := ?ord, pos := renumber (drop k (List.enumerate 0 ?ord)) (Mapping.delete i (pos st))\<rparr>"
  have ok: "pos_ok (order st) (pos st)" using wf by (simp add: store_wf_def)
  have "rollback_insert i st = Ok () ?st"
    using r k pos_ok_remove(1) [OF ok k]
    by (simp add: rollback_insert_def remove_indices_def renumber_def Let_def)
  moreover have "store_wf ?st"
    using wf r pos_ok_remove(2) [OF ok k] canonical_delete [OF _ r(1), of qr_callsign_norm]
      canonical_delete [OF _ r(1), of qr_contest_instance_id]
    by (auto simp: store_wf_def remove_indices_def lookup_delete_if split: if_splits)
  moreover have "log_of ?st = log_remove i (log_of st)"
  proof -
    have "qr_id (the (Mapping.lookup (records st) j)) = j" if "j \<in> set (order st)" for j
      using wf_find [OF wf that] by (metis option.sel)
    then have "filter (\<lambda>j. qr_id (the (Mapping.lookup (records st) j)) \<noteq> i) (order st) = ?ord"
      by (intro filter_cong) auto
    then show ?thesis
      by (simp add: log_of_def log_remove_def remove_indices_def filter_map o_def lookup_delete_if)
  qed
  ultimately show ?thesis
    by (auto simp: same_rest_def remove_indices_def)
qed

lemma rollback_patch_ok:
  assumes wf: "store_wf st" and i: "i \<in> set (order st)"
  shows "\<exists>st'. rollback_patch pf i p st = Ok () st' \<and> store_wf st' \<and>
    log_of st' = log_update i (apply_to p) (log_of st) \<and> same_rest st st'"
proof -
  obtain r where r: "Mapping.lookup (records st) i = Some r" "qr_id r = i"
    and upd: "log_update i (\<lambda>_. apply_to p r) (log_of st) = log_update i (apply_to p) (log_of st)"
    using wf_find [OF assms] by blast
  let ?rs = "Mapping.update i (apply_to p r) (records st)"
  obtain c d where "reindex pf i r (apply_to p r) (st\<lparr>records := ?rs\<rparr>)
        = Some (st\<lparr>records := ?rs, by_call := c, by_contest := d\<rparr>)"
    and "store_wf (st\<lparr>records := ?rs, by_call := c, by_contest := d\<rparr>)"
    using reindex_ok [OF wf r(1), of "apply_to p r" pf] r(2) by (auto simp: Let_def)
  then show ?thesis
    using r(1) log_of_update [OF wf, of i "apply_to p r"] upd
    by (auto simp: rollback_patch_def same_rest_def Let_def)
qed

lemma rollback_void_ok:
  assumes wf: "store_wf st" and i: "i \<in> set (order st)"
  shows "\<exists>st'. rollback_void i b st = Ok () st' \<and> store_wf st' \<and>
    log_of st' = log_update i (set_void b) (log_of st) \<and> same_rest st st'"
proof -
  obtain r where r: "Mapping.lookup (records st) i = Some r" "qr_id r = i"
    and upd: "log_update i (\<lambda>_. set_void b r) (log_of st) = log_update i (set_void b) (log_of st)"
    using wf_find [OF assms] by blast
  have "rollback_void i b st = Ok () (st\<lparr>records := Mapping.update i (set_void b r) (records st)\<rparr>)"
    using r(1) by (simp add: rollback_void_def set_void_def)
  then show ?thesis
    using wf_set_record [OF wf r(1), of "set_void b r"] r(2) log_of_update [OF wf, of i "set_void b r"] upd
    by (auto simp: same_rest_def)
qed



subsection \<open>Rolling back a command\<close>

lemma log_remove_insert:
  assumes "qr_id r \<notin> log_ids L"
  shows "log_remove (qr_id r) (L @ [r]) = L"
proof -
  have "\<forall>x \<in> set L. qr_id x \<noteq> qr_id r"
    using assms unfolding log_ids_def by (metis imageI)
  then show ?thesis
    by (simp add: log_remove_def filter_id_conv)
qed

text \<open>Undoing the journalled operation on the log, from the payload alone.\<close>

fun log_rollback :: "op \<Rightarrow> qso_log \<Rightarrow> qso_log" where
  "log_rollback (OpInsert r) L = log_remove (qr_id r) L"
| "log_rollback (OpPatch i p q) L = log_update i (apply_to q) L"
| "log_rollback (OpVoid i b) L = log_update i (set_void b) L"

lemma log_rollback_emit:
  assumes ap: "log_apply op L = Some L'" and dist: "distinct (map qr_id L)"
    and ex: "\<And>i b. op = OpVoid i b \<Longrightarrow> log_exact op L"
  shows "log_rollback (log_emit op L) L' = L"
proof (cases op)
  case (OpInsert r)
  with ap show ?thesis by (auto simp: log_remove_insert split: if_splits)
next
  case (OpPatch i p q)
  with ap dist show ?thesis by (auto simp: log_reverse_patch split: if_splits)
next
  case (OpVoid i b)
  with ex obtain r where r: "log_find i L = Some r" "is_void (qr_flags r) = b" by (auto split: option.splits)
  with OpVoid ap log_reverse_void [OF dist r] show ?thesis by (auto split: if_splits)
qed

fun op_target :: "op \<Rightarrow> qso_id" where
  "op_target (OpInsert r) = qr_id r"
| "op_target (OpPatch i _ _) = i"
| "op_target (OpVoid i _) = i"

lemma op_target_emit [simp]: "op_target (log_emit op L) = op_target op"
  by (cases op) simp_all

lemma op_target_in: "log_apply op L = Some L' \<Longrightarrow> op_target op \<in> log_ids L'"
  by (cases op) (auto split: if_splits)

lemma rollback_mutation_ok:
  assumes wf: "store_wf st" and i: "op_target (so_op so) \<in> set (order st)"
  shows "\<exists>st'. rollback_mutation pf cp so st = Ok () (st'\<lparr>next_op_seq := cp_next_op_seq cp,
      next_qso_id := cp_next_qso_id cp, undo := take (cp_undo_len cp) (undo st),
      redo := take (cp_redo_len cp) (redo st), pending_ops := take (cp_pending_ops_len cp) (pending_ops st)\<rparr>)
    \<and> store_wf st' \<and> log_of st' = log_rollback (so_op so) (log_of st)"
proof (cases "so_op so")
  case (OpInsert r)
  with i rollback_insert_ok [OF wf, of "qr_id r"] show ?thesis
    by (auto simp: rollback_mutation_def same_rest_def)
next
  case (OpPatch j p q)
  with i rollback_patch_ok [OF wf, of j pf q] show ?thesis
    by (auto simp: rollback_mutation_def same_rest_def)
next
  case (OpVoid j b)
  with i rollback_void_ok [OF wf, of j b] show ?thesis
    by (auto simp: rollback_mutation_def same_rest_def)
qed

lemma rollback_cmd:
  assumes inv: "store_inv st" and eff: "cmd_effect cmd op so st st1"
    and ex: "\<And>i b. op = OpVoid i b \<Longrightarrow> log_exact op (log_of st)"
  shows "rollback_mutation pf (take_checkpoint st) so (clear_pending_ops st1)
    = Ok () (st\<lparr>undo := take (length (undo st)) (undo st1), redo := take (length (redo st)) (redo st1),
        pending_ops := []\<rparr>)"
proof -
  let ?st = "clear_pending_ops st1"
  have L: "log_apply op (log_of st) = Some (log_of st1)" "so_op so = log_emit op (log_of st)" "store_wf st1"
    and wf: "store_wf st"
    using eff inv by (auto simp: cmd_effect_def store_inv_def)
  have clr: "store_wf ?st" "log_of ?st = log_of st1" "undo ?st = undo st1" "redo ?st = redo st1" "pending_ops ?st = []"
    using L(3) by (simp_all add: clear_pending_ops_def)
  have "op_target (so_op so) \<in> set (order ?st)"
    using op_target_in [OF L(1)] wf_log_ids [OF clr(1)] by (simp add: L(2) clr(2))
  then obtain st' where st': "rollback_mutation pf (take_checkpoint st) so ?st
        = Ok () (st'\<lparr>next_op_seq := next_op_seq st, next_qso_id := next_qso_id st,
            undo := take (length (undo st)) (undo st1), redo := take (length (redo st)) (redo st1), pending_ops := []\<rparr>)"
      "store_wf st'" "log_of st' = log_rollback (so_op so) (log_of st1)"
    using rollback_mutation_ok [OF clr(1), of so pf "take_checkpoint st"] clr by (auto simp: take_checkpoint_def)
  then have "log_of st' = log_of st"
    using log_rollback_emit [OF L(1) wf_log_distinct [OF wf] ex] by (simp add: L(2))
  then have "st'\<lparr>next_op_seq := next_op_seq st, next_qso_id := next_qso_id st,
            undo := take (length (undo st)) (undo st1), redo := take (length (redo st)) (redo st1), pending_ops := []\<rparr>
      = st\<lparr>undo := take (length (undo st)) (undo st1), redo := take (length (redo st)) (redo st1), pending_ops := []\<rparr>"
    using st'(2) wf by (intro wf_store_eqI) simp_all
  with st'(1) show ?thesis by simp
qed

text \<open>The operations a command can resolve to are exact, in a store with a history.\<close>

lemma hist_cmd_exact:
  assumes rel: "hist_rel st h" and op: "cmd_op cmd st = Some (OpVoid i b)"
  shows "log_exact (OpVoid i b) (log_of st)"
proof -
  obtain ps L fs where h: "h = (ps, L, fs)" by (cases h)
  have L: "log_of st = L" "distinct (map qr_id L)"
    using rel wf_log_distinct [of st] by (auto simp: hist_rel_def h store_inv_def)
  from rel have "chain log_apply log_exact L (rev (undo st)) ps" "chain log_apply log_exact L (rev (redo st)) fs"
    by (simp_all add: hist_rel_def h)
  with op L show ?thesis
    by (cases cmd) (auto simp: vec_pop_Some elim!: chain_ConsE)
qed

lemma rollback_plain_cmd:
  assumes "store_inv st" and "has_room st" and "cmd \<noteq> CmdUndo" and "cmd \<noteq> CmdRedo"
    and "run_cmd pf clk cmd st = Ok so st1"
  shows "rollback_mutation pf (take_checkpoint st) so (clear_pending_ops st1)
    = Ok () (st\<lparr>redo := [], pending_ops := []\<rparr>)"
proof -
  obtain op where op: "cmd_op cmd st = Some op" "cmd_effect cmd op so st st1"
    using run_cmd_cases [OF assms(1,2), of pf clk cmd] assms(5) by auto
  have "log_exact op (log_of st)" if "op = OpVoid i b" for i b
    using op(1) that assms(1,3,4) wf_log_distinct [of st]
    by (cases cmd) (auto simp: store_inv_def dest: log_find_mem)
  from rollback_cmd [OF assms(1) op(2) this, where pf = pf] show ?thesis
    using op(2) assms(3,4) by (cases cmd) (auto simp: cmd_effect_def)
qed

end
