(* ===== verification/Qso_Journal.thy ===== *)
theory Qso_Journal
  imports Qso_Rollback
begin

section \<open>Snapshots, the journal and replay\<close>

text \<open>
  A store is rebuilt from a snapshot and from the operations it has emitted. This theory
  proves that both give back the data of the store: a snapshot restores the log, and a
  replica that replays every emitted operation in order stays equal to the store in its
  log, and so in its records, order, position table and indices. It also shows that the
  emitted sequence numbers increase strictly and that the order of records only grows.
\<close>


subsection \<open>Restoring a snapshot\<close>

lemma restore_fold:
  assumes "canonical_index qr_callsign_norm (records st) (map qr_id pre) (by_call st)"
    and "canonical_index qr_contest_instance_id (records st) (map qr_id pre) (by_contest st)"
    and "\<forall>i. Mapping.lookup (records st) i = log_find i pre"
    and "distinct (map qr_id (pre @ rs))"
  shows "\<exists>rm bc bd. fold restore_record rs st = st\<lparr>records := rm, by_call := bc, by_contest := bd\<rparr> \<and>
    canonical_index qr_callsign_norm rm (map qr_id (pre @ rs)) bc \<and>
    canonical_index qr_contest_instance_id rm (map qr_id (pre @ rs)) bd \<and>
    (\<forall>i. Mapping.lookup rm i = log_find i (pre @ rs))"
  using assms
proof (induction rs arbitrary: st "pre")
  case Nil
  then show ?case
    by (intro exI [of _ "records st"] exI [of _ "by_call st"] exI [of _ "by_contest st"]) simp
next
  case (Cons r rs)
  have fresh: "qr_id r \<notin> set (map qr_id pre)" using Cons.prems(4) by auto
  then have notin: "qr_id r \<notin> log_ids pre" by (simp add: log_ids_def)
  let ?st = "restore_record r st"
  have "records ?st = Mapping.update (qr_id r) r (records st)"
      "by_call ?st = entry_push (qr_callsign_norm r) (qr_id r) (by_call st)"
      "by_contest ?st = entry_push (qr_contest_instance_id r) (qr_id r) (by_contest st)"
    by (simp_all add: restore_record_def insert_indices_def)
  moreover from this have "\<forall>i. Mapping.lookup (records ?st) i = log_find i (pre @ [r])"
    using Cons.prems(3) notin
    by (auto simp: lookup_update' log_find_append log_find_Cons log_find_None split: option.split)
      (auto simp: log_find_def log_find_None [unfolded log_find_def, symmetric])
  ultimately have "\<exists>rm bc bd. fold restore_record rs ?st = ?st\<lparr>records := rm, by_call := bc, by_contest := bd\<rparr> \<and>
    canonical_index qr_callsign_norm rm (map qr_id ((pre @ [r]) @ rs)) bc \<and>
    canonical_index qr_contest_instance_id rm (map qr_id ((pre @ [r]) @ rs)) bd \<and>
    (\<forall>i. Mapping.lookup rm i = log_find i ((pre @ [r]) @ rs))"
    using Cons.prems canonical_push [OF Cons.prems(1) refl fresh] canonical_push [OF Cons.prems(2) refl fresh]
    by (intro Cons.IH) simp_all
  then obtain rm bc bd where "fold restore_record rs ?st = ?st\<lparr>records := rm, by_call := bc, by_contest := bd\<rparr>"
      "canonical_index qr_callsign_norm rm (map qr_id (pre @ r # rs)) bc"
      "canonical_index qr_contest_instance_id rm (map qr_id (pre @ r # rs)) bd"
      "\<forall>i. Mapping.lookup rm i = log_find i (pre @ r # rs)"
    by auto
  moreover have "?st\<lparr>records := rm, by_call := bc, by_contest := bd\<rparr>
      = st\<lparr>records := rm, by_call := bc, by_contest := bd\<rparr>"
    by (simp add: restore_record_def insert_indices_def)
  ultimately show ?case by auto
qed

lemma fold_pos: "fold (\<lambda>(idx, i) st. st\<lparr>pos := Mapping.update i idx (pos st)\<rparr>) xs st
    = st\<lparr>pos := renumber xs (pos st)\<rparr>"
  by (induction xs arbitrary: st) (auto simp: renumber_def)

lemma map_find_ids: "distinct (map qr_id L) \<Longrightarrow> map (\<lambda>i. the (log_find i L)) (map qr_id L) = L"
proof (induction L)
  case (Cons r L)
  then have "map (\<lambda>i. the (log_find i (r # L))) (map qr_id L) = map (\<lambda>i. the (log_find i L)) (map qr_id L)"
    by (intro map_cong) (auto simp: log_find_Cons)
  with Cons show ?case by (simp add: log_find_Cons)
qed simp

text \<open>A snapshot whose order lists its records, without duplicates, restores its records as
  the log of a well-formed store with empty stacks and an empty queue.\<close>

definition snapshot_ok :: "store_snapshot \<Rightarrow> bool" where
  "snapshot_ok snap \<longleftrightarrow> snap_order snap = map qr_id (snap_records snap) \<and> distinct (snap_order snap)"

lemma from_snapshot_ok:
  assumes "snapshot_ok snap"
  obtains st where "from_snapshot snap = Inr st" "store_wf st" "log_of st = snap_records snap"
    "undo st = []" "redo st = []" "pending_ops st = []"
    "next_op_seq st = snap_next_op_seq snap" "next_qso_id st = snap_next_qso_id snap"
proof -
  let ?rs = "snap_records snap"
  let ?st = "default_store\<lparr>next_qso_id := snap_next_qso_id snap, next_op_seq := snap_next_op_seq snap,
    order := snap_order snap, pos := renumber (List.enumerate 0 (snap_order snap)) Mapping.empty\<rparr>"
  have ord: "snap_order snap = map qr_id ?rs" "distinct (map qr_id ?rs)"
    using assms by (auto simp: snapshot_ok_def)
  obtain rm bc bd where fld: "fold restore_record ?rs ?st = ?st\<lparr>records := rm, by_call := bc, by_contest := bd\<rparr>"
    and canon: "canonical_index qr_callsign_norm rm (map qr_id ?rs) bc"
      "canonical_index qr_contest_instance_id rm (map qr_id ?rs) bd"
    and look: "\<forall>i. Mapping.lookup rm i = log_find i ?rs"
    using restore_fold [of ?st "[]" ?rs] ord(2) by (auto simp: default_store_def canonical_empty log_find_def)
  let ?st' = "?st\<lparr>records := rm, by_call := bc, by_contest := bd\<rparr>"
  have "from_snapshot snap = Inr ?st'"
    using fld by (simp add: from_snapshot_def fold_pos default_store_def Let_def)
  moreover have "store_wf ?st'"
    using canon look ord pos_ok_enumerate [OF ord(2)] log_find_Some_id
    by (auto simp: store_wf_def log_find_None log_ids_def)
  moreover have "log_of ?st' = ?rs"
    using map_find_ids [OF ord(2)] by (simp add: log_of_def look ord(1) o_def)
  ultimately show ?thesis
    by (rule that) (simp_all add: default_store_def)
qed

lemma export_snapshot_log:
  assumes "store_wf st"
  shows "snap_records (export_snapshot st) = log_of st" "snapshot_ok (export_snapshot st)"
  using wf_filter_map [OF assms order_refl] wf_order_ids [OF assms] wf_distinct [OF assms]
  by (simp_all add: export_snapshot_def snapshot_ok_def log_of_def)


subsection \<open>Replay\<close>

text \<open>\<open>for event in events { store.apply_replayed_op(event)?; }\<close>; each step reads the clock.\<close>

fun replay_all :: "profile \<Rightarrow> (nat \<Rightarrow> int) \<Rightarrow> stored_op list \<Rightarrow> qso_store \<Rightarrow> unit store_result" where
  "replay_all pf clk [] st = Ok () st"
| "replay_all pf clk (so # sos) st =
    and_then (apply_replayed_op pf (clk 0) so st) (\<lambda>_ st1. replay_all pf (\<lambda>n. clk (Suc n)) sos st1)"

lemma replay_all_append:
  "replay_all pf clk (xs @ ys) st =
    and_then (replay_all pf clk xs st) (\<lambda>_ st1. replay_all pf (\<lambda>n. clk (length xs + n)) ys st1)"
proof (induction xs arbitrary: clk st)
  case (Cons so xs)
  show ?case by (cases "apply_replayed_op pf (clk 0) so st") (simp_all add: Cons.IH)
qed simp

text \<open>A replica of a store: the same log and next id, no stacks, and a sequence counter
  that may lag behind the gaps that failed commands leave.\<close>

definition replica :: "qso_store \<Rightarrow> qso_store \<Rightarrow> bool" where
  "replica st rs \<longleftrightarrow> store_wf rs \<and> log_of rs = log_of st \<and> next_qso_id rs = next_qso_id st \<and>
    next_op_seq rs \<le> next_op_seq st \<and> undo rs = [] \<and> redo rs = [] \<and> pending_ops rs = []"

lemma replica_data:
  assumes "replica st rs" "store_wf st"
  shows "records rs = records st \<and> order rs = order st \<and> pos rs = pos st \<and>
    by_call rs = by_call st \<and> by_contest rs = by_contest st"
  using assms by (intro wf_determined) (simp_all add: replica_def)

lemma log_apply_emit [simp]: "log_apply (log_emit op L) L = log_apply op L"
  by (cases op) simp_all

lemma op_next_id_emit [simp]: "op_next_id (log_emit op L) n = op_next_id op n"
  by (cases op) simp_all

lemma cmd_effect_op_next_id:
  assumes "cmd_effect cmd op so st st'" "store_inv st" "has_room st" "cmd_op cmd st = Some op"
  shows "op_next_id op (next_qso_id st) = next_qso_id st'"
proof (cases op)
  case (OpInsert r)
  with cmd_op_insert [OF assms(2), of cmd r] assms show ?thesis
    by (auto simp: cmd_effect_def has_room_def saturating_succ less_imp_le [OF less_succ] max_def)
next
  case (OpPatch i p q)
  with assms(1,4) show ?thesis by (cases cmd) (auto simp: cmd_effect_def)
next
  case (OpVoid i b)
  with assms(1,4) show ?thesis by (cases cmd) (auto simp: cmd_effect_def)
qed

lemma replica_effect:
  assumes eff: "cmd_effect cmd op so st st'" and inv: "store_inv st" and room: "has_room st"
    and op: "cmd_op cmd st = Some op" and rep: "replica st rs"
  obtains rs' where "apply_replayed_op pf clk so rs = Ok () rs'" "replica st' rs'" "next_op_seq rs' = so_seq so + 1"
proof -
  have so: "so_op so = log_emit op (log_of st)" "so_seq so = next_op_seq st"
    and ap: "log_apply op (log_of st) = Some (log_of st')"
    using eff by (simp_all add: cmd_effect_def)
  have rs: "store_wf rs" "log_of rs = log_of st" "next_op_seq rs \<le> next_op_seq st"
      "next_qso_id rs = next_qso_id st" "pending_ops rs = []"
    using rep by (simp_all add: replica_def)
  have "log_apply (so_op so) (log_of rs) = Some (log_of st')"
    using ap by (simp add: so rs(2))
  from apply_with_seq_Some [OF rs(1) this, of pf clk "so_seq so"] obtain x rs1 where
    rs1: "apply_with_seq pf clk (so_op so) (so_seq so) rs = Ok x rs1"
      "refined_store rs (so_seq so) (so_op so) (log_of st') rs1" by blast
  have "next_op_seq st \<noteq> u64_max" using room by (simp add: has_room_def)
  then have "max (next_op_seq rs) (saturating_add (next_op_seq st) 1) = next_op_seq st + 1"
    using order_trans [OF rs(3) less_imp_le [OF less_succ]] by (simp add: saturating_succ max_absorb2)
  with rs1(2) have rs1': "store_wf rs1" "log_of rs1 = log_of st'" "next_op_seq rs1 = next_op_seq st + 1"
      "next_qso_id rs1 = op_next_id op (next_qso_id st)" "pending_ops rs1 = []"
    using rs by (simp_all add: refined_store_def so)
  have "apply_replayed_op pf clk so rs = Ok () (rs1\<lparr>undo := [], redo := []\<rparr>)"
    using rs1(1) by (simp add: apply_replayed_op_seq)
  moreover have "replica st' (rs1\<lparr>undo := [], redo := []\<rparr>)"
    using rs1' eff cmd_effect_op_next_id [OF eff inv room op] by (simp add: replica_def cmd_effect_def)
  ultimately show ?thesis
    by (rule that) (simp add: rs1'(3) so(2))
qed

lemma replica_failure: "cmd_failure st st' \<Longrightarrow> has_room st \<Longrightarrow> replica st rs \<Longrightarrow> replica st' rs"
  by (auto simp: cmd_failure_def replica_def has_room_def dest: less_succ)


subsection \<open>The journal of a sequence of commands\<close>

text \<open>Strictly increasing sequence numbers within bounds.\<close>

definition seqs_within :: "op_seq \<Rightarrow> op_seq \<Rightarrow> stored_op list \<Rightarrow> bool" where
  "seqs_within lo hi js \<longleftrightarrow> sorted_wrt (\<lambda>a b. so_seq a < so_seq b) js \<and>
    (\<forall>so \<in> set js. lo \<le> so_seq so \<and> so_seq so < hi)"

lemma seqs_within_Nil [simp]: "seqs_within lo hi []"
  by (simp add: seqs_within_def)

lemma seqs_within_Cons:
  "seqs_within (so_seq so + 1) hi js \<Longrightarrow> so_seq so \<noteq> u64_max \<Longrightarrow> so_seq so + 1 \<le> hi \<Longrightarrow>
    seqs_within (so_seq so) hi (so # js)"
  by (fastforce simp: seqs_within_def succ_le_iff)

lemma seqs_within_mono: "seqs_within lo' hi js \<Longrightarrow> lo \<le> lo' \<Longrightarrow> seqs_within lo hi js"
  by (auto simp: seqs_within_def)

text \<open>What one run of commands adds to the queue of pending operations, and what it does to
  the order of records.\<close>

definition run_effect :: "profile \<Rightarrow> qso_store \<Rightarrow> stored_op list \<Rightarrow> qso_store \<Rightarrow> bool" where
  "run_effect pf st js st' \<longleftrightarrow> store_inv st' \<and> pending_ops st' = pending_ops st @ js \<and>
    next_op_seq st \<le> next_op_seq st' \<and> seqs_within (next_op_seq st) (next_op_seq st') js \<and>
    (\<exists>ids. order st' = order st @ ids) \<and>
    (\<forall>clk rs. replica st rs \<longrightarrow> (\<exists>rs'. replay_all pf clk js rs = Ok () rs' \<and> replica st' rs' \<and>
      next_op_seq rs' = (if js = [] then next_op_seq rs else so_seq (last js) + 1)))"

lemma log_apply_order:
  "log_apply op L = Some L' \<Longrightarrow> \<exists>ids. map qr_id L' = map qr_id L @ ids"
  by (cases op) (auto simp: map_id_update split: if_splits)

lemma effect_order:
  assumes "cmd_effect cmd op so st st'" "store_inv st"
  shows "\<exists>ids. order st' = order st @ ids"
proof -
  have "map qr_id (log_of st') = order st'" "map qr_id (log_of st) = order st"
    using assms by (auto simp: cmd_effect_def store_inv_def wf_order_ids)
  moreover have "\<exists>ids. map qr_id (log_of st') = map qr_id (log_of st) @ ids"
    using assms(1) by (intro log_apply_order [of op]) (simp add: cmd_effect_def)
  ultimately show ?thesis by simp
qed

lemma failure_order: "cmd_failure st st' \<Longrightarrow> store_inv st \<Longrightarrow> order st' = order st"
  unfolding cmd_failure_def store_inv_def by (metis wf_order_ids)

lemma run_effect_refl: "store_inv st \<Longrightarrow> run_effect pf st [] st"
  by (simp add: run_effect_def)

lemma run_effect_ok:
  assumes eff: "cmd_effect cmd op so st st1" and inv: "store_inv st" and room: "has_room st"
    and op: "cmd_op cmd st = Some op" and rest: "run_effect pf st1 js st'"
  shows "run_effect pf st (so # js) st'"
proof -
  have n: "so_seq so = next_op_seq st" "next_op_seq st1 = next_op_seq st + 1" "next_op_seq st \<noteq> u64_max"
    using eff room by (simp_all add: cmd_effect_def has_room_def)
  have hi: "next_op_seq st + 1 \<le> next_op_seq st'" "seqs_within (next_op_seq st + 1) (next_op_seq st') js"
    using rest n by (simp_all add: run_effect_def)
  have "\<exists>rs'. replay_all pf clk (so # js) rs = Ok () rs' \<and> replica st' rs' \<and>
      next_op_seq rs' = so_seq (last (so # js)) + 1" if rep: "replica st rs" for clk rs
  proof -
    obtain rs1 where "apply_replayed_op pf (clk 0) so rs = Ok () rs1" "replica st1 rs1"
        "next_op_seq rs1 = so_seq so + 1"
      using replica_effect [OF eff inv room op rep, of pf "clk 0"] by blast
    then show ?thesis
      using rest by (fastforce simp: run_effect_def)
  qed
  moreover have "\<exists>ids. order st' = order st @ ids"
    using effect_order [OF eff inv] rest by (auto simp: run_effect_def)
  moreover have "seqs_within (next_op_seq st) (next_op_seq st') (so # js)"
    using seqs_within_Cons [of so "next_op_seq st'" js] hi n by simp
  ultimately show ?thesis
    using eff rest hi(1) less_succ [OF n(3)] by (auto simp: run_effect_def cmd_effect_def)
qed

lemma run_effect_fail:
  assumes "cmd_failure st st1" "store_inv st" "has_room st" "run_effect pf st1 js st'"
  shows "run_effect pf st js st'"
proof -
  have le: "next_op_seq st \<le> next_op_seq st1"
    using assms(1,3) less_succ [of "next_op_seq st"] by (auto simp: cmd_failure_def has_room_def)
  with assms(4) show ?thesis
    using failure_order [OF assms(1,2)] replica_failure [OF assms(1,3)] assms(1)
      seqs_within_mono [of "next_op_seq st1" "next_op_seq st'" js "next_op_seq st"]
    by (auto simp: run_effect_def cmd_failure_def)
qed

lemma run_cmds_effect:
  assumes "store_inv st" "room_for (length cs) st"
  shows "\<exists>js st'. run_cmds pf cs st = Some st' \<and> run_effect pf st js st'"
  using assms
proof (induction cs arbitrary: st)
  case Nil
  then show ?case using run_effect_refl by auto
next
  case (Cons c cs)
  obtain clk cmd where c: "c = (clk, cmd)" by fastforce
  have room: "room_for (Suc (length cs)) st" using Cons.prems(2) by simp
  note hr = room_for_Suc [OF room]
  from run_cmd_cases [OF Cons.prems(1) hr, of pf clk cmd] show ?case
  proof cases
    case (1 op so st1)
    have "room_for (length cs) st1"
      by (rule room_for_step [OF room]) (use 1(3) in \<open>auto simp: cmd_effect_def split: store_cmd.splits\<close>)
    with Cons.IH [OF cmd_effect_inv [OF 1(3)]] obtain js st' where
      "run_cmds pf cs st1 = Some st'" "run_effect pf st1 js st'" by blast
    with run_effect_ok [OF 1(3) Cons.prems(1) hr 1(2)] 1(1) show ?thesis by (auto simp: c)
  next
    case (2 e st1)
    have "room_for (length cs) st1" "store_inv st1"
      using 2(2) by (auto intro: room_for_step [OF room] simp: cmd_failure_def)
    with Cons.IH obtain js st' where
      "run_cmds pf cs st1 = Some st'" "run_effect pf st1 js st'" by blast
    with run_effect_fail [OF 2(2) Cons.prems(1) hr] 2(1) show ?thesis by (auto simp: c)
  qed
qed

text \<open>A snapshot of a store is a replica of it.\<close>

lemma snapshot_replica:
  assumes "store_wf st"
  obtains rs where "from_snapshot (export_snapshot st) = Inr rs" "replica st rs"
    "next_op_seq rs = next_op_seq st"
proof -
  obtain rs where rs: "from_snapshot (export_snapshot st) = Inr rs" "store_wf rs" "log_of rs = log_of st"
      "undo rs = []" "redo rs = []" "pending_ops rs = []"
      "next_op_seq rs = next_op_seq st" "next_qso_id rs = next_qso_id st"
    using from_snapshot_ok [OF export_snapshot_log(2) [OF assms]] export_snapshot_log(1) [OF assms]
    by (auto simp: export_snapshot_def)
  then show ?thesis by (intro that [of rs]) (simp_all add: replica_def)
qed

lemma replica_new: "replica new_store new_store"
  by (simp add: replica_def) (simp add: new_store_def default_store_def)

end
