(* ===== verification/Qso_Store_Properties.thy ===== *)
theory Qso_Store_Properties
  imports Qso_Journal
begin

section \<open>Properties of the store\<close>

text \<open>
  What the in-memory store promises, stated on the methods of \<^verbatim>\<open>src/core/store.rs\<close> and
  derived from the log refinement, the zipper simulation, the rollback lemmas and the
  replay lemmas. Each property that has a hypothesis is followed by a concrete instance.
\<close>


subsection \<open>Every run\<close>

text \<open>C2. A store that starts empty and receives fewer than 2^64 - 1 commands never panics, in
  the checked and in the release profile: no counter overflows, no index operation is out of
  range, no debug assertion fails. Every reached store satisfies the representation invariant:
  position table, callsign index and contest index all agree with the records and their order.\<close>
theorem run_never_panics:
  assumes "length cs < 18446744073709551615"
  shows "\<exists>st. run_cmds pf cs new_store = Some st \<and> store_inv st"
  by (rule run_cmds_total [OF store_inv_new room_for_new [OF assms]])

theorem run_never_panics_witness:
  "\<exists>st. run_cmds dev_profile sample_cmds new_store = Some st \<and> store_inv st"
  by (rule run_never_panics) (simp add: sample_cmds_def)

lemma hist_rel_run_new:
  assumes "length cs < 18446744073709551615" "\<forall>c \<in> set cs. cmd_live (snd c)"
  shows "\<exists>st. run_cmds pf cs new_store = Some st \<and> hist_rel st (hist_run cs 1 ([], [], []))"
  using hist_simulation_run [OF hist_rel_new, of cs 0 pf] assms room_for_new [OF assms(1)]
  by (simp add: new_store_def default_store_def) blast

text \<open>C3. Undo and redo implement an editor history. A run of commands (inserting drafts that
  are not void) leaves the log that the history zipper computes, with one undo entry per past
  log and one redo entry per future log; undoing an insert leaves its record in the log, void.\<close>
theorem run_refines_history:
  assumes "length cs < 18446744073709551615" and "\<forall>c \<in> set cs. cmd_live (snd c)"
    and "hist_run cs 1 ([], [], []) = (past, present, future)"
  shows "\<exists>st. run_cmds pf cs new_store = Some st \<and> log_of st = present \<and>
    undo_len st = length past \<and> redo_len st = length future"
  using hist_rel_run_new [OF assms(1,2), of pf] chain_length assms(3)
  by (fastforce simp: hist_rel_def undo_len_def redo_len_def)

theorem run_refines_history_witness:
  "\<exists>st. run_cmds dev_profile (sample_cmds @ [(1, CmdUndo), (2, CmdUndo), (3, CmdRedo)]) new_store = Some st \<and>
    undo_len st = 3 \<and> redo_len st = 1"
proof -
  obtain ps L fs where h: "hist_run (sample_cmds @ [(1, CmdUndo), (2, CmdUndo), (3, CmdRedo)]) 1 ([], [], []) = (ps, L, fs)"
    by (metis prod_cases3)
  moreover from this have "length ps = 3 \<and> length fs = 1"
    by (auto simp: sample_cmds_def sample_draft_def log_grow_def Let_def record_of_draft_def log_find_def
        set_void_def call_patch_def default_patch_def apply_to_def if_some_def log_update_def)
  ultimately show ?thesis
    using run_refines_history [OF _ _ h, of dev_profile]
    by (auto simp: sample_cmds_def sample_draft_def)
qed

text \<open>C11. After any run of commands in which no draft is entered void, undoing any number of the
  steps on the stack and redoing as many gives back the records, the order, the position table
  and both indices exactly. For a draft that is entered void it is not so, see
  \<open>redo_revives_void_draft\<close>.\<close>
theorem undo_redo_roundtrip:
  assumes "length cs + length us + length rs < 18446744073709551615" and "\<forall>c \<in> set cs. cmd_live (snd c)"
    and "run_cmds pf cs new_store = Some st" and "length us = length rs" and "length us \<le> undo_len st"
  shows "\<exists>st'. run_cmds pf (undos us @ redos rs) st = Some st' \<and> records st' = records st \<and>
    order st' = order st \<and> pos st' = pos st \<and> by_call st' = by_call st \<and> by_contest st' = by_contest st"
proof -
  have "room_for (length cs + (length us + length rs)) new_store"
    using assms(1) by (intro room_for_new) simp
  then have "hist_rel st (hist_run cs 1 ([], [], []))" "room_for (length us + length rs) st"
    using hist_simulation_run [OF hist_rel_new, of cs "length us + length rs" pf] assms(2,3)
    by (auto simp: new_store_def default_store_def)
  with undos_redos_store [OF _ _ assms(4) assms(5) [unfolded undo_len_def], of _ pf] show ?thesis by blast
qed

theorem undo_redo_roundtrip_witness:
  "\<exists>st'. run_cmds dev_profile (undos [1, 2, 3] @ redos [4, 5, 6]) sample_store = Some st' \<and>
    records st' = records sample_store"
proof -
  have "length [1::int, 2, 3] \<le> undo_len sample_store" by code_simp
  then show ?thesis
    using undo_redo_roundtrip [OF _ _ sample_store_run, of "[1, 2, 3]" "[4, 5, 6]"]
    by (auto simp: sample_cmds_def sample_draft_def)
qed



subsection \<open>Journal, snapshots and replay\<close>

text \<open>C10. The journal is complete: replaying the emitted operations of a run, in order, onto an
  empty store never fails and rebuilds the records, the order, the position table, both
  indices and the next id of the store; the sequence counter ends just after the last
  operation.\<close>
theorem journal_replay:
  assumes "length cs < 18446744073709551615" and "run_cmds pf cs new_store = Some st"
  shows "\<exists>rs. replay_all pf clk (pending_ops st) new_store = Ok () rs \<and>
    records rs = records st \<and> order rs = order st \<and> pos rs = pos st \<and>
    by_call rs = by_call st \<and> by_contest rs = by_contest st \<and> next_qso_id rs = next_qso_id st \<and>
    next_op_seq rs = (if pending_ops st = [] then 1 else so_seq (last (pending_ops st)) + 1)"
proof -
  obtain js where js: "run_effect pf new_store js st"
    using run_cmds_effect [OF store_inv_new room_for_new [OF assms(1)], of pf] assms(2) by auto
  then have pend: "js = pending_ops st" and wf: "store_wf st"
    by (auto simp: run_effect_def store_inv_def) (simp add: new_store_def default_store_def)
  obtain rs where rs: "replay_all pf clk js new_store = Ok () rs" "replica st rs"
      "next_op_seq rs = (if js = [] then next_op_seq new_store else so_seq (last js) + 1)"
    using js replica_new by (auto simp: run_effect_def)
  moreover have "next_op_seq new_store = 1" by (simp add: new_store_def)
  ultimately show ?thesis
    using replica_data [OF rs(2) wf] pend by (auto simp: replica_def)
qed

theorem journal_replay_witness:
  "\<exists>rs. replay_all dev_profile (\<lambda>_. 0) (pending_ops sample_store) new_store = Ok () rs \<and>
    by_call rs = by_call sample_store \<and> next_op_seq rs = 5 \<and> next_op_seq sample_store = 6"
proof -
  have "map so_seq (pending_ops sample_store) = [1, 2, 3, 4]" "next_op_seq sample_store = 6" by code_simp+
  moreover from this have "pending_ops sample_store \<noteq> []" "so_seq (last (pending_ops sample_store)) = 4"
    by (auto simp flip: last_map)
  ultimately show ?thesis
    using journal_replay [OF _ sample_store_run, of "\<lambda>_. 0"] by (auto simp: sample_cmds_def)
qed

text \<open>Restart from a snapshot: restoring the snapshot taken after a first run and replaying
  the operations that a second run emits after it rebuilds the data of the final store.\<close>
theorem snapshot_and_tail_replay:
  assumes "length cs + length ds < 18446744073709551615"
    and "run_cmds pf cs new_store = Some st" and "run_cmds pf ds st = Some st'"
  shows "\<exists>rs0 rs. from_snapshot (export_snapshot st) = Inr rs0 \<and>
    replay_all pf clk (drop (length (pending_ops st)) (pending_ops st')) rs0 = Ok () rs \<and>
    records rs = records st' \<and> order rs = order st' \<and> pos rs = pos st' \<and>
    by_call rs = by_call st' \<and> by_contest rs = by_contest st' \<and> next_qso_id rs = next_qso_id st'"
proof -
  obtain st1 where "run_cmds pf cs new_store = Some st1" "store_inv st1" "room_for (length ds) st1"
    using run_cmds_room [OF store_inv_new, of cs "length ds" pf] room_for_new [OF assms(1)] by auto
  then have inv: "store_inv st" "room_for (length ds) st" using assms(2) by auto
  then obtain js where js: "run_effect pf st js st'"
    using run_cmds_effect [of st ds pf] assms(3) by auto
  have wf: "store_wf st" "store_wf st'" using js inv by (simp_all add: run_effect_def store_inv_def)
  obtain rs0 where rs0: "from_snapshot (export_snapshot st) = Inr rs0" "replica st rs0"
    using snapshot_replica [OF wf(1)] by blast
  then obtain rs where rs: "replay_all pf clk js rs0 = Ok () rs" "replica st' rs"
    using js by (auto simp: run_effect_def)
  moreover have "drop (length (pending_ops st)) (pending_ops st') = js"
    using js by (simp add: run_effect_def)
  ultimately show ?thesis
    using rs0(1) replica_data [OF rs(2) wf(2)] by (auto simp: replica_def)
qed

theorem snapshot_and_tail_replay_witness:
  "\<exists>rs0 rs st'. run_cmds dev_profile [(9, CmdUndo), (9, CmdInsert (sample_draft ''K3C''))] sample_store = Some st' \<and>
    from_snapshot (export_snapshot sample_store) = Inr rs0 \<and>
    replay_all dev_profile (\<lambda>_. 0) (drop (length (pending_ops sample_store)) (pending_ops st')) rs0 = Ok () rs \<and>
    records rs = records st' \<and> by_contest rs = by_contest st'"
proof -
  let ?ds = "[(9, CmdUndo), (9, CmdInsert (sample_draft ''K3C''))]"
  have "room_for (length ?ds) sample_store" by (simp add: room_for_sample)
  then obtain st' where "run_cmds dev_profile ?ds sample_store = Some st'"
    using run_cmds_total [OF sample_store_inv] by blast
  with snapshot_and_tail_replay [OF _ sample_store_run this, of "\<lambda>_. 0"] show ?thesis
    by (fastforce simp: sample_cmds_def)
qed

text \<open>\<open>from_snapshot\<close> is the inverse of \<open>export_snapshot\<close> up to the two stacks and the
  queue, which a snapshot does not hold: every index comes back as it was.\<close>
theorem snapshot_roundtrip:
  assumes "store_inv st"
  shows "from_snapshot (export_snapshot st) = Inr (st\<lparr>undo := [], redo := [], pending_ops := []\<rparr>)"
proof -
  have wf: "store_wf st" using assms by (simp add: store_inv_def)
  obtain rs where rs: "from_snapshot (export_snapshot st) = Inr rs" "replica st rs" "next_op_seq rs = next_op_seq st"
    using snapshot_replica [OF wf] by blast
  then have "rs = st\<lparr>undo := [], redo := [], pending_ops := []\<rparr>"
    using wf by (intro wf_store_eqI) (simp_all add: replica_def)
  with rs(1) show ?thesis by simp
qed

theorem snapshot_roundtrip_witness:
  "from_snapshot (export_snapshot sample_store) = Inr (sample_store\<lparr>undo := [], redo := [], pending_ops := []\<rparr>)"
  by (rule snapshot_roundtrip [OF sample_store_inv])

text \<open>Sequence numbers: the operations emitted by a run carry strictly increasing numbers,
  all at least the counter before the run and below the counter after it.\<close>
theorem journal_strictly_increasing:
  assumes "store_inv st" and "room_for (length cs) st" and "run_cmds pf cs st = Some st'"
  shows "\<exists>js. pending_ops st' = pending_ops st @ js \<and> sorted_wrt (\<lambda>a b. so_seq a < so_seq b) js \<and>
    (\<forall>so \<in> set js. next_op_seq st \<le> so_seq so \<and> so_seq so < next_op_seq st')"
  using run_cmds_effect [OF assms(1,2), of pf] assms(3) by (auto simp: run_effect_def seqs_within_def)

theorem journal_strictly_increasing_witness:
  "\<exists>js. pending_ops sample_store = pending_ops new_store @ js \<and> sorted_wrt (\<lambda>a b. so_seq a < so_seq b) js"
  using journal_strictly_increasing [OF store_inv_new _ sample_store_run] room_for_new [of "length sample_cmds"]
  by (auto simp: sample_cmds_def)


subsection \<open>Rollback\<close>

text \<open>C9. Rolling back an insert, a patch or a void, with the checkpoint taken before it,
  restores the whole store, every index and counter included, except the redo stack: the
  mutation had cleared it, and a truncation cannot bring the entries back.\<close>
theorem rollback_restores_store:
  assumes "store_inv st" and "has_room st" and "cmd \<noteq> CmdUndo" and "cmd \<noteq> CmdRedo"
    and "run_cmd pf clk cmd st = Ok so st1"
  shows "rollback_mutation pf (take_checkpoint st) so (clear_pending_ops st1)
    = Ok () (st\<lparr>redo := [], pending_ops := []\<rparr>)"
  using assms by (rule rollback_plain_cmd)

theorem rollback_restores_store_witness:
  "\<exists>so st1. run_cmd dev_profile 7 (CmdPatch 1 (call_patch ''K9Z'')) sample_store = Ok so st1 \<and>
    rollback_mutation dev_profile (take_checkpoint sample_store) so (clear_pending_ops st1)
      = Ok () (sample_store\<lparr>redo := [], pending_ops := []\<rparr>)"
proof -
  have "\<not> (case run_cmd dev_profile 7 (CmdPatch 1 (call_patch ''K9Z'')) sample_store of Ok so st1 \<Rightarrow> False | _ \<Rightarrow> True)"
    by code_simp
  then obtain so st1 where "run_cmd dev_profile 7 (CmdPatch 1 (call_patch ''K9Z'')) sample_store = Ok so st1"
    by (auto split: result.splits)
  with rollback_restores_store [OF sample_store_inv has_room_sample _ _ this] show ?thesis by auto
qed

text \<open>C33. Rolling back an undo or a redo restores the data and the counters of any well-formed store,
  and the other stack, but the popped entry is lost: a rejected undo cannot be undone again. The
  condition is that the operation, if it is a void, carries the flag its record had. It always
  holds in a run without void drafts whose mutations are all accepted (\<open>undo_entry_is_exact\<close>); after
  a rejected undo has dropped its entry it may fail, see \<open>rejected_undos_corrupt_record\<close>.\<close>
theorem rollback_of_undo_drops_entry:
  assumes "store_inv st" and "has_room st" and "cmd = CmdUndo \<or> cmd = CmdRedo"
    and "run_cmd pf clk cmd st = Ok so st1"
    and "\<And>i b. so_op so = OpVoid i b \<Longrightarrow> map_option (\<lambda>r. is_void (qr_flags r)) (store_get i st) = Some b"
  shows "rollback_mutation pf (take_checkpoint st) so (clear_pending_ops st1)
    = Ok () (if cmd = CmdUndo then st\<lparr>undo := butlast (undo st), pending_ops := []\<rparr>
             else st\<lparr>redo := butlast (redo st), pending_ops := []\<rparr>)"
proof -
  have wf: "store_wf st" using assms(1) by (simp add: store_inv_def)
  obtain op where op: "cmd_op cmd st = Some op" "cmd_effect cmd op so st st1"
    using run_cmd_cases [OF assms(1,2), of pf clk cmd] assms(4) by auto
  have "log_exact op (log_of st)" if "op = OpVoid i b" for i b
    using op(2) that assms(5) [of i b] wf_log_distinct [OF wf]
    by (auto simp: cmd_effect_def store_get_def wf_lookup [OF wf])
  from rollback_cmd [OF assms(1) op(2) this, where pf = pf] show ?thesis
    using op(2) assms(3) by (auto simp: cmd_effect_def)
qed

lemma undo_entry_is_exact:
  assumes "length cs < 18446744073709551614" "\<forall>c \<in> set cs. cmd_live (snd c)"
    and "run_cmds pf cs new_store = Some st" "cmd = CmdUndo \<or> cmd = CmdRedo"
    and "run_cmd pf clk cmd st = Ok so st1" "so_op so = OpVoid i b"
  shows "map_option (\<lambda>r. is_void (qr_flags r)) (store_get i st) = Some b"
proof -
  have "room_for (length cs + 1) new_store" using assms(1) by (intro room_for_new) simp
  then have rel: "hist_rel st (hist_run cs 1 ([], [], []))" and hr: "has_room st"
    using hist_simulation_run [OF hist_rel_new, of cs 1 pf] assms(2,3) room_for_Suc [of 0]
    by (auto simp: new_store_def default_store_def)
  then have inv: "store_inv st" by (auto simp: hist_rel_def split: prod.splits)
  then have wf: "store_wf st" by (simp add: store_inv_def)
  obtain op where op: "cmd_op cmd st = Some op" "cmd_effect cmd op so st st1"
    using run_cmd_cases [OF inv hr, of pf clk cmd] assms(5) by auto
  then have "op = OpVoid i b" using assms(6) by (cases op) (auto simp: cmd_effect_def)
  with hist_cmd_exact [OF rel] op(1) have "log_exact op (log_of st)" by simp
  with \<open>op = OpVoid i b\<close> show ?thesis
    by (auto simp: store_get_def wf_lookup [OF wf] split: option.splits)
qed

theorem rollback_of_undo_drops_entry_witness:
  "\<exists>so st1. run_cmd dev_profile 7 CmdUndo sample_store = Ok so st1 \<and> so_op so = OpVoid 2 True \<and>
    rollback_mutation dev_profile (take_checkpoint sample_store) so (clear_pending_ops st1)
      = Ok () (sample_store\<lparr>undo := butlast (undo sample_store), pending_ops := []\<rparr>)"
proof -
  have "(case run_cmd dev_profile 7 CmdUndo sample_store of Ok so st1 \<Rightarrow> so_op so = OpVoid 2 True | _ \<Rightarrow> False)"
    by code_simp
  then obtain so st1 where run: "run_cmd dev_profile 7 CmdUndo sample_store = Ok so st1" "so_op so = OpVoid 2 True"
    by (auto split: result.splits)
  have "map_option (\<lambda>r. is_void (qr_flags r)) (store_get 2 sample_store) = Some True" by code_simp
  with run(2) have "\<And>i b. so_op so = OpVoid i b \<Longrightarrow>
      map_option (\<lambda>r. is_void (qr_flags r)) (store_get i sample_store) = Some b" by auto
  from rollback_of_undo_drops_entry [OF sample_store_inv has_room_sample _ run(1) this] run show ?thesis by auto
qed


subsection \<open>The mutations, branch by branch\<close>

lemma stored_op_eqI:
  "so_seq so = n \<Longrightarrow> so_ts_ms so = t \<Longrightarrow> so_op so = op \<Longrightarrow> so = \<lparr>so_seq = n, so_ts_ms = t, so_op = op\<rparr>"
  by (cases so) simp

lemma record_of_draft_id [simp]: "qr_id (record_of_draft i d) = i"
  by (simp add: record_of_draft_def)

text \<open>C34. \<open>insert\<close> on any well-formed store with room: it succeeds, returns the next id, appends
  the draft's record under that id, emits one insert operation with the next sequence number
  and the clock's time, queues that operation behind the pending ones, pushes its compensation
  and clears the redo stack.\<close>
theorem insert_appends_record:
  assumes "store_inv st" and "has_room st"
  shows "\<exists>st'. store_insert pf clk d st = Ok (next_qso_id st,
      \<lparr>so_seq = next_op_seq st, so_ts_ms = now_ms clk, so_op = OpInsert (record_of_draft (next_qso_id st) d)\<rparr>) st' \<and>
    log_of st' = log_of st @ [record_of_draft (next_qso_id st) d] \<and> store_inv st' \<and>
    undo st' = undo st @ [OpVoid (next_qso_id st) False] \<and> redo st' = [] \<and>
    pending_ops st' = pending_ops st @ [\<lparr>so_seq = next_op_seq st, so_ts_ms = now_ms clk,
      so_op = OpInsert (record_of_draft (next_qso_id st) d)\<rparr>] \<and>
    next_qso_id st' = next_qso_id st + 1 \<and> next_op_seq st' = next_op_seq st + 1"
proof -
  obtain so st' where run: "run_cmd pf clk (CmdInsert d) st = Ok so st'"
      "cmd_effect (CmdInsert d) (OpInsert (record_of_draft (next_qso_id st) d)) so st st'"
      "so_ts_ms so = now_ms clk"
    using run_cmd_Ok [OF assms _ cmd_insert_applies [OF assms(1)], of "CmdInsert d" d pf clk] by auto
  from run(1) obtain i where "store_insert pf clk d st = Ok (i, so) st'"
    by (auto simp: and_then_Ok_iff)
  moreover from this have "i = next_qso_id st"
    by (auto simp: store_insert_def and_then_Ok_iff Let_def split: option.splits)
  ultimately show ?thesis
    using run(2,3) cmd_insert_applies [OF assms(1), of d] stored_op_eqI [of so]
    by (auto simp: cmd_effect_def record_of_draft_id)
qed

theorem insert_appends_record_witness:
  "\<exists>st'. store_insert dev_profile 5000000 (sample_draft ''K3C'') sample_store = Ok (3,
      \<lparr>so_seq = 6, so_ts_ms = 5, so_op = OpInsert (record_of_draft 3 (sample_draft ''K3C''))\<rparr>) st'"
proof -
  have "next_op_seq sample_store = 6" "next_qso_id sample_store = 3" "now_ms 5000000 = 5" by code_simp+
  then show ?thesis
    using insert_appends_record [OF sample_store_inv has_room_sample, of dev_profile 5000000 "sample_draft ''K3C''"]
    by auto
qed

text \<open>C35. \<open>patch\<close> on a record of the log: the record alone is replaced by the patched one, in
  its place; the operation emitted carries the patch and the previous values of exactly the
  fields it sets, and is queued behind the pending ones; both indices follow; the undo stack gets
  the inverse, the redo stack is cleared, one sequence number and no id is taken.\<close>
theorem patch_updates_record:
  assumes "store_inv st" and "has_room st" and "log_find i (log_of st) = Some r"
  shows "\<exists>st'. store_patch pf clk i p st = Ok
      \<lparr>so_seq = next_op_seq st, so_ts_ms = now_ms clk, so_op = OpPatch i p (capture_inverse_for p r)\<rparr> st' \<and>
    log_of st' = log_update i (apply_to p) (log_of st) \<and> store_inv st' \<and>
    undo st' = undo st @ [OpPatch i (capture_inverse_for p r) p] \<and> redo st' = [] \<and>
    pending_ops st' = pending_ops st @ [\<lparr>so_seq = next_op_seq st, so_ts_ms = now_ms clk,
      so_op = OpPatch i p (capture_inverse_for p r)\<rparr>] \<and>
    next_op_seq st' = next_op_seq st + 1 \<and> next_qso_id st' = next_qso_id st"
proof -
  have "log_apply (OpPatch i p default_patch) (log_of st) = Some (log_update i (apply_to p) (log_of st))"
    using log_find_mem [OF assms(3)] by simp
  from run_cmd_Ok [OF assms(1,2) _ this, of "CmdPatch i p" pf clk] assms(3) stored_op_eqI show ?thesis
    by (fastforce simp: cmd_effect_def)
qed

theorem patch_updates_record_witness:
  "\<exists>st'. store_patch dev_profile 7 1 (call_patch ''K9Z'') sample_store = Ok
      \<lparr>so_seq = 6, so_ts_ms = 0, so_op = OpPatch 1 (call_patch ''K9Z'') (call_patch ''K2B'')\<rparr> st'"
proof -
  have n: "next_op_seq sample_store = 6" "now_ms 7 = 0" by code_simp+
  have "(case log_find 1 (log_of sample_store) of None \<Rightarrow> False
      | Some r \<Rightarrow> capture_inverse_for (call_patch ''K9Z'') r = call_patch ''K2B'')" by code_simp
  then obtain r where "log_find 1 (log_of sample_store) = Some r"
      "capture_inverse_for (call_patch ''K9Z'') r = call_patch ''K2B''"
    by (auto split: option.splits)
  with patch_updates_record [OF sample_store_inv has_room_sample this(1), of dev_profile 7 "call_patch ''K9Z''"] n
  show ?thesis by auto
qed

text \<open>C36. \<open>void\<close> on a record of the log toggles its void flag and no other record or field; it queues
  the operation with the previous flag behind the pending ones, pushes the inverse, clears the
  redo stack, and takes one sequence number and no id.\<close>
theorem void_toggles_flag:
  assumes "store_inv st" and "has_room st" and "log_find i (log_of st) = Some r"
  shows "\<exists>st'. store_void pf clk i st = Ok
      \<lparr>so_seq = next_op_seq st, so_ts_ms = now_ms clk, so_op = OpVoid i (is_void (qr_flags r))\<rparr> st' \<and>
    log_of st' = log_update i (set_void (\<not> is_void (qr_flags r))) (log_of st) \<and> store_inv st' \<and>
    undo st' = undo st @ [OpVoid i (\<not> is_void (qr_flags r))] \<and> redo st' = [] \<and>
    pending_ops st' = pending_ops st @ [\<lparr>so_seq = next_op_seq st, so_ts_ms = now_ms clk,
      so_op = OpVoid i (is_void (qr_flags r))\<rparr>] \<and>
    next_op_seq st' = next_op_seq st + 1 \<and> next_qso_id st' = next_qso_id st"
proof -
  let ?b = "is_void (qr_flags r)"
  have "log_apply (OpVoid i ?b) (log_of st) = Some (log_update i (set_void (\<not> ?b)) (log_of st))"
    using log_find_mem [OF assms(3)] by simp
  from run_cmd_Ok [OF assms(1,2) _ this, of "CmdVoid i" pf clk] assms(3) stored_op_eqI show ?thesis
    by (fastforce simp: cmd_effect_def)
qed

theorem void_toggles_flag_witness:
  "\<exists>st'. store_void dev_profile 7 2 sample_store = Ok \<lparr>so_seq = 6, so_ts_ms = 0, so_op = OpVoid 2 True\<rparr> st'"
proof -
  have n: "next_op_seq sample_store = 6" "now_ms 7 = 0" by code_simp+
  have "(case log_find 2 (log_of sample_store) of None \<Rightarrow> False | Some r \<Rightarrow> is_void (qr_flags r))" by code_simp
  then obtain r where "log_find 2 (log_of sample_store) = Some r" "is_void (qr_flags r)"
    by (auto split: option.splits)
  with void_toggles_flag [OF sample_store_inv has_room_sample this(1), of dev_profile 7] n
  show ?thesis by auto
qed

text \<open>C37. A mutation of a missing record, and an undo or redo with an empty stack, return their
  error and leave every field of the store as it was, but for one: a failed \<open>patch\<close> has
  consumed a sequence number, for which no operation is emitted.\<close>
theorem failed_mutation_effect:
  assumes "store_wf st" and "next_op_seq st \<noteq> u64_max" and "i \<notin> set (order st)"
  shows "store_patch pf clk i p st = Err (MissingQso i) (st\<lparr>next_op_seq := next_op_seq st + 1\<rparr>) \<and>
    store_void pf clk i st = Err (MissingQso i) st \<and>
    store_undo pf clk (st\<lparr>undo := []\<rparr>) = Err NothingToUndo (st\<lparr>undo := []\<rparr>) \<and>
    store_redo pf clk (st\<lparr>redo := []\<rparr>) = Err NothingToRedo (st\<lparr>redo := []\<rparr>)"
proof -
  have "Mapping.lookup (records st) i = None" using assms(1,3) by (simp add: store_wf_def)
  moreover have "apply_op pf clk (OpPatch i p default_patch) st
      = Err (MissingQso i) (st\<lparr>next_op_seq := next_op_seq st + 1\<rparr>)"
    using apply_op_Err [OF assms(1,2), of "OpPatch i p default_patch"] assms(3)
    by (simp add: wf_log_ids [OF assms(1)])
  ultimately show ?thesis
    by (simp add: store_patch_def store_void_def store_undo_def store_redo_def)
qed

theorem failed_mutation_effect_witness:
  "store_patch dev_profile 7 9 default_patch sample_store
      = Err (MissingQso 9) (sample_store\<lparr>next_op_seq := next_op_seq sample_store + 1\<rparr>)"
proof -
  have "9 \<notin> set (order sample_store)" "next_op_seq sample_store \<noteq> u64_max" by code_simp+
  with failed_mutation_effect [of sample_store 9] sample_store_inv show ?thesis
    by (simp add: store_inv_def)
qed


subsection \<open>Queries and order\<close>

text \<open>C12. The callsign query answers from the index what a full scan of the log answers: the
  records with that normalised callsign, in insertion order.\<close>
theorem by_call_is_full_scan:
  assumes "store_inv st"
  shows "store_by_call call st = filter (\<lambda>r. qr_callsign_norm r = call) (log_of st)"
proof -
  have wf: "store_wf st" using assms by (simp add: store_inv_def)
  let ?ids = "matching qr_callsign_norm (records st) (order st) call"
  have sub: "set ?ids \<subseteq> set (order st)" by (auto simp: matching_def)
  have "store_by_call call st = filter_map (Mapping.lookup (records st)) ?ids"
    using wf by (auto simp: store_wf_def canonical_index_def store_by_call_def split: option.splits if_splits)
  also have "\<dots> = map (\<lambda>i. the (Mapping.lookup (records st) i)) ?ids"
    by (rule wf_filter_map [OF wf sub])
  also have "\<dots> = filter (\<lambda>r. qr_callsign_norm r = call) (log_of st)"
  proof -
    have "has_key qr_callsign_norm (records st) call i \<longleftrightarrow> qr_callsign_norm (the (Mapping.lookup (records st) i)) = call"
      if "i \<in> set (order st)" for i
      using wf_find [OF wf that] by (metis has_key_Some option.sel)
    then show ?thesis
      by (simp add: matching_def log_of_def filter_map o_def cong: filter_cong)
  qed
  finally show ?thesis .
qed

theorem by_call_is_full_scan_witness:
  "store_by_call ''K2B'' sample_store = filter (\<lambda>r. qr_callsign_norm r = ''K2B'') (log_of sample_store) \<and>
    map qr_id (store_by_call ''K2B'' sample_store) = [1, 2] \<and> store_by_call ''K1A'' sample_store = []"
proof -
  have "map qr_id (store_by_call ''K2B'' sample_store) = [1, 2]" "store_by_call ''K1A'' sample_store = []"
    by code_simp+
  then show ?thesis
    using by_call_is_full_scan [OF sample_store_inv, of "''K2B''"] by blast
qed

text \<open>\<open>recent(n)\<close> is the last \<open>n\<close> records of the log, and \<open>get\<close> finds the record of an id
  in the log.\<close>
theorem recent_and_get_read_the_log:
  assumes "store_inv st"
  shows "store_recent n st = drop (length (log_of st) - n) (log_of st) \<and> store_get i st = log_find i (log_of st)"
proof -
  have wf: "store_wf st" using assms by (simp add: store_inv_def)
  have "set (drop k (order st)) \<subseteq> set (order st)" for k by (rule set_drop_subset)
  from wf_filter_map [OF wf this]
  have "store_recent n st = drop (length (log_of st) - n) (log_of st)"
    by (simp add: store_recent_def Let_def log_of_def drop_map)
  then show ?thesis
    by (simp add: store_get_def wf_lookup [OF wf])
qed

theorem recent_and_get_read_the_log_witness:
  "store_recent 1 sample_store = drop (length (log_of sample_store) - 1) (log_of sample_store) \<and>
    map qr_id (store_recent 1 sample_store) = [2]"
proof -
  have "map qr_id (store_recent 1 sample_store) = [2]" by code_simp
  with recent_and_get_read_the_log [OF sample_store_inv, of 1 1] show ?thesis by simp
qed

text \<open>C23. The insertion order is canonical and never reorders: from any well-formed store with room,
  whatever commands run, with or without errors, the old order is a prefix of the new one, and \<open>ordered_ids\<close> has no duplicate.\<close>
theorem order_never_reorders:
  assumes "store_inv st" and "room_for (length cs) st" and "run_cmds pf cs st = Some st'"
  shows "\<exists>ids. ordered_ids st' = ordered_ids st @ ids \<and> distinct (ordered_ids st')"
  using run_cmds_effect [OF assms(1,2), of pf] assms(3) wf_distinct
  by (auto simp: run_effect_def ordered_ids_def store_inv_def)

theorem order_never_reorders_witness:
  "\<exists>ids. ordered_ids sample_store = ordered_ids new_store @ ids \<and> distinct (ordered_ids sample_store)"
  using order_never_reorders [OF store_inv_new _ sample_store_run] room_for_new [of "length sample_cmds"]
  by (auto simp: sample_cmds_def)

text \<open>The ordered insertion into an index entry: when the entry lists, in insertion order,
  some of the ids and not yet the new one, the binary search over the position table finds the
  one place that keeps the entry in insertion order; it never panics.\<close>
theorem insert_id_ordered_keeps_order:
  assumes "pos_ok ord pm" and "i \<in> set ord" and "\<not> P i"
  shows "insert_id_ordered (filter P ord) i pm = Some (filter (\<lambda>v. v = i \<or> P v) ord)"
  using assms by (rule insert_id_ordered_filter)

theorem insert_id_ordered_keeps_order_witness:
  "insert_id_ordered (filter (\<lambda>v. v \<noteq> 1) (order sample_store)) 1 (pos sample_store) = Some [1, 2]"
proof -
  have "pos_ok (order sample_store) (pos sample_store)"
    using sample_store_inv by (simp add: store_inv_def store_wf_def)
  moreover have "order sample_store = [1, 2]" by code_simp
  ultimately show ?thesis
    using insert_id_ordered_keeps_order [of "order sample_store" "pos sample_store" 1 "\<lambda>v. v \<noteq> 1"] by simp
qed

text \<open>C38. \<open>capture_inverse_for\<close> followed by \<open>apply_to\<close> is exact for every patch and every
  record: applying the captured patch after the patch gives the record back, and capturing
  the captured patch against the patched record gives the original patch back.\<close>
theorem captured_patch_is_inverse:
  "apply_to (capture_inverse_for p r) (apply_to p r) = r \<and>
   capture_inverse_for (capture_inverse_for p r) (apply_to p r) = p"
  by simp

lemma run_cmd_next:
  assumes "store_inv st" "room_for (Suc n) st" "cmd_op cmd st = Some op" "log_apply op (log_of st) = Some L'"
  obtains so st' where "run_cmd pf clk cmd st = Ok so st'" "cmd_effect cmd op so st st'" "log_of st' = L'"
    "store_inv st'" "room_for n st'"
proof -
  obtain so st' where run: "run_cmd pf clk cmd st = Ok so st'" "cmd_effect cmd op so st st'" "log_of st' = L'"
    using run_cmd_Ok [OF assms(1) room_for_Suc [OF assms(2)] assms(3,4)] by blast
  have "room_for n st'"
    by (rule room_for_step [OF assms(2)]) (use run(2) in \<open>auto simp: cmd_effect_def split: store_cmd.splits\<close>)
  with that [OF run cmd_effect_inv [OF run(2)]] show thesis .
qed

text \<open>C40. Redo after undo is not the identity for a draft that is entered void. On any well-formed
  store, insert such a draft, undo it and redo it: the compensation of the insert says that the
  record was not void, so redo brings it back as a valid record, which was never entered.\<close>
theorem redo_revives_void_draft:
  assumes "store_inv st" and "room_for 3 st" and "is_void (qd_flags d)"
  shows "\<exists>st1 st2. run_cmds pf [(c1, CmdInsert d)] st = Some st1 \<and>
    run_cmds pf [(c2, CmdUndo), (c3, CmdRedo)] st1 = Some st2 \<and>
    map_option (\<lambda>r. is_void (qr_flags r)) (store_get (next_qso_id st) st1) = Some True \<and>
    map_option (\<lambda>r. is_void (qr_flags r)) (store_get (next_qso_id st) st2) = Some False"
proof -
  let ?i = "next_qso_id st" and ?r = "record_of_draft (next_qso_id st) d"
  have fresh: "log_find ?i (log_of st) = None" using fresh_id [OF assms(1)] by (simp add: log_find_None)
  have room: "room_for (Suc (Suc (Suc 0))) st" using assms(2) by (simp add: eval_nat_numeral)
  obtain so1 st1 where s1: "run_cmd pf c1 (CmdInsert d) st = Ok so1 st1" "cmd_effect (CmdInsert d) (OpInsert ?r) so1 st st1"
      "log_of st1 = log_of st @ [?r]" "store_inv st1" "room_for (Suc (Suc 0)) st1"
    by (rule run_cmd_next [OF assms(1) room _ cmd_insert_applies [OF assms(1)], of "CmdInsert d" d pf c1]) simp
  have op1: "cmd_op CmdUndo st1 = Some (OpVoid ?i False)" "?i \<in> log_ids (log_of st1)"
    using s1(2) by (simp_all add: cmd_effect_def vec_pop_def s1(3) record_of_draft_def)
  obtain so2 st2 where s2: "run_cmd pf c2 CmdUndo st1 = Ok so2 st2" "cmd_effect CmdUndo (OpVoid ?i False) so2 st1 st2"
      "log_of st2 = log_update ?i (set_void True) (log_of st1)" "store_inv st2" "room_for (Suc 0) st2"
    by (rule run_cmd_next [OF s1(4,5) op1(1)]) (use op1(2) in simp)
  have op2: "cmd_op CmdRedo st2 = Some (OpVoid ?i True)" "?i \<in> log_ids (log_of st2)"
    using s2(2) by (simp_all add: cmd_effect_def vec_pop_def s2(3) s1(3) record_of_draft_def)
  obtain so3 st3 where s3: "run_cmd pf c3 CmdRedo st2 = Ok so3 st3" "cmd_effect CmdRedo (OpVoid ?i True) so3 st2 st3"
      "log_of st3 = log_update ?i (set_void False) (log_of st2)" "store_inv st3" "room_for 0 st3"
    by (rule run_cmd_next [OF s2(4,5) op2(1)]) (use op2(2) in simp)
  have wf: "store_wf st1" "store_wf st3" using s1(4) s3(4) by (simp_all add: store_inv_def)
  have "log_find ?i (log_of st1) = Some ?r"
    using fresh by (simp add: s1(3) log_find_append) (simp add: log_find_def record_of_draft_def)
  moreover from this have "log_find ?i (log_of st3) = Some (set_void False ?r)"
    by (simp add: s3(3) s2(3) log_find_update)
  ultimately show ?thesis
    using s1(1) s2(1) s3(1) assms(3) wf
    by (simp add: store_get_def wf_lookup) (simp add: record_of_draft_def)
qed

theorem redo_revives_void_draft_witness:
  "\<exists>st1 st2. run_cmds release_profile [(0, CmdInsert (void_draft ''K1A''))] sample_store = Some st1 \<and>
    run_cmds release_profile [(1, CmdUndo), (2, CmdRedo)] st1 = Some st2 \<and>
    map_option (\<lambda>r. is_void (qr_flags r)) (store_get 3 st1) = Some True \<and>
    map_option (\<lambda>r. is_void (qr_flags r)) (store_get 3 st2) = Some False"
proof -
  have "next_qso_id sample_store = 3" "is_void (qd_flags (void_draft ''K1A''))" by code_simp+
  with redo_revives_void_draft [OF sample_store_inv room_for_sample, of "void_draft ''K1A''" release_profile 0 1 2]
  show ?thesis by simp
qed

end
