(* ===== verification/Qso_Text.thy ===== *)
theory Qso_Text
  imports Qso_Prelude
begin

section \<open>Decimal text: to_string and parse::<u32>\<close>

text \<open>
  The SQLite sink keeps its format versions as text: it writes them with \<open>to_string()\<close> and
  reads them back with \<open>parse::<u32>()\<close>. This theory models the two standard library
  functions (printing without leading zeros; parsing with an optional plus sign, the three
  error kinds and overflow at 2^32) and proves that parsing inverts printing.
\<close>

definition digit_char :: "nat \<Rightarrow> char" where
  "digit_char n = char_of (48 + n)"

definition to_digit :: "char \<Rightarrow> nat option" where
  "to_digit c = (let k = of_char c :: nat in if 48 \<le> k \<and> k \<le> 57 then Some (k - 48) else None)"

fun nat_to_string :: "nat \<Rightarrow> string" where
  "nat_to_string n =
    (if n < 10 then [digit_char n] else nat_to_string (n div 10) @ [digit_char (n mod 10)])"

declare nat_to_string.simps [simp del]

datatype parse_int_error = EmptyInput | InvalidDigit | PosOverflow

text \<open>Left to right: the digit is checked before the overflow of this step.\<close>

fun parse_digits :: "string \<Rightarrow> nat \<Rightarrow> parse_int_error + nat" where
  "parse_digits [] acc = Inr acc"
| "parse_digits (c # cs) acc =
    (case to_digit c of
       None \<Rightarrow> Inl InvalidDigit
     | Some d \<Rightarrow> if acc * 10 + d < 2 ^ 32 then parse_digits cs (acc * 10 + d) else Inl PosOverflow)"

definition parse_u32 :: "string \<Rightarrow> parse_int_error + u32" where
  "parse_u32 s =
    (case s of
       [] \<Rightarrow> Inl EmptyInput
     | c # cs \<Rightarrow>
        if cs = [] \<and> (c = CHR ''+'' \<or> c = CHR ''-'') then Inl InvalidDigit
        else (case parse_digits (if c = CHR ''+'' then cs else s) 0 of
                Inl e \<Rightarrow> Inl e | Inr n \<Rightarrow> Inr (of_nat n)))"

text \<open>\<open>Display\<close> of the error.\<close>

fun parse_int_error_text :: "parse_int_error \<Rightarrow> string" where
  "parse_int_error_text EmptyInput = ''cannot parse integer from empty string''"
| "parse_int_error_text InvalidDigit = ''invalid digit found in string''"
| "parse_int_error_text PosOverflow = ''number too large to fit in target type''"

lemma to_digit_char [simp]: "d < 10 \<Longrightarrow> to_digit (digit_char d) = Some d"
  by (simp add: to_digit_def digit_char_def)

lemma digit_char_not_sign: "d < 10 \<Longrightarrow> digit_char d \<noteq> CHR ''+'' \<and> digit_char d \<noteq> CHR ''-''"
proof -
  have "to_digit (CHR ''+'') = None" "to_digit (CHR ''-'') = None"
    by (simp_all add: to_digit_def)
  then show "d < 10 \<Longrightarrow> digit_char d \<noteq> CHR ''+'' \<and> digit_char d \<noteq> CHR ''-''"
    by (metis option.distinct(1) to_digit_char)
qed

lemma parse_digits_append:
  "parse_digits (xs @ ys) acc = (case parse_digits xs acc of Inl e \<Rightarrow> Inl e | Inr n \<Rightarrow> parse_digits ys n)"
  by (induction xs acc rule: parse_digits.induct) (auto split: option.split)

lemma parse_digits_print: "n < 2 ^ 32 \<Longrightarrow> parse_digits (nat_to_string n) 0 = Inr n"
proof (induction n rule: nat_to_string.induct)
  case (1 n)
  show ?case
  proof (cases "n < 10")
    case True
    then show ?thesis using "1.prems" by (subst nat_to_string.simps) simp
  next
    case False
    then have "parse_digits (nat_to_string (n div 10)) 0 = Inr (n div 10)"
      using "1.prems" by (intro "1.IH") auto
    then show ?thesis
      using "1.prems" False by (subst nat_to_string.simps) (simp add: parse_digits_append)
  qed
qed

lemma nat_to_string_hd:
  "\<exists>d cs. nat_to_string n = digit_char d # cs \<and> d < 10"
proof (induction n rule: nat_to_string.induct)
  case (1 n)
  then show ?case
    by (cases "n < 10") (auto simp: nat_to_string.simps [of n])
qed

lemma parse_u32_to_string: "parse_u32 (nat_to_string (unat n)) = Inr n"
proof -
  obtain d cs where hd: "nat_to_string (unat n) = digit_char d # cs" "d < 10"
    using nat_to_string_hd by blast
  have "unat n < 2 ^ 32" using unsigned_less [of n] by simp
  from parse_digits_print [OF this] hd digit_char_not_sign [OF hd(2)] show ?thesis
    by (simp add: parse_u32_def)
qed

end
