(* ===== verification/Qso_Persist.thy ===== *)
theory Qso_Persist
  imports Qso_Journal Qso_Text "HOL-Library.Multiset"
begin

section \<open>The persistence interface (persist/mod.rs)\<close>

text \<open>
  The error type of the persistence layer and the sink abstraction. \<open>OpSink\<close> is a trait
  object: the runtime sees only its four methods. It is a record of four functions on a
  sink state here, and the locale \<open>journal_sink\<close> states the contract that the worker
  relies on, over the multiset of operations the sink holds durably.
\<close>


subsection \<open>Errors\<close>

text \<open>What \<open>rusqlite\<close> reports, as far as the crate's own statements can provoke it; an
  engine failure (disk, lock, corruption) carries its text.\<close>

datatype sqlite_error =
    ConstraintViolation string
  | EngineFailure string
  | InvalidColumnType nat string
  | ToSqlConversionFailure string
  | FromSqlConversionFailure nat string

type_synonym serde_error = string

datatype persist_error =
    PeSqlite sqlite_error
  | PeSerde serde_error
  | PeMessage string

text \<open>\<open>{value:?}\<close> of a store error, and the conversion built on it.\<close>

fun store_error_debug :: "store_error \<Rightarrow> string" where
  "store_error_debug (MissingQso i) = ''MissingQso('' @ nat_to_string (unat i) @ '')''"
| "store_error_debug (AlreadyExists i) = ''AlreadyExists('' @ nat_to_string (unat i) @ '')''"
| "store_error_debug NothingToUndo = ''NothingToUndo''"
| "store_error_debug NothingToRedo = ''NothingToRedo''"

definition persist_error_of_store :: "store_error \<Rightarrow> persist_error" where
  "persist_error_of_store e = PeMessage (''store error: '' @ store_error_debug e)"


subsection \<open>The sink trait\<close>

text \<open>A method either returns an error or a value, in a new state of the sink.\<close>

type_synonym ('s, 'a) sink_call = "'s \<Rightarrow> (persist_error + 'a) \<times> 's"

record 's op_sink =
  sink_append_ops :: "stored_op list \<Rightarrow> ('s, op_seq) sink_call"
  sink_flush :: "('s, unit) sink_call"
  sink_write_snapshot :: "store_snapshot \<Rightarrow> op_seq \<Rightarrow> ('s, unit) sink_call"
  sink_compact_through :: "op_seq \<Rightarrow> ('s, nat) sink_call"

text \<open>The provided methods: a sink that only implements \<open>append_ops\<close>.\<close>

definition default_sink :: "(stored_op list \<Rightarrow> ('s, op_seq) sink_call) \<Rightarrow> 's op_sink" where
  "default_sink app = \<lparr>
    sink_append_ops = app,
    sink_flush = (\<lambda>s. (Inr (), s)),
    sink_write_snapshot = (\<lambda>_ _ s. (Inr (), s)),
    sink_compact_through = (\<lambda>_ s. (Inr 0, s))\<rparr>"

text \<open>
  The contract of a journalling sink, over the multiset of entries it holds durably: an
  append is all or nothing, adds one entry per operation of the batch and returns the last
  sequence number of the batch; flushing and writing a snapshot keep the entries;
  compaction removes exactly the entries it covers.
\<close>

locale journal_sink =
  fixes sink :: "'s op_sink"
    and held :: "'s \<Rightarrow> 'e multiset"
    and entry :: "stored_op \<Rightarrow> 'e"
    and covered :: "op_seq \<Rightarrow> 'e \<Rightarrow> bool"
  assumes append_ok: "sink_append_ops sink ops s = (Inr seq, s') \<Longrightarrow> held s' = held s + image_mset entry (mset ops)"
    and append_seq: "sink_append_ops sink ops s = (Inr seq, s') \<Longrightarrow> ops \<noteq> [] \<Longrightarrow> seq = so_seq (last ops)"
    and append_err: "sink_append_ops sink ops s = (Inl e, s') \<Longrightarrow> held s' = held s"
    and flush_held: "sink_flush sink s = (fl, s') \<Longrightarrow> held s' = held s"
    and snapshot_held: "sink_write_snapshot sink snap n s = (wr, s') \<Longrightarrow> held s' = held s"
    and compact_ok: "sink_compact_through sink n s = (Inr k, s') \<Longrightarrow> held s' = {# e \<in># held s. \<not> covered n e #}"
    and compact_err: "sink_compact_through sink n s = (Inl e, s') \<Longrightarrow> held s' = held s"
begin

lemma append_held:
  "sink_append_ops sink ops s = (rs, s') \<Longrightarrow>
    held s' = held s + (case rs of Inl _ \<Rightarrow> {#} | Inr _ \<Rightarrow> image_mset entry (mset ops))"
  using append_ok append_err by (cases rs) auto

lemma append_monotone: "sink_append_ops sink ops s = (rs, s') \<Longrightarrow> held s \<subseteq># held s'"
  using append_held by auto

end

end
