(* ===== verification/Qso_Runtime.thy ===== *)
theory Qso_Runtime
  imports Qso_Persist
begin

section \<open>The runtime: single-writer loop and persistence worker (runtime/)\<close>

text \<open>
  Two tasks share a bounded queue of messages (loop to worker), one-shot replies (worker to
  loop) and an unbounded channel of durability reports (worker to loop). This theory models
  both as functions on an explicit state, one atomic step per \<open>await\<close> of the source:
  \<^item> the worker receives one message, or its batch timer fires (the deadline is real time, so
    the timer may fire whenever the buffer is not empty);
  \<^item> the loop takes a command, or one durability report, or goes on with a command that
    waited for queue capacity or for a reply. While it waits it handles nothing else.
  Any interleaving of these steps is a run. Commands arrive one at a time; the answers and
  the events sent are recorded in order. Parameters: the sink, its state inside the worker's
  state, the text of errors under \<open>{:?}\<close> (record \<open>fmt\<close>), the clock reading of a command.
\<close>


subsection \<open>Types\<close>

datatype runtime_error =
    RtStore store_error
  | RtPersist persist_error
  | ChannelClosed
  | PersistQueueFull
  | PersistenceUnhealthy string

datatype ack_mode = InMemory | Durable

record runtime_config =
  cfg_ack_mode :: ack_mode
  cfg_flush_on_insert :: bool
  cfg_batch_max_ops :: nat
  cfg_batch_max_latency_ms :: u64
  cfg_persist_queue_bound :: nat
  cfg_snapshot_every_ops :: nat
  cfg_compact_after_snapshot :: bool

definition default_config :: runtime_config where
  "default_config = \<lparr>cfg_ack_mode = InMemory, cfg_flush_on_insert = True, cfg_batch_max_ops = 32,
    cfg_batch_max_latency_ms = 75, cfg_persist_queue_bound = 64, cfg_snapshot_every_ops = 2000,
    cfg_compact_after_snapshot = False\<rparr>"

record persistence_state =
  is_healthy :: bool
  last_durable_seq :: op_seq
  last_error :: "string option"

definition default_persistence_state :: persistence_state where
  "default_persistence_state = \<lparr>is_healthy = True, last_durable_seq = 0, last_error = None\<rparr>"

datatype qso_event =
    EvInserted qso_id
  | EvUpdated qso_id
  | EvVoided qso_id
  | EvUndoApplied
  | EvRedoApplied
  | EvDurableUpTo op_seq
  | EvPersistenceError string op_seq
  | EvNotDurableWarning op_seq

datatype command =
    CInsert qso_draft | CPatch qso_id qso_patch | CVoid qso_id | CUndo | CRedo
  | CGet qso_id | CRecent nat | CByCall string | CFlush | CCheckpoint | CShutdown

text \<open>What the loop sends back on the one-shot channel of a command: in the source each command has a
  channel of its own type, here one constructor per type.\<close>

datatype response =
    RespId "runtime_error + qso_id"
  | RespUnit "runtime_error + unit"
  | RespRecord "qso_record option"
  | RespRecords "qso_record list"
  | RespSeq "runtime_error + op_seq"

datatype persist_msg =
    MsgOp stored_op | MsgFlush | MsgCheckpoint store_snapshot op_seq bool | MsgShutdown

datatype worker_reply =
    ReplyFlush "persist_error + op_seq" | ReplyCheckpoint "persist_error + unit" | ReplyShutdown

record fmt =
  debug_runtime_error :: "runtime_error \<Rightarrow> string"
  debug_persist_error :: "persist_error \<Rightarrow> string"


subsection \<open>The persistence worker\<close>

record 's worker =
  wk_running :: bool
  wk_queue :: "persist_msg list"
  wk_buf :: "stored_op list"
  wk_last_durable :: op_seq
  wk_sink :: 's
  wk_durable :: "(persist_error + op_seq) list"
  wk_reply :: "worker_reply option"

definition report :: "persist_error + op_seq \<Rightarrow> 's worker \<Rightarrow> 's worker" where
  "report msg w = w\<lparr>wk_durable := wk_durable w @ [msg]\<rparr>"

text \<open>\<open>flush_buf\<close>: an empty buffer only flushes the sink; otherwise the whole buffer is taken,
  appended and flushed; whatever fails, the batch is not put back.\<close>

definition append_and_flush :: "'s op_sink \<Rightarrow> stored_op list \<Rightarrow> bool \<Rightarrow> ('s, op_seq) sink_call" where
  "append_and_flush sink ops call_flush s =
    (case sink_append_ops sink ops s of
       (Inl e, s1) \<Rightarrow> (Inl e, s1)
     | (Inr seq, s1) \<Rightarrow>
        if call_flush then
          (case sink_flush sink s1 of (Inl e, s2) \<Rightarrow> (Inl e, s2) | (Inr _, s2) \<Rightarrow> (Inr seq, s2))
        else (Inr seq, s1))"

definition flush_buf :: "fmt \<Rightarrow> 's op_sink \<Rightarrow> bool \<Rightarrow> 's worker \<Rightarrow> (persist_error + unit) \<times> 's worker" where
  "flush_buf fm sink call_flush w =
    (if wk_buf w = [] then
       (if call_flush then (let (out, s) = sink_flush sink (wk_sink w) in (out, w\<lparr>wk_sink := s\<rparr>))
        else (Inr (), w))
     else
       (let (out, s) = append_and_flush sink (wk_buf w) call_flush (wk_sink w);
            w1 = w\<lparr>wk_buf := [], wk_sink := s\<rparr>
        in case out of
             Inr seq \<Rightarrow>
               (let n = max (wk_last_durable w1) seq
                in (Inr (), report (Inr n) (w1\<lparr>wk_last_durable := n\<rparr>)))
           | Inl err \<Rightarrow>
               (Inl err, report (Inl (PeMessage (''append failed: '' @ debug_persist_error fm err))) w1)))"

fun is_insert :: "op \<Rightarrow> bool" where
  "is_insert (OpInsert _) = True"
| "is_insert _ = False"

definition write_checkpoint ::
    "'s op_sink \<Rightarrow> store_snapshot \<Rightarrow> op_seq \<Rightarrow> bool \<Rightarrow> ('s, unit) sink_call" where
  "write_checkpoint sink snapshot last_seq compact s =
    (case sink_write_snapshot sink snapshot last_seq s of
       (Inl e, s1) \<Rightarrow> (Inl e, s1)
     | (Inr _, s1) \<Rightarrow>
        if compact then
          (case sink_compact_through sink last_seq s1 of (Inl e, s2) \<Rightarrow> (Inl e, s2) | (Inr _, s2) \<Rightarrow> (Inr (), s2))
        else (Inr (), s1))"

text \<open>One received message.\<close>

fun worker_handle :: "fmt \<Rightarrow> runtime_config \<Rightarrow> 's op_sink \<Rightarrow> persist_msg \<Rightarrow> 's worker \<Rightarrow> 's worker" where
  "worker_handle fm cfg sink (MsgOp stored) w =
    (let w1 = w\<lparr>wk_buf := wk_buf w @ [stored]\<rparr> in
     if length (wk_buf w1) \<ge> cfg_batch_max_ops cfg \<or> cfg_flush_on_insert cfg \<and> is_insert (so_op stored)
     then snd (flush_buf fm sink True w1) else w1)"
| "worker_handle fm cfg sink MsgFlush w =
    (let (out, w1) = flush_buf fm sink True w
     in w1\<lparr>wk_reply := Some (ReplyFlush (map_sum id (\<lambda>_. wk_last_durable w1) out))\<rparr>)"
| "worker_handle fm cfg sink (MsgCheckpoint snapshot last_seq compact) w =
    (case flush_buf fm sink True w of
       (Inl err, w1) \<Rightarrow> w1\<lparr>wk_reply := Some (ReplyCheckpoint (Inl err))\<rparr>
     | (Inr _, w1) \<Rightarrow>
        (let (out, s) = write_checkpoint sink snapshot last_seq compact (wk_sink w1)
         in w1\<lparr>wk_sink := s, wk_reply := Some (ReplyCheckpoint out)\<rparr>))"
| "worker_handle fm cfg sink MsgShutdown w =
    (snd (flush_buf fm sink True w))\<lparr>wk_reply := Some ReplyShutdown, wk_running := False\<rparr>"

definition worker_recv :: "fmt \<Rightarrow> runtime_config \<Rightarrow> 's op_sink \<Rightarrow> 's worker \<Rightarrow> 's worker option" where
  "worker_recv fm cfg sink w =
    (if wk_running w then
       (case wk_queue w of
          [] \<Rightarrow> None
        | msg # rest \<Rightarrow> Some (worker_handle fm cfg sink msg (w\<lparr>wk_queue := rest\<rparr>)))
     else None)"

text \<open>The timer branch of \<open>select!\<close>, enabled only for a non-empty buffer.\<close>

definition worker_tick :: "fmt \<Rightarrow> 's op_sink \<Rightarrow> 's worker \<Rightarrow> 's worker option" where
  "worker_tick fm sink w =
    (if wk_running w \<and> wk_buf w \<noteq> [] then Some (snd (flush_buf fm sink False w)) else None)"

text \<open>The queue is closed and empty: flush what is buffered and stop.\<close>

definition worker_closed :: "fmt \<Rightarrow> 's op_sink \<Rightarrow> 's worker \<Rightarrow> 's worker option" where
  "worker_closed fm sink w =
    (if wk_running w \<and> wk_queue w = [] then Some ((snd (flush_buf fm sink True w))\<lparr>wk_running := False\<rparr>) else None)"


subsection \<open>The loop\<close>

text \<open>What a successful mutation announces: the event, and the value returned.\<close>

datatype announce = AnnInsert qso_id | AnnPatch qso_id | AnnVoid qso_id | AnnUndo | AnnRedo

fun announce_event :: "announce \<Rightarrow> qso_event" where
  "announce_event (AnnInsert i) = EvInserted i"
| "announce_event (AnnPatch i) = EvUpdated i"
| "announce_event (AnnVoid i) = EvVoided i"
| "announce_event AnnUndo = EvUndoApplied"
| "announce_event AnnRedo = EvRedoApplied"

fun announce_response :: "announce \<Rightarrow> response" where
  "announce_response (AnnInsert i) = RespId (Inr i)"
| "announce_response _ = RespUnit (Inr ())"

fun command_error :: "command \<Rightarrow> runtime_error \<Rightarrow> response" where
  "command_error (CInsert _) e = RespId (Inl e)"
| "command_error _ e = RespUnit (Inl e)"

fun announce_error :: "announce \<Rightarrow> runtime_error \<Rightarrow> response" where
  "announce_error (AnnInsert _) e = RespId (Inl e)"
| "announce_error _ e = RespUnit (Inl e)"

text \<open>Why the loop waits, and with it everything it needs to go on.\<close>

datatype wait =
    WaitMutation announce mutation_checkpoint stored_op
  | WaitAutoCheckpoint response
  | WaitFlush
  | WaitCheckpoint
  | WaitShutdown

datatype ctl = Idle | Sending persist_msg wait | Awaiting wait | Stopped

record 's runtime =
  rt_store :: qso_store
  rt_ops_since_snapshot :: nat
  rt_health :: persistence_state
  rt_events :: "qso_event list"
  rt_responses :: "response list"
  rt_ctl :: ctl
  rt_worker :: "'s worker option"

definition respond :: "response \<Rightarrow> 's runtime \<Rightarrow> 's runtime" where
  "respond resp rt = rt\<lparr>rt_responses := rt_responses rt @ [resp], rt_ctl := Idle\<rparr>"

definition emit :: "qso_event \<Rightarrow> 's runtime \<Rightarrow> 's runtime" where
  "emit ev rt = rt\<lparr>rt_events := rt_events rt @ [ev]\<rparr>"

text \<open>\<open>spawn_qsolog\<close>: a queue of capacity 0 makes \<open>mpsc::channel\<close> panic.\<close>

definition new_worker :: "'s \<Rightarrow> 's worker" where
  "new_worker s = \<lparr>wk_running = True, wk_queue = [], wk_buf = [], wk_last_durable = 0, wk_sink = s,
    wk_durable = [], wk_reply = None\<rparr>"

definition spawn_qsolog :: "qso_store \<Rightarrow> 's option \<Rightarrow> runtime_config \<Rightarrow> 's runtime option" where
  "spawn_qsolog store o_sink cfg =
    (if o_sink \<noteq> None \<and> cfg_persist_queue_bound cfg = 0 then None
     else Some \<lparr>rt_store = store, rt_ops_since_snapshot = 0, rt_health = default_persistence_state,
       rt_events = [], rt_responses = [], rt_ctl = Idle, rt_worker = map_option new_worker o_sink\<rparr>)"

definition ensure_mutation_allowed :: "ack_mode \<Rightarrow> persistence_state \<Rightarrow> runtime_error + unit" where
  "ensure_mutation_allowed ack st =
    (if ack \<noteq> Durable then Inr ()
     else if is_healthy st then Inr ()
     else Inl (PersistenceUnhealthy (case last_error st of Some msg \<Rightarrow> msg | None \<Rightarrow> ''persistence unhealthy'')))"

definition mark_persist_unhealthy :: "string \<Rightarrow> 's runtime \<Rightarrow> 's runtime" where
  "mark_persist_unhealthy msg rt =
    emit (EvPersistenceError msg (last_durable_seq (rt_health rt)))
      (rt\<lparr>rt_health := (rt_health rt)\<lparr>is_healthy := False, last_error := Some msg\<rparr>\<rparr>)"

definition enqueue_persist :: "runtime_config \<Rightarrow> stored_op \<Rightarrow> 's worker \<Rightarrow> runtime_error + 's worker" where
  "enqueue_persist cfg stored w =
    (if \<not> wk_running w then Inl ChannelClosed
     else if cfg_persist_queue_bound cfg \<le> length (wk_queue w) then Inl PersistQueueFull
     else Inr (w\<lparr>wk_queue := wk_queue w @ [MsgOp stored]\<rparr>))"

definition run_mutation :: "profile \<Rightarrow> int \<Rightarrow> command \<Rightarrow> qso_store \<Rightarrow> (announce \<times> stored_op) store_result" where
  "run_mutation pf clk cmd st =
    (case cmd of
       CInsert d \<Rightarrow> and_then (store_insert pf clk d st) (\<lambda>(i, so) st1. Ok (AnnInsert i, so) st1)
     | CPatch i p \<Rightarrow> and_then (store_patch pf clk i p st) (\<lambda>so st1. Ok (AnnPatch i, so) st1)
     | CVoid i \<Rightarrow> and_then (store_void pf clk i st) (\<lambda>so st1. Ok (AnnVoid i, so) st1)
     | CUndo \<Rightarrow> and_then (store_undo pf clk st) (\<lambda>so st1. Ok (AnnUndo, so) st1)
     | _ \<Rightarrow> and_then (store_redo pf clk st) (\<lambda>so st1. Ok (AnnRedo, so) st1))"

text \<open>\<open>maybe_auto_checkpoint\<close>, then the response: only inserts come here.\<close>

definition maybe_auto_checkpoint :: "runtime_config \<Rightarrow> response \<Rightarrow> 's runtime \<Rightarrow> 's runtime" where
  "maybe_auto_checkpoint cfg resp rt =
    (if cfg_snapshot_every_ops cfg = 0 \<or> rt_ops_since_snapshot rt < cfg_snapshot_every_ops cfg \<or> rt_worker rt = None
     then respond resp rt
     else rt\<lparr>rt_ctl := Sending (MsgCheckpoint (export_snapshot (rt_store rt)) (latest_op_seq (rt_store rt))
            (cfg_compact_after_snapshot cfg)) (WaitAutoCheckpoint resp)\<rparr>)"

text \<open>The end of a mutation branch, after \<open>persist_after_mutation\<close> returned. \<open>None\<close> is a panic.\<close>

definition mutation_accepted :: "runtime_config \<Rightarrow> announce \<Rightarrow> 's runtime \<Rightarrow> 's runtime" where
  "mutation_accepted cfg ann rt =
    (let rt1 = emit (announce_event ann) rt in
     case ann of
       AnnInsert _ \<Rightarrow> maybe_auto_checkpoint cfg (announce_response ann)
          (rt1\<lparr>rt_ops_since_snapshot := rt_ops_since_snapshot rt1 + 1\<rparr>)
     | _ \<Rightarrow> respond (announce_response ann) rt1)"

definition mutation_rejected ::
    "profile \<Rightarrow> announce \<Rightarrow> mutation_checkpoint \<Rightarrow> stored_op \<Rightarrow> runtime_error \<Rightarrow> 's runtime \<Rightarrow> 's runtime option" where
  "mutation_rejected pf ann cp stored err rt =
    (case rollback_mutation pf cp stored (rt_store rt) of
       Panic \<Rightarrow> None
     | Ok _ st \<Rightarrow> Some (respond (announce_error ann err) (rt\<lparr>rt_store := st\<rparr>))
     | Err e st \<Rightarrow> Some (respond (announce_error ann (RtStore e)) (rt\<lparr>rt_store := st\<rparr>)))"

text \<open>\<open>persist_after_mutation\<close> up to its first suspension.\<close>

definition persist_after_mutation ::
    "profile \<Rightarrow> fmt \<Rightarrow> runtime_config \<Rightarrow> announce \<Rightarrow> mutation_checkpoint \<Rightarrow> stored_op \<Rightarrow> 's runtime \<Rightarrow> 's runtime option" where
  "persist_after_mutation pf fm cfg ann cp stored rt =
    (case rt_worker rt of
       None \<Rightarrow> Some (mutation_accepted cfg ann rt)
     | Some w \<Rightarrow>
       (case enqueue_persist cfg stored w of
          Inl err \<Rightarrow> mutation_rejected pf ann cp stored err (mark_persist_unhealthy (debug_runtime_error fm err) rt)
        | Inr w1 \<Rightarrow>
          (let rt1 = rt\<lparr>rt_worker := Some w1\<rparr> in
           if cfg_ack_mode cfg = Durable
           then Some (rt1\<lparr>rt_ctl := Sending MsgFlush (WaitMutation ann cp stored)\<rparr>)
           else Some (mutation_accepted cfg ann
             (if is_healthy (rt_health rt1) then rt1
              else emit (EvNotDurableWarning (latest_op_seq (rt_store rt1))) rt1)))))"

definition handle_mutation :: "profile \<Rightarrow> fmt \<Rightarrow> runtime_config \<Rightarrow> int \<Rightarrow> command \<Rightarrow> 's runtime \<Rightarrow> 's runtime option" where
  "handle_mutation pf fm cfg clk cmd rt =
    (case ensure_mutation_allowed (cfg_ack_mode cfg) (rt_health rt) of
       Inl err \<Rightarrow> Some (respond (command_error cmd err) rt)
     | Inr _ \<Rightarrow>
       (let cp = take_checkpoint (rt_store rt) in
        case run_mutation pf clk cmd (rt_store rt) of
          Panic \<Rightarrow> None
        | Err e st \<Rightarrow> Some (respond (command_error cmd (RtStore e)) (rt\<lparr>rt_store := st\<rparr>))
        | Ok (ann, stored) st \<Rightarrow>
            persist_after_mutation pf fm cfg ann cp stored (rt\<lparr>rt_store := clear_pending_ops st\<rparr>)))"

text \<open>\<open>handle_command\<close> up to its first suspension.\<close>

definition handle_command :: "profile \<Rightarrow> fmt \<Rightarrow> runtime_config \<Rightarrow> int \<Rightarrow> command \<Rightarrow> 's runtime \<Rightarrow> 's runtime option" where
  "handle_command pf fm cfg clk cmd rt =
    (case cmd of
       CGet i \<Rightarrow> Some (respond (RespRecord (store_get i (rt_store rt))) rt)
     | CRecent n \<Rightarrow> Some (respond (RespRecords (store_recent n (rt_store rt))) rt)
     | CByCall call \<Rightarrow> Some (respond (RespRecords (store_by_call call (rt_store rt))) rt)
     | CFlush \<Rightarrow> Some (case rt_worker rt of
         Some _ \<Rightarrow> rt\<lparr>rt_ctl := Sending MsgFlush WaitFlush\<rparr>
       | None \<Rightarrow> respond (RespSeq (Inr (latest_op_seq (rt_store rt)))) rt)
     | CCheckpoint \<Rightarrow> Some (case rt_worker rt of
         Some _ \<Rightarrow> rt\<lparr>rt_ctl := Sending (MsgCheckpoint (export_snapshot (rt_store rt)) (latest_op_seq (rt_store rt))
            (cfg_compact_after_snapshot cfg)) WaitCheckpoint\<rparr>
       | None \<Rightarrow> respond (RespUnit (Inr ())) rt)
     | CShutdown \<Rightarrow> Some (case rt_worker rt of
         Some _ \<Rightarrow> rt\<lparr>rt_ctl := Sending MsgShutdown WaitShutdown\<rparr>
       | None \<Rightarrow> (respond (RespUnit (Inr ())) rt)\<lparr>rt_ctl := Stopped\<rparr>)
     | _ \<Rightarrow> handle_mutation pf fm cfg clk cmd rt)"

text \<open>A wait that ends: with the worker's reply, or because the worker is gone (\<open>None\<close>).\<close>

fun resume :: "profile \<Rightarrow> fmt \<Rightarrow> runtime_config \<Rightarrow> wait \<Rightarrow> worker_reply option \<Rightarrow> 's runtime \<Rightarrow> 's runtime option" where
  "resume pf fm cfg (WaitMutation ann cp stored) (Some (ReplyFlush (Inr _))) rt = Some (mutation_accepted cfg ann rt)"
| "resume pf fm cfg (WaitMutation ann cp stored) (Some (ReplyFlush (Inl e))) rt =
    mutation_rejected pf ann cp stored (RtPersist e) (mark_persist_unhealthy (debug_runtime_error fm (RtPersist e)) rt)"
| "resume pf fm cfg (WaitMutation ann cp stored) _ rt =
    mutation_rejected pf ann cp stored ChannelClosed (mark_persist_unhealthy (debug_runtime_error fm ChannelClosed) rt)"
| "resume pf fm cfg (WaitAutoCheckpoint resp) _ rt = Some (respond resp (rt\<lparr>rt_ops_since_snapshot := 0\<rparr>))"
| "resume pf fm cfg WaitFlush (Some (ReplyFlush out)) rt = Some (respond (RespSeq (map_sum RtPersist id out)) rt)"
| "resume pf fm cfg WaitFlush _ rt = Some (respond (RespSeq (Inl ChannelClosed)) rt)"
| "resume pf fm cfg WaitCheckpoint (Some (ReplyCheckpoint out)) rt = Some (respond (RespUnit (map_sum RtPersist id out)) rt)"
| "resume pf fm cfg WaitCheckpoint _ rt = Some (respond (RespUnit (Inl ChannelClosed)) rt)"
| "resume pf fm cfg WaitShutdown (Some ReplyShutdown) rt = Some ((respond (RespUnit (Inr ())) rt)\<lparr>rt_ctl := Stopped\<rparr>)"
| "resume pf fm cfg WaitShutdown _ rt = Some ((respond (RespUnit (Inl ChannelClosed)) rt)\<lparr>rt_ctl := Stopped\<rparr>)"

text \<open>A message that could not be sent: an auto checkpoint is then skipped without resetting the
  counter; every other wait ends with a closed channel.\<close>

fun send_failed :: "profile \<Rightarrow> fmt \<Rightarrow> runtime_config \<Rightarrow> wait \<Rightarrow> 's runtime \<Rightarrow> 's runtime option" where
  "send_failed pf fm cfg (WaitAutoCheckpoint resp) rt = Some (respond resp rt)"
| "send_failed pf fm cfg wt rt = resume pf fm cfg wt None rt"

text \<open>\<open>None\<close>: the wait goes on; \<open>Some None\<close>: the loop task panics.\<close>

definition loop_progress :: "profile \<Rightarrow> fmt \<Rightarrow> runtime_config \<Rightarrow> 's runtime \<Rightarrow> 's runtime option option" where
  "loop_progress pf fm cfg rt =
    (case rt_worker rt of
       None \<Rightarrow> None
     | Some w \<Rightarrow>
       (case rt_ctl rt of
          Sending msg wt \<Rightarrow>
            if \<not> wk_running w then Some (send_failed pf fm cfg wt rt)
            else if length (wk_queue w) < cfg_persist_queue_bound cfg
            then Some (Some (rt\<lparr>rt_worker := Some (w\<lparr>wk_queue := wk_queue w @ [msg], wk_reply := None\<rparr>), rt_ctl := Awaiting wt\<rparr>))
            else None
        | Awaiting wt \<Rightarrow>
            (case wk_reply w of
               Some rep \<Rightarrow> Some (resume pf fm cfg wt (Some rep) (rt\<lparr>rt_worker := Some (w\<lparr>wk_reply := None\<rparr>)\<rparr>))
             | None \<Rightarrow> if wk_running w then None else Some (resume pf fm cfg wt None rt))
        | _ \<Rightarrow> None))"

text \<open>The durability branch of the loop's \<open>select!\<close>.\<close>

definition handle_durable :: "fmt \<Rightarrow> persist_error + op_seq \<Rightarrow> 's runtime \<Rightarrow> 's runtime" where
  "handle_durable fm msg rt =
    (case msg of
       Inr op_seq \<Rightarrow> emit (EvDurableUpTo op_seq) (rt\<lparr>rt_health := \<lparr>is_healthy = True,
         last_durable_seq = max (last_durable_seq (rt_health rt)) op_seq, last_error = None\<rparr>\<rparr>)
     | Inl err \<Rightarrow> mark_persist_unhealthy (debug_persist_error fm err) rt)"

definition loop_durable :: "fmt \<Rightarrow> 's runtime \<Rightarrow> 's runtime option" where
  "loop_durable fm rt =
    (case (rt_ctl rt, rt_worker rt) of
       (Idle, Some w) \<Rightarrow>
         (case wk_durable w of
            [] \<Rightarrow> None
          | msg # rest \<Rightarrow> Some (handle_durable fm msg (rt\<lparr>rt_worker := Some (w\<lparr>wk_durable := rest\<rparr>)\<rparr>)))
     | _ \<Rightarrow> None)"


subsection \<open>Runs\<close>

text \<open>\<open>LDrop\<close>: every handle is dropped, so the command channel closes and the loop ends;
  \<open>LClosed\<close>: the loop has ended, so the worker's queue is closed.\<close>

datatype label = LCommand int command | LProgress | LDurable | LRecv | LTick | LDrop | LClosed

text \<open>One step: \<open>None\<close> when the label is not enabled, \<open>Some None\<close> when the loop task panics.\<close>

definition map_worker :: "('s worker \<Rightarrow> 's worker option) \<Rightarrow> 's runtime \<Rightarrow> 's runtime option option" where
  "map_worker f rt =
    (case rt_worker rt of
       None \<Rightarrow> None
     | Some w \<Rightarrow> (case f w of None \<Rightarrow> None | Some w' \<Rightarrow> Some (Some (rt\<lparr>rt_worker := Some w'\<rparr>))))"

fun rt_exec :: "profile \<Rightarrow> fmt \<Rightarrow> runtime_config \<Rightarrow> 's op_sink \<Rightarrow> label \<Rightarrow> 's runtime \<Rightarrow> 's runtime option option" where
  "rt_exec pf fm cfg sink (LCommand clk cmd) rt =
    (if rt_ctl rt = Idle then Some (handle_command pf fm cfg clk cmd rt) else None)"
| "rt_exec pf fm cfg sink LProgress rt = loop_progress pf fm cfg rt"
| "rt_exec pf fm cfg sink LDurable rt = map_option Some (loop_durable fm rt)"
| "rt_exec pf fm cfg sink LRecv rt = map_worker (worker_recv fm cfg sink) rt"
| "rt_exec pf fm cfg sink LTick rt = map_worker (worker_tick fm sink) rt"
| "rt_exec pf fm cfg sink LDrop rt = (if rt_ctl rt = Idle then Some (Some (rt\<lparr>rt_ctl := Stopped\<rparr>)) else None)"
| "rt_exec pf fm cfg sink LClosed rt = (if rt_ctl rt = Stopped then map_worker (worker_closed fm sink) rt else None)"

text \<open>The step relation, one rule per kind of step; a panicking loop has no successor.\<close>

inductive rt_step :: "profile \<Rightarrow> fmt \<Rightarrow> runtime_config \<Rightarrow> 's op_sink \<Rightarrow> 's runtime \<Rightarrow> 's runtime \<Rightarrow> bool"
  for pf fm cfg sink where
  command: "rt_ctl rt = Idle \<Longrightarrow> handle_command pf fm cfg clk cmd rt = Some rt' \<Longrightarrow> rt_step pf fm cfg sink rt rt'"
| progress: "loop_progress pf fm cfg rt = Some (Some rt') \<Longrightarrow> rt_step pf fm cfg sink rt rt'"
| durable: "loop_durable fm rt = Some rt' \<Longrightarrow> rt_step pf fm cfg sink rt rt'"
| recv: "rt_worker rt = Some w \<Longrightarrow> worker_recv fm cfg sink w = Some w' \<Longrightarrow>
    rt_step pf fm cfg sink rt (rt\<lparr>rt_worker := Some w'\<rparr>)"
| tick: "rt_worker rt = Some w \<Longrightarrow> worker_tick fm sink w = Some w' \<Longrightarrow>
    rt_step pf fm cfg sink rt (rt\<lparr>rt_worker := Some w'\<rparr>)"
| drop: "rt_ctl rt = Idle \<Longrightarrow> rt_step pf fm cfg sink rt (rt\<lparr>rt_ctl := Stopped\<rparr>)"
| closed: "rt_ctl rt = Stopped \<Longrightarrow> rt_worker rt = Some w \<Longrightarrow> worker_closed fm sink w = Some w' \<Longrightarrow>
    rt_step pf fm cfg sink rt (rt\<lparr>rt_worker := Some w'\<rparr>)"

inductive_cases rt_stepE: "rt_step pf fm cfg sink rt rt'"

inductive rt_reach :: "profile \<Rightarrow> fmt \<Rightarrow> runtime_config \<Rightarrow> 's op_sink \<Rightarrow> 's runtime \<Rightarrow> nat \<Rightarrow> 's runtime \<Rightarrow> bool"
  for pf fm cfg sink rt0 where
  start: "rt_reach pf fm cfg sink rt0 0 rt0"
| step: "rt_reach pf fm cfg sink rt0 n rt \<Longrightarrow> rt_step pf fm cfg sink rt rt' \<Longrightarrow> rt_reach pf fm cfg sink rt0 (Suc n) rt'"

lemma rt_step_exec:
  "rt_step pf fm cfg sink rt rt' \<longleftrightarrow> (\<exists>l. rt_exec pf fm cfg sink l rt = Some (Some rt'))"
proof
  assume "rt_step pf fm cfg sink rt rt'"
  then show "\<exists>l. rt_exec pf fm cfg sink l rt = Some (Some rt')"
  proof (cases rule: rt_step.cases)
    case (command clk cmd)
    then show ?thesis by (intro exI [of _ "LCommand clk cmd"]) simp
  next
    case progress
    then show ?thesis by (intro exI [of _ LProgress]) simp
  next
    case durable
    then show ?thesis by (intro exI [of _ LDurable]) simp
  next
    case (recv w w')
    then show ?thesis by (intro exI [of _ LRecv]) (simp add: map_worker_def)
  next
    case (tick w w')
    then show ?thesis by (intro exI [of _ LTick]) (simp add: map_worker_def)
  next
    case drop
    then show ?thesis by (intro exI [of _ LDrop]) simp
  next
    case (closed w w')
    then show ?thesis by (intro exI [of _ LClosed]) (simp add: map_worker_def)
  qed
next
  assume "\<exists>l. rt_exec pf fm cfg sink l rt = Some (Some rt')"
  then obtain l where "rt_exec pf fm cfg sink l rt = Some (Some rt')" ..
  then show "rt_step pf fm cfg sink rt rt'"
    by (cases l) (auto simp: map_worker_def split: if_splits option.splits intro: rt_step.intros)
qed

text \<open>Executing a schedule; \<open>None\<close> when a label is not enabled or the loop panics.\<close>

fun rt_run :: "profile \<Rightarrow> fmt \<Rightarrow> runtime_config \<Rightarrow> 's op_sink \<Rightarrow> label list \<Rightarrow> 's runtime \<Rightarrow> 's runtime option" where
  "rt_run pf fm cfg sink [] rt = Some rt"
| "rt_run pf fm cfg sink (l # ls) rt =
    (case rt_exec pf fm cfg sink l rt of
       Some (Some rt') \<Rightarrow> rt_run pf fm cfg sink ls rt'
     | _ \<Rightarrow> None)"

lemma rt_run_reach:
  "rt_run pf fm cfg sink ls rt = Some rt' \<Longrightarrow> rt_reach pf fm cfg sink rt0 n rt \<Longrightarrow>
    rt_reach pf fm cfg sink rt0 (n + length ls) rt'"
proof (induction ls arbitrary: rt n)
  case (Cons l ls)
  from Cons.prems(1) obtain rt1 where "rt_exec pf fm cfg sink l rt = Some (Some rt1)"
      "rt_run pf fm cfg sink ls rt1 = Some rt'"
    by (auto split: option.splits)
  with Cons.IH [of rt1 "Suc n"] rt_reach.step [OF Cons.prems(2)] rt_step_exec show ?case by fastforce
qed simp

end
