(* ===== verification/Qso_Sqlite.thy ===== *)
theory Qso_Sqlite
  imports Qso_Persist
begin

section \<open>The SQLite sink (persist/sqlite.rs, persist/schema.sql)\<close>

text \<open>
  The sink's database is the three tables of \<^verbatim>\<open>schema.sql\<close>; each SQL statement of the
  source is a function on the tables (\<^emph>\<open>which rows it adds, deletes or returns, and when a
  key constraint rejects it\<close>). Two things the code does not define are parameters:
  \<^item> \<open>cdc\<close>, the \<open>serde_json\<close> encoders and decoders of the two envelope types and of the bare
    \<open>StoredOp\<close>, on an abstract type \<open>'p\<close> of payloads (\<open>Vec<u8>\<close>);
  \<^item> \<open>flt\<close>, the failures of the engine: for each call into \<open>rusqlite\<close>, whether it fails
    (disk full, locked file) before it has an effect.
  Integer columns are SQLite's signed 64-bit integers, so \<open>as i64\<close> is \<^const>\<open>sint\<close>.
\<close>


subsection \<open>Codec and failures\<close>

record snapshot_envelope =
  se_format_version :: u16
  se_snapshot :: store_snapshot

record 'p codec =
  op_to_vec :: "stored_op_envelope \<Rightarrow> serde_error + 'p"
  op_from_slice :: "'p \<Rightarrow> serde_error + stored_op_envelope"
  raw_op_from_slice :: "'p \<Rightarrow> serde_error + stored_op"
  snap_to_vec :: "snapshot_envelope \<Rightarrow> serde_error + 'p"
  snap_from_slice :: "'p \<Rightarrow> serde_error + snapshot_envelope"
  payload_len :: "'p \<Rightarrow> nat"

text \<open>The documented behaviour of derived serde implementations that the sink relies on:
  encoding succeeds and decoding gives the value back.\<close>

definition codec_ok :: "'p codec \<Rightarrow> bool" where
  "codec_ok cdc \<longleftrightarrow>
    (\<forall>env. \<exists>p. op_to_vec cdc env = Inr p \<and> op_from_slice cdc p = Inr env) \<and>
    (\<forall>env. \<exists>p. snap_to_vec cdc env = Inr p \<and> snap_from_slice cdc p = Inr env)"

datatype sql_call = SqlBegin | SqlPrepare | SqlExecute nat | SqlCommit | SqlQuery | SqlBatch
  | SqlReadMeta string | SqlWriteMeta string | SqlPragma string

type_synonym sql_faults = "sql_call \<Rightarrow> sqlite_error option"

definition no_faults :: sql_faults where
  "no_faults = (\<lambda>_. None)"

text \<open>The operator \<open>?\<close> on a call that can fail.\<close>

definition sql_try :: "sql_faults \<Rightarrow> sql_call \<Rightarrow> (persist_error + 'a) \<Rightarrow> persist_error + 'a" where
  "sql_try flt c k = (case flt c of Some e \<Rightarrow> Inl (PeSqlite e) | None \<Rightarrow> k)"

definition serde_try :: "serde_error + 'a \<Rightarrow> ('a \<Rightarrow> persist_error + 'b) \<Rightarrow> persist_error + 'b" where
  "serde_try x k = (case x of Inl e \<Rightarrow> Inl (PeSerde e) | Inr v \<Rightarrow> k v)"

lemma sql_try_no_faults [simp]: "sql_try no_faults c k = k"
  by (simp add: sql_try_def no_faults_def)


subsection \<open>Tables and statements\<close>

record 'p event_row =
  ev_seq :: int
  ev_ts_ms :: int
  ev_kind :: int
  ev_qso_id :: "int option"
  ev_payload :: 'p

record 'p snapshot_row =
  sr_id :: int
  sr_last_seq :: int
  sr_ts_ms :: int
  sr_payload :: 'p

record 'p database =
  db_events :: "'p event_row list"
  db_snapshots :: "'p snapshot_row list"
  db_meta :: "(string, string) mapping"

text \<open>\<open>CREATE TABLE IF NOT EXISTS\<close>: the tables of a new database are empty, existing ones stay.\<close>

definition empty_database :: "'p database" where
  "empty_database = \<lparr>db_events = [], db_snapshots = [], db_meta = Mapping.empty\<rparr>"

text \<open>\<open>INSERT INTO events\<close> under \<open>seq INTEGER PRIMARY KEY\<close>.\<close>

definition insert_event :: "'p event_row \<Rightarrow> 'p event_row list \<Rightarrow> sqlite_error + 'p event_row list" where
  "insert_event row rows =
    (if ev_seq row \<in> ev_seq ` set rows
     then Inl (ConstraintViolation ''UNIQUE constraint failed: events.seq'')
     else Inr (rows @ [row]))"

text \<open>\<open>SELECT \<dots> FROM events WHERE seq > ?1 ORDER BY seq ASC\<close>\<close>

definition select_events_after :: "int \<Rightarrow> 'p event_row list \<Rightarrow> 'p event_row list" where
  "select_events_after n rows = sort_key ev_seq (filter (\<lambda>row. n < ev_seq row) rows)"

text \<open>\<open>DELETE FROM events WHERE seq <= ?1\<close>, with the number of rows deleted.\<close>

definition delete_events_through :: "int \<Rightarrow> 'p event_row list \<Rightarrow> nat \<times> 'p event_row list" where
  "delete_events_through n rows =
    (length (filter (\<lambda>row. ev_seq row \<le> n) rows), filter (\<lambda>row. \<not> ev_seq row \<le> n) rows)"

text \<open>\<open>SELECT MAX(seq) FROM events\<close> always returns one row; it holds NULL (\<open>None\<close>) for an
  empty table.\<close>

definition select_max_seq :: "'p event_row list \<Rightarrow> int option" where
  "select_max_seq rows = (if rows = [] then None else Some (Max (ev_seq ` set rows)))"

text \<open>\<open>INSERT INTO snapshots\<close> without an id: the next row id.\<close>

definition insert_snapshot_row :: "int \<Rightarrow> int \<Rightarrow> 'p \<Rightarrow> 'p snapshot_row list \<Rightarrow> 'p snapshot_row list" where
  "insert_snapshot_row last_seq ts payload rows =
    rows @ [\<lparr>sr_id = (if rows = [] then 1 else Max (sr_id ` set rows) + 1),
             sr_last_seq = last_seq, sr_ts_ms = ts, sr_payload = payload\<rparr>]"

text \<open>\<open>SELECT payload FROM snapshots ORDER BY id DESC LIMIT 1\<close>\<close>

definition select_latest_snapshot :: "'p snapshot_row list \<Rightarrow> 'p option" where
  "select_latest_snapshot rows =
    (case rev (sort_key sr_id rows) of [] \<Rightarrow> None | row # _ \<Rightarrow> Some (sr_payload row))"


subsection \<open>Journal rows\<close>

definition SNAPSHOT_FORMAT_VERSION :: u16 where
  "SNAPSHOT_FORMAT_VERSION = 1"

definition as_i64 :: "u64 \<Rightarrow> int" where
  "as_i64 n = sint n"

fun op_kind_and_id :: "op \<Rightarrow> int \<times> qso_id option" where
  "op_kind_and_id (OpInsert qso) = (1, Some (qr_id qso))"
| "op_kind_and_id (OpPatch i _ _) = (2, Some i)"
| "op_kind_and_id (OpVoid i _) = (3, Some i)"

definition event_row_of :: "stored_op \<Rightarrow> 'p \<Rightarrow> 'p event_row" where
  "event_row_of stored payload =
    (let (kind, qso_id) = op_kind_and_id (so_op stored) in
     \<lparr>ev_seq = as_i64 (so_seq stored), ev_ts_ms = as_i64 (so_ts_ms stored), ev_kind = kind,
      ev_qso_id = map_option as_i64 qso_id, ev_payload = payload\<rparr>)"

definition decode_stored_op_payload :: "'p codec \<Rightarrow> 'p \<Rightarrow> string + stored_op" where
  "decode_stored_op_payload cdc payload =
    (case op_from_slice cdc payload of
       Inr envelope \<Rightarrow>
         if env_format_version envelope \<noteq> OP_FORMAT_VERSION
         then Inl (''unsupported op format version: '' @ nat_to_string (unat (env_format_version envelope)))
         else Inr (env_stored envelope)
     | Inl _ \<Rightarrow>
       (case raw_op_from_slice cdc payload of
          Inl e \<Rightarrow> Inl (''op payload decode failed: '' @ e)
        | Inr stored \<Rightarrow> Inr stored))"

text \<open>The row closure of \<open>load_events_after\<close>.\<close>

definition stored_op_of_row :: "'p codec \<Rightarrow> 'p event_row \<Rightarrow> persist_error + stored_op" where
  "stored_op_of_row cdc row =
    (case decode_stored_op_payload cdc (ev_payload row) of
       Inl err \<Rightarrow> Inl (PeSqlite (FromSqlConversionFailure (payload_len cdc (ev_payload row)) err))
     | Inr stored \<Rightarrow> Inr (stored\<lparr>so_seq := word_of_int (ev_seq row), so_ts_ms := word_of_int (ev_ts_ms row)\<rparr>))"

fun collect_rows :: "('r \<Rightarrow> persist_error + 'a) \<Rightarrow> 'r list \<Rightarrow> persist_error + 'a list" where
  "collect_rows f [] = Inr []"
| "collect_rows f (row # rows) =
    (case f row of
       Inl e \<Rightarrow> Inl e
     | Inr x \<Rightarrow> (case collect_rows f rows of Inl e \<Rightarrow> Inl e | Inr xs \<Rightarrow> Inr (x # xs)))"


subsection \<open>Appending and loading\<close>

text \<open>A \<open>u64\<close> parameter is bound as an \<open>i64\<close>; a value that does not fit is an error.\<close>

definition load_events_after :: "'p codec \<Rightarrow> sql_faults \<Rightarrow> op_seq \<Rightarrow> 'p database \<Rightarrow> persist_error + stored_op list" where
  "load_events_after cdc flt seq db =
    sql_try flt SqlPrepare
      (if \<not> seq < 2 ^ 63 then Inl (PeSqlite (ToSqlConversionFailure ''out of range integral type conversion attempted''))
       else sql_try flt SqlQuery
         (collect_rows (stored_op_of_row cdc) (select_events_after (as_i64 seq) (db_events db))))"

text \<open>\<open>latest_seq\<close>: the column is read as \<open>i64\<close>, and \<open>optional()\<close> turns only the absence of a
  row into \<open>None\<close>.\<close>

definition latest_seq :: "sql_faults \<Rightarrow> 'p database \<Rightarrow> persist_error + op_seq" where
  "latest_seq flt db =
    sql_try flt SqlQuery
      (case select_max_seq (db_events db) of
         None \<Rightarrow> Inl (PeSqlite (InvalidColumnType 0 ''MAX(seq)''))
       | Some n \<Rightarrow> Inr (word_of_int n))"

text \<open>The loop of \<open>append_ops\<close> inside its transaction.\<close>

fun insert_events ::
    "'p codec \<Rightarrow> sql_faults \<Rightarrow> nat \<Rightarrow> stored_op list \<Rightarrow> 'p event_row list \<Rightarrow> persist_error + 'p event_row list" where
  "insert_events cdc flt n [] rows = Inr rows"
| "insert_events cdc flt n (stored # ops) rows =
    serde_try (op_to_vec cdc (envelope_new stored)) (\<lambda>payload.
      sql_try flt (SqlExecute n)
        (case insert_event (event_row_of stored payload) rows of
           Inl e \<Rightarrow> Inl (PeSqlite e)
         | Inr rows' \<Rightarrow> insert_events cdc flt (Suc n) ops rows'))"

text \<open>A transaction that is dropped without \<open>commit\<close> is rolled back: every error leaves the
  database as it was.\<close>

definition append_ops :: "'p codec \<Rightarrow> sql_faults \<Rightarrow> stored_op list \<Rightarrow> ('p database, op_seq) sink_call" where
  "append_ops cdc flt ops db =
    (if ops = [] then (latest_seq flt db, db)
     else case sql_try flt SqlBegin (sql_try flt SqlPrepare (insert_events cdc flt 0 ops (db_events db))) of
       Inl e \<Rightarrow> (Inl e, db)
     | Inr rows \<Rightarrow>
        (case flt SqlCommit of
           Some e \<Rightarrow> (Inl (PeSqlite e), db)
         | None \<Rightarrow> (Inr (so_seq (last ops)), db\<lparr>db_events := rows\<rparr>)))"

text \<open>\<open>PRAGMA wal_checkpoint(PASSIVE)\<close> moves frames between files; the tables stay.\<close>

definition sqlite_flush :: "sql_faults \<Rightarrow> ('p database, unit) sink_call" where
  "sqlite_flush flt db = (sql_try flt SqlBatch (Inr ()), db)"

definition write_snapshot ::
    "'p codec \<Rightarrow> sql_faults \<Rightarrow> int \<Rightarrow> store_snapshot \<Rightarrow> op_seq \<Rightarrow> ('p database, unit) sink_call" where
  "write_snapshot cdc flt clk snapshot last_seq db =
    (let env = \<lparr>se_format_version = SNAPSHOT_FORMAT_VERSION, se_snapshot = snapshot\<rparr> in
     case serde_try (snap_to_vec cdc env) (\<lambda>payload.
       sql_try flt (SqlExecute 0) (Inr (insert_snapshot_row (as_i64 last_seq) (as_i64 (now_ms clk)) payload (db_snapshots db)))) of
       Inl e \<Rightarrow> (Inl e, db)
     | Inr rows \<Rightarrow> (Inr (), db\<lparr>db_snapshots := rows\<rparr>))"

definition compact_through :: "sql_faults \<Rightarrow> op_seq \<Rightarrow> ('p database, nat) sink_call" where
  "compact_through flt seq db =
    (case flt (SqlExecute 0) of
       Some e \<Rightarrow> (Inl (PeSqlite e), db)
     | None \<Rightarrow>
       (let (count, rows) = delete_events_through (as_i64 seq) (db_events db)
        in (Inr count, db\<lparr>db_events := rows\<rparr>)))"

definition load_latest_snapshot :: "'p codec \<Rightarrow> sql_faults \<Rightarrow> 'p database \<Rightarrow> persist_error + store_snapshot option" where
  "load_latest_snapshot cdc flt db =
    sql_try flt SqlQuery
      (case select_latest_snapshot (db_snapshots db) of
         None \<Rightarrow> Inr None
       | Some payload \<Rightarrow>
          serde_try (snap_from_slice cdc payload) (\<lambda>env.
            if se_format_version env \<noteq> SNAPSHOT_FORMAT_VERSION
            then Inl (PeMessage ''unsupported snapshot format'')
            else Inr (Some (se_snapshot env))))"

text \<open>\<open>load_store\<close>; \<open>None\<close> is a panic of the replay. The two queries fail independently.\<close>

definition load_store ::
    "profile \<Rightarrow> (nat \<Rightarrow> int) \<Rightarrow> 'p codec \<Rightarrow> sql_faults \<Rightarrow> sql_faults \<Rightarrow> 'p database
      \<Rightarrow> (persist_error + qso_store) option" where
  "load_store pf clk cdc flt flt' db =
    (case load_latest_snapshot cdc flt db of
       Inl e \<Rightarrow> Some (Inl e)
     | Inr osnap \<Rightarrow>
       (case (case osnap of Some snapshot \<Rightarrow> from_snapshot snapshot | None \<Rightarrow> Inr new_store) of
          Inl e \<Rightarrow> Some (Inl (persist_error_of_store e))
        | Inr store \<Rightarrow>
          (let start_seq = saturating_sub (snap_next_op_seq (export_snapshot store)) 1 in
           case load_events_after cdc flt' start_seq db of
             Inl e \<Rightarrow> Some (Inl e)
           | Inr events \<Rightarrow>
             (case replay_all pf clk events store of
                Panic \<Rightarrow> None
              | Err e _ \<Rightarrow> Some (Inl (persist_error_of_store e))
              | Ok _ store' \<Rightarrow> Some (Inr store')))))"


subsection \<open>Format versions (the meta table)\<close>

text \<open>A statement outside a transaction commits on its own: what was written before an error
  stays written. \<open>;;\<close> of the source is \<open>meta_then\<close>.\<close>

type_synonym 'a meta_call = "((string, string) mapping, 'a) sink_call"

definition meta_then :: "'a meta_call \<Rightarrow> ('a \<Rightarrow> 'b meta_call) \<Rightarrow> 'b meta_call" where
  "meta_then m f t = (case m t of (Inl e, t') \<Rightarrow> (Inl e, t') | (Inr x, t') \<Rightarrow> f x t')"

definition DB_SCHEMA_VERSION :: u32 where
  "DB_SCHEMA_VERSION = 1"

definition META_SCHEMA_VERSION :: string where
  "META_SCHEMA_VERSION = ''schema_version''"

definition META_OP_FORMAT_VERSION :: string where
  "META_OP_FORMAT_VERSION = ''op_format_version''"

definition META_SNAPSHOT_FORMAT_VERSION :: string where
  "META_SNAPSHOT_FORMAT_VERSION = ''snapshot_format_version''"

definition META_STATION_INSTANCE_ID :: string where
  "META_STATION_INSTANCE_ID = ''station_instance_id''"

definition read_meta :: "sql_faults \<Rightarrow> string \<Rightarrow> string option meta_call" where
  "read_meta flt key t = (sql_try flt (SqlReadMeta key) (Inr (Mapping.lookup t key)), t)"

definition read_u32_meta :: "sql_faults \<Rightarrow> string \<Rightarrow> u32 option meta_call" where
  "read_u32_meta flt key = meta_then (read_meta flt key) (\<lambda>o_raw t.
    (case o_raw of
       None \<Rightarrow> Inr None
     | Some raw \<Rightarrow>
        (case parse_u32 raw of
           Inr n \<Rightarrow> Inr (Some n)
         | Inl e \<Rightarrow> Inl (PeMessage (''invalid meta value for '' @ key @ '': '' @ raw @ '' ('' @
             parse_int_error_text e @ '')''))), t))"

text \<open>\<open>INSERT \<dots> ON CONFLICT(key) DO UPDATE SET value=excluded.value\<close>\<close>

definition write_meta :: "sql_faults \<Rightarrow> string \<Rightarrow> string \<Rightarrow> unit meta_call" where
  "write_meta flt key v t =
    (case flt (SqlWriteMeta key) of
       Some e \<Rightarrow> (Inl (PeSqlite e), t)
     | None \<Rightarrow> (Inr (), Mapping.update key v t))"

definition ensure_version :: "sql_faults \<Rightarrow> string \<Rightarrow> string \<Rightarrow> u32 \<Rightarrow> unit meta_call" where
  "ensure_version flt key what supported =
    meta_then (read_u32_meta flt key) (\<lambda>o_found.
      case o_found of
        Some found \<Rightarrow> (\<lambda>t.
          if found > supported
          then (Inl (PeMessage (''unsupported '' @ what @ '' version: '' @ nat_to_string (unat found))), t)
          else (Inr (), t))
      | None \<Rightarrow> write_meta flt key (nat_to_string (unat supported)))"

definition ensure_meta_defaults :: "sql_faults \<Rightarrow> unit meta_call" where
  "ensure_meta_defaults flt =
    meta_then (ensure_version flt META_OP_FORMAT_VERSION ''op format'' (ucast OP_FORMAT_VERSION)) (\<lambda>_.
    meta_then (ensure_version flt META_SNAPSHOT_FORMAT_VERSION ''snapshot format'' (ucast SNAPSHOT_FORMAT_VERSION)) (\<lambda>_.
    meta_then (read_meta flt META_STATION_INSTANCE_ID) (\<lambda>o_id.
      if o_id = None then write_meta flt META_STATION_INSTANCE_ID ''local'' else (\<lambda>t. (Inr (), t)))))"

text \<open>There is one schema so far: migrating runs the schema script again, which changes no row.\<close>

definition migrate_schema :: "sql_faults \<Rightarrow> u32 \<Rightarrow> u32 \<Rightarrow> unit meta_call" where
  "migrate_schema flt from_v to_v t = (if from_v = to_v then Inr () else sql_try flt SqlBatch (Inr ()), t)"

definition initialize_or_migrate_meta :: "sql_faults \<Rightarrow> unit meta_call" where
  "initialize_or_migrate_meta flt =
    meta_then (read_u32_meta flt META_SCHEMA_VERSION) (\<lambda>current.
      case current of
        None \<Rightarrow>
          meta_then (write_meta flt META_SCHEMA_VERSION (nat_to_string (unat DB_SCHEMA_VERSION))) (\<lambda>_.
          meta_then (write_meta flt META_OP_FORMAT_VERSION (nat_to_string (unat OP_FORMAT_VERSION))) (\<lambda>_.
          meta_then (write_meta flt META_SNAPSHOT_FORMAT_VERSION (nat_to_string (unat SNAPSHOT_FORMAT_VERSION))) (\<lambda>_.
          write_meta flt META_STATION_INSTANCE_ID ''local'')))
      | Some found \<Rightarrow>
          if found = DB_SCHEMA_VERSION then ensure_meta_defaults flt
          else if found < DB_SCHEMA_VERSION then
            meta_then (migrate_schema flt found DB_SCHEMA_VERSION) (\<lambda>_.
            meta_then (write_meta flt META_SCHEMA_VERSION (nat_to_string (unat DB_SCHEMA_VERSION))) (\<lambda>_.
            ensure_meta_defaults flt))
          else (\<lambda>t. (Inl (PeMessage (''unsupported schema version: '' @ nat_to_string (unat found))), t)))"

text \<open>\<open>init_connection\<close> on the database file found by \<open>open\<close> or an empty one.\<close>

definition init_connection :: "sql_faults \<Rightarrow> sql_faults \<Rightarrow> ('p database, unit) sink_call" where
  "init_connection flt flt' db =
    (case flt SqlBatch of
       Some e \<Rightarrow> (Inl (PeSqlite e), db)
     | None \<Rightarrow>
       (case initialize_or_migrate_meta flt' (db_meta db) of
          (Inl e, t) \<Rightarrow> (Inl e, db\<lparr>db_meta := t\<rparr>)
        | (Inr _, t) \<Rightarrow>
          (sql_try flt (SqlPragma ''journal_mode'') (sql_try flt (SqlPragma ''synchronous'') (Inr ())),
           db\<lparr>db_meta := t\<rparr>)))"


text \<open>Opening a file or a database in memory: what \<open>rusqlite\<close> hands over is an argument.\<close>

definition sqlite_open ::
    "sqlite_error + 'p database \<Rightarrow> sql_faults \<Rightarrow> sql_faults \<Rightarrow> persist_error + 'p database" where
  "sqlite_open conn flt flt' =
    (case conn of
       Inl e \<Rightarrow> Inl (PeSqlite e)
     | Inr db \<Rightarrow>
       (case init_connection flt flt' db of
          (Inl e, _) \<Rightarrow> Inl e
        | (Inr _, db') \<Rightarrow> Inr db'))"


subsection \<open>The sink as the runtime sees it\<close>

text \<open>A connection: the database, and what the environment does at each future call of a sink
  method (failures, clock); past the end of the list nothing fails.\<close>

type_synonym 'p connection = "'p database \<times> (sql_faults \<times> int) list"

fun with_conn :: "(sql_faults \<Rightarrow> int \<Rightarrow> ('p database, 'a) sink_call) \<Rightarrow> ('p connection, 'a) sink_call" where
  "with_conn f (db, []) = (let (out, db') = f no_faults 0 db in (out, (db', [])))"
| "with_conn f (db, (flt, clk) # env) = (let (out, db') = f flt clk db in (out, (db', env)))"

definition sqlite_sink :: "'p codec \<Rightarrow> 'p connection op_sink" where
  "sqlite_sink cdc = \<lparr>
    sink_append_ops = (\<lambda>ops. with_conn (\<lambda>flt _. append_ops cdc flt ops)),
    sink_flush = with_conn (\<lambda>flt _. sqlite_flush flt),
    sink_write_snapshot = (\<lambda>snapshot last_seq. with_conn (\<lambda>flt clk. write_snapshot cdc flt clk snapshot last_seq)),
    sink_compact_through = (\<lambda>seq. with_conn (\<lambda>flt _. compact_through flt seq))\<rparr>"

definition entry_row :: "'p codec \<Rightarrow> stored_op \<Rightarrow> 'p event_row" where
  "entry_row cdc so = event_row_of so (projr (op_to_vec cdc (envelope_new so)))"

lemma with_conn_eq:
  "with_conn f c = (out, c') \<Longrightarrow> \<exists>flt clk. f flt clk (fst c) = (out, fst c')"
proof (cases "snd c")
  case Nil
  then show "with_conn f c = (out, c') \<Longrightarrow> ?thesis"
    by (cases c) (auto simp: Let_def split: prod.splits, blast)
next
  case (Cons x env)
  then show "with_conn f c = (out, c') \<Longrightarrow> ?thesis"
    by (cases c; cases x) (auto simp: Let_def split: prod.splits, blast)
qed

lemma insert_events_rows:
  "insert_events cdc flt n ops rows = Inr rows' \<Longrightarrow> rows' = rows @ map (entry_row cdc) ops"
proof (induction cdc flt n ops rows rule: insert_events.induct)
  case (2 cdc flt n stored ops rows)
  from "2.prems" obtain payload rows1 where enc: "op_to_vec cdc (envelope_new stored) = Inr payload"
    and flt: "flt (SqlExecute n) = None" and ins: "insert_event (event_row_of stored payload) rows = Inr rows1"
    and rest: "insert_events cdc flt (Suc n) ops rows1 = Inr rows'"
    by (auto simp: serde_try_def sql_try_def split: sum.splits option.splits)
  have "insert_events cdc flt (Suc n) ops rows1 = Inr rows' \<Longrightarrow> rows' = rows1 @ map (entry_row cdc) ops"
    by (rule "2.IH" [OF ins])
  with rest ins enc show ?case
    by (auto simp: insert_event_def entry_row_def split: if_splits)
qed simp

lemma append_ops_cases:
  assumes "append_ops cdc flt ops db = (out, db')"
  obtains e where "out = Inl e" "db' = db"
    | "ops = []" "db' = db"
    | "ops \<noteq> []" "out = Inr (so_seq (last ops))" "db' = db\<lparr>db_events := db_events db @ map (entry_row cdc) ops\<rparr>"
  using assms insert_events_rows [of cdc flt 0 ops "db_events db"]
  by (auto simp: append_ops_def sql_try_def split: if_splits sum.splits option.splits)

lemma other_calls_keep_events:
  "db_events (snd (sqlite_flush flt db)) = db_events db"
  "db_events (snd (write_snapshot cdc flt clk snap n db)) = db_events db"
  "fst (compact_through flt n db) = Inl e \<Longrightarrow> db_events (snd (compact_through flt n db)) = db_events db"
  "fst (compact_through flt n db) = Inr k \<Longrightarrow>
    db_events (snd (compact_through flt n db)) = filter (\<lambda>row. \<not> ev_seq row \<le> as_i64 n) (db_events db)"
  by (auto simp: sqlite_flush_def write_snapshot_def compact_through_def delete_events_through_def Let_def
      split: sum.split option.splits)

interpretation sqlite: journal_sink "sqlite_sink cdc" "\<lambda>c. mset (db_events (fst c))" "entry_row cdc"
    "\<lambda>n row. ev_seq row \<le> as_i64 n" for cdc :: "'p codec"
proof unfold_locales
  fix ops seq and s s' :: "'p connection"
  assume "sink_append_ops (sqlite_sink cdc) ops s = (Inr seq, s')"
  then obtain flt where app: "append_ops cdc flt ops (fst s) = (Inr seq, fst s')"
    by (auto simp: sqlite_sink_def dest: with_conn_eq)
  from app show "mset (db_events (fst s')) = mset (db_events (fst s)) + image_mset (entry_row cdc) (mset ops)"
    by (rule append_ops_cases) auto
  from app show "ops \<noteq> [] \<Longrightarrow> seq = so_seq (last ops)"
    by (rule append_ops_cases) auto
next
  fix ops e and s s' :: "'p connection"
  assume "sink_append_ops (sqlite_sink cdc) ops s = (Inl e, s')"
  then obtain flt where "append_ops cdc flt ops (fst s) = (Inl e, fst s')"
    by (auto simp: sqlite_sink_def dest: with_conn_eq)
  then show "mset (db_events (fst s')) = mset (db_events (fst s))"
    by (rule append_ops_cases) auto
next
  fix out and s s' :: "'p connection"
  assume "sink_flush (sqlite_sink cdc) s = (out, s')"
  then show "mset (db_events (fst s')) = mset (db_events (fst s))"
    by (auto simp: sqlite_sink_def sqlite_flush_def dest!: with_conn_eq)
next
  fix snap n out and s s' :: "'p connection"
  assume "sink_write_snapshot (sqlite_sink cdc) snap n s = (out, s')"
  then obtain flt clk where "write_snapshot cdc flt clk snap n (fst s) = (out, fst s')"
    by (auto simp: sqlite_sink_def dest: with_conn_eq)
  then show "mset (db_events (fst s')) = mset (db_events (fst s))"
    using other_calls_keep_events(2) [of cdc flt clk snap n "fst s"] by simp
next
  fix n k and s s' :: "'p connection"
  assume "sink_compact_through (sqlite_sink cdc) n s = (Inr k, s')"
  then obtain flt where "compact_through flt n (fst s) = (Inr k, fst s')"
    by (auto simp: sqlite_sink_def dest: with_conn_eq)
  then show "mset (db_events (fst s')) = {# row \<in># mset (db_events (fst s)). \<not> ev_seq row \<le> as_i64 n #}"
    using other_calls_keep_events(4) [of flt n "fst s" k] by simp
next
  fix n e and s s' :: "'p connection"
  assume "sink_compact_through (sqlite_sink cdc) n s = (Inl e, s')"
  then obtain flt where "compact_through flt n (fst s) = (Inl e, fst s')"
    by (auto simp: sqlite_sink_def dest: with_conn_eq)
  then show "mset (db_events (fst s')) = mset (db_events (fst s))"
    using other_calls_keep_events(3) [of flt n "fst s" e] by simp
qed

end
