(* ===== verification/Qso_Worker.thy ===== *)
theory Qso_Worker
  imports Qso_Runtime Qso_Sqlite
begin

section \<open>The worker accounts for every operation\<close>

text \<open>
  An operation that entered the queue is in the queue, in the worker's buffer, or held by
  the sink, until a batch fails: then an error goes to the loop and at most that batch is
  lost. The lemmas are proved once for any sink that satisfies \<open>journal_sink\<close>, and so
  for SQLite.
\<close>

fun queued_ops :: "persist_msg list \<Rightarrow> stored_op list" where
  "queued_ops [] = []"
| "queued_ops (MsgOp so # q) = so # queued_ops q"
| "queued_ops (_ # q) = queued_ops q"

lemma queued_ops_append [simp]: "queued_ops (p @ q) = queued_ops p @ queued_ops q"
  by (induction p rule: queued_ops.induct) simp_all

definition reported_error :: "'s worker \<Rightarrow> bool" where
  "reported_error w \<longleftrightarrow> (\<exists>e. Inl e \<in> set (wk_durable w))"

text \<open>Where an accepted operation can be, as entries of the sink.\<close>

definition accounted :: "('s \<Rightarrow> 'e multiset) \<Rightarrow> (stored_op \<Rightarrow> 'e) \<Rightarrow> 's worker \<Rightarrow> 'e multiset" where
  "accounted held entry w =
    held (wk_sink w) + image_mset entry (mset (wk_buf w)) + image_mset entry (mset (queued_ops (wk_queue w)))"

text \<open>A worker step that loses at most the batch \<open>ops\<close>, and then reports an error in this step.\<close>

definition accounts ::
    "('s \<Rightarrow> 'e multiset) \<Rightarrow> (stored_op \<Rightarrow> 'e) \<Rightarrow> stored_op list \<Rightarrow> 's worker \<Rightarrow> 's worker \<Rightarrow> bool" where
  "accounts held entry ops w w' \<longleftrightarrow>
    (\<exists>reports. wk_durable w' = wk_durable w @ reports \<and>
      (accounted held entry w' = accounted held entry w \<or>
       (\<exists>e. Inl e \<in> set reports) \<and> accounted held entry w' \<subseteq># accounted held entry w \<and>
       accounted held entry w \<subseteq># accounted held entry w' + image_mset entry (mset ops)))"

lemma accounts_cases:
  assumes "accounts held entry ops w w'"
  shows "accounted held entry w' = accounted held entry w \<or>
    (\<exists>reports e. wk_durable w' = wk_durable w @ reports \<and> Inl e \<in> set reports) \<and>
      accounted held entry w' \<subseteq># accounted held entry w \<and>
      accounted held entry w \<subseteq># accounted held entry w' + image_mset entry (mset ops)"
  using assms by (auto simp: accounts_def)

fun compacting :: "persist_msg \<Rightarrow> bool" where
  "compacting (MsgCheckpoint _ _ c) = c"
| "compacting _ = False"

definition same_wiring :: "'s worker \<Rightarrow> 's worker \<Rightarrow> bool" where
  "same_wiring w w' \<longleftrightarrow> wk_running w' = wk_running w \<and> wk_queue w' = wk_queue w \<and> wk_reply w' = wk_reply w"

lemma report_sel [simp]:
  "wk_durable (report m w) = wk_durable w @ [m]" "wk_buf (report m w) = wk_buf w"
  "wk_queue (report m w) = wk_queue w" "wk_sink (report m w) = wk_sink w"
  "wk_running (report m w) = wk_running w" "wk_reply (report m w) = wk_reply w"
  "wk_last_durable (report m w) = wk_last_durable w"
  by (simp_all add: report_def)

lemma flush_buf_wiring:
  "flush_buf fm sink cf w = (out, w') \<Longrightarrow> wk_buf w' = [] \<and> same_wiring w w'"
  by (auto simp: flush_buf_def same_wiring_def Let_def split: prod.splits sum.splits if_splits)

context journal_sink
begin

lemma append_and_flush_held:
  assumes "append_and_flush sink ops cf s = (out, s')"
  shows "case out of
      Inr seq \<Rightarrow> held s' = held s + image_mset entry (mset ops) \<and> (ops \<noteq> [] \<longrightarrow> seq = so_seq (last ops))
    | Inl _ \<Rightarrow> held s' = held s \<or> held s' = held s + image_mset entry (mset ops)"
proof -
  obtain a s1 where app: "sink_append_ops sink ops s = (a, s1)" by fastforce
  show ?thesis
  proof (cases a)
    case (Inl e)
    with app assms append_err show ?thesis by (auto simp: append_and_flush_def)
  next
    case (Inr seq)
    obtain b s2 where fl: "sink_flush sink s1 = (b, s2)" by fastforce
    have "held s1 = held s + image_mset entry (mset ops)" "ops \<noteq> [] \<longrightarrow> seq = so_seq (last ops)"
      using app append_ok append_seq Inr by auto
    moreover have "held s2 = held s1" by (rule flush_held [OF fl])
    ultimately show ?thesis
      using assms app fl Inr by (auto simp: append_and_flush_def split: if_splits sum.splits)
  qed
qed

lemma flush_buf_accounts:
  assumes "flush_buf fm sink cf w = (out, w')"
  shows "accounts held entry (wk_buf w) w w' \<and>
    (\<not> isl out \<longrightarrow> accounted held entry w' = accounted held entry w)"
proof (cases "wk_buf w = []")
  case True
  with assms show ?thesis
    by (auto simp: flush_buf_def accounts_def accounted_def flush_held Let_def split: if_splits prod.splits)
next
  case False
  obtain out1 s where app: "append_and_flush sink (wk_buf w) cf (wk_sink w) = (out1, s)" by fastforce
  note held = append_and_flush_held [OF app]
  show ?thesis
  proof (cases out1)
    case (Inl e)
    with assms False app have w': "out = Inl e" "w' = report (Inl (PeMessage (''append failed: '' @ debug_persist_error fm e)))
        (w\<lparr>wk_buf := [], wk_sink := s\<rparr>)"
      by (auto simp: flush_buf_def Let_def)
    from held Inl show ?thesis
      by (auto simp: w' accounts_def accounted_def reported_error_def)
  next
    case (Inr seq)
    with assms False app held show ?thesis
      by (auto simp: flush_buf_def Let_def accounts_def accounted_def)
  qed
qed

lemma worker_handle_accounts:
  assumes "\<not> compacting msg" "wk_queue w = msg # rest"
  shows "accounts held entry (wk_buf w @ queued_ops [msg]) w (worker_handle fm cfg sink msg (w\<lparr>wk_queue := rest\<rparr>))"
proof (cases msg)
  case (MsgOp so)
  let ?w1 = "w\<lparr>wk_queue := rest, wk_buf := wk_buf w @ [so]\<rparr>"
  obtain out w2 where fl: "flush_buf fm sink True ?w1 = (out, w2)" by fastforce
  have "accounted held entry ?w1 = accounted held entry w"
    using assms(2) MsgOp by (simp add: accounted_def)
  moreover have "wk_durable ?w1 = wk_durable w" by simp
  ultimately have "accounts held entry (wk_buf w @ [so]) w ?w1" "accounts held entry (wk_buf w @ [so]) w w2"
    using flush_buf_accounts [OF fl] by (simp_all add: accounts_def)
  with MsgOp fl show ?thesis by (simp add: Let_def)
next
  case MsgFlush
  let ?w1 = "w\<lparr>wk_queue := rest\<rparr>"
  obtain out w2 where fl: "flush_buf fm sink True ?w1 = (out, w2)" by fastforce
  have "accounted held entry ?w1 = accounted held entry w"
    using assms(2) MsgFlush by (simp add: accounted_def)
  with flush_buf_accounts [OF fl] MsgFlush fl show ?thesis
    by (simp add: accounts_def Let_def accounted_def reported_error_def)
next
  case (MsgCheckpoint snap n c)
  let ?w1 = "w\<lparr>wk_queue := rest\<rparr>"
  obtain out w2 where fl: "flush_buf fm sink True ?w1 = (out, w2)" by fastforce
  obtain a s where wr: "sink_write_snapshot sink snap n (wk_sink w2) = (a, s)" by fastforce
  have "accounted held entry ?w1 = accounted held entry w"
    using assms(2) MsgCheckpoint by (simp add: accounted_def)
  moreover have "held s = held (wk_sink w2)" by (rule snapshot_held [OF wr])
  ultimately show ?thesis
    using flush_buf_accounts [OF fl] MsgCheckpoint fl wr assms(1)
    by (auto simp: accounts_def accounted_def reported_error_def write_checkpoint_def split: sum.splits)
next
  case MsgShutdown
  let ?w1 = "w\<lparr>wk_queue := rest\<rparr>"
  obtain out w2 where fl: "flush_buf fm sink True ?w1 = (out, w2)" by fastforce
  have "accounted held entry ?w1 = accounted held entry w"
    using assms(2) MsgShutdown by (simp add: accounted_def)
  with flush_buf_accounts [OF fl] MsgShutdown fl show ?thesis
    by (simp add: accounts_def accounted_def reported_error_def)
qed

text \<open>A compacting checkpoint: as the others when it fails, otherwise it removes covered entries.\<close>

lemma compacting_accounts:
  assumes "wk_queue w = MsgCheckpoint snap n True # rest"
    and "w' = worker_handle fm cfg sink (MsgCheckpoint snap n True) (w\<lparr>wk_queue := rest\<rparr>)"
  shows "accounts held entry (wk_buf w) w w' \<or>
    wk_reply w' = Some (ReplyCheckpoint (Inr ())) \<and>
    (\<exists>gone. accounted held entry w = accounted held entry w' + gone \<and> (\<forall>e \<in># gone. covered n e))"
proof -
  let ?w1 = "w\<lparr>wk_queue := rest\<rparr>"
  obtain out w2 where fl: "flush_buf fm sink True ?w1 = (out, w2)" by fastforce
  have acc: "accounts held entry (wk_buf w) w w2" "\<not> isl out \<Longrightarrow> accounted held entry w2 = accounted held entry w"
    using flush_buf_accounts [OF fl] assms(1) by (simp_all add: accounts_def accounted_def)
  show ?thesis
  proof (cases out)
    case (Inl e)
    with acc(1) fl show ?thesis by (simp add: assms(2) accounts_def accounted_def)
  next
    case (Inr u)
    obtain a s where wr: "sink_write_snapshot sink snap n (wk_sink w2) = (a, s)" by fastforce
    obtain b s' where cm: "sink_compact_through sink n s = (b, s')" by fastforce
    have held: "held s = held (wk_sink w2)" by (rule snapshot_held [OF wr])
    show ?thesis
    proof (cases "isl a \<or> isl b")
      case True
      moreover obtain o2 s2 where cp: "write_checkpoint sink snap n True (wk_sink w2) = (o2, s2)" by fastforce
      ultimately have "held s2 = held (wk_sink w2)"
        using wr cm held compact_err by (auto simp: write_checkpoint_def split: sum.splits)
      with acc(1) fl Inr cp show ?thesis
        by (simp add: assms(2) accounts_def accounted_def)
    next
      case False
      then obtain k where k: "b = Inr k" "\<exists>u. a = Inr u" by (cases a; cases b; auto)
      have "held (wk_sink w2) = held s' + {# e \<in># held s. covered n e #}"
        using compact_ok [of n s k s'] cm k(1) held multiset_partition [of "held s" "\<lambda>e. \<not> covered n e"] by simp
      then have "accounted held entry w = accounted held entry w' + {# e \<in># held s. covered n e #}"
        using acc(2) fl Inr wr cm k by (auto simp: assms(2) accounted_def write_checkpoint_def ac_simps)
      moreover have "wk_reply w' = Some (ReplyCheckpoint (Inr ()))"
        using fl Inr wr cm k by (auto simp: assms(2) write_checkpoint_def)
      ultimately show ?thesis by (metis mem_Collect_eq set_mset_filter)
    qed
  qed
qed

lemma worker_recv_accounts:
  assumes "worker_recv fm cfg sink w = Some w'" "\<forall>msg \<in> set (wk_queue w). \<not> compacting msg"
  shows "\<exists>ops. accounts held entry ops w w'"
proof -
  obtain msg rest where "wk_queue w = msg # rest" "w' = worker_handle fm cfg sink msg (w\<lparr>wk_queue := rest\<rparr>)"
    using assms(1) by (auto simp: worker_recv_def split: if_splits list.splits)
  with worker_handle_accounts [of msg w rest fm cfg] assms(2) show ?thesis by auto
qed

lemma worker_tick_accounts:
  assumes "worker_tick fm sink w = Some w'"
  shows "accounts held entry (wk_buf w) w w'"
  using assms flush_buf_accounts [of fm False w]
  by (cases "flush_buf fm sink False w") (auto simp: worker_tick_def split: if_splits)

text \<open>An operation is secured when it is accounted for or an error has been reported.\<close>

definition secured :: "stored_op \<Rightarrow> 's worker \<Rightarrow> bool" where
  "secured so w \<longleftrightarrow> reported_error w \<or> entry so \<in># accounted held entry w"

lemma secured_step: "accounts held entry ops w w' \<Longrightarrow> secured so w \<Longrightarrow> secured so w'"
  by (auto simp: accounts_def secured_def reported_error_def)

lemma secured_pushed: "secured so (w\<lparr>wk_queue := wk_queue w @ [MsgOp so]\<rparr>)"
  by (simp add: secured_def accounted_def)

lemma secured_drained:
  "secured so w \<Longrightarrow> wk_queue w = [] \<Longrightarrow> wk_buf w = [] \<Longrightarrow> reported_error w \<or> entry so \<in># held (wk_sink w)"
  by (simp add: secured_def accounted_def)

end

end
