(* ===== verification/Qso_Runtime_Inv.thy ===== *)
theory Qso_Runtime_Inv
  imports Qso_Worker
begin

section \<open>Invariants of the runtime\<close>

text \<open>
  What holds in every reachable state of loop and worker: the protocol between the two (the
  queue holds operations only, except for the message whose reply the loop waits for; the
  worker stops only when the loop asked it to), the security of the operation a durable
  mutation waits for, and the integrity of the store, whose pending mutation can be rolled
  back.
\<close>


subsection \<open>The protocol\<close>

fun msg_for :: "wait \<Rightarrow> persist_msg \<Rightarrow> bool" where
  "msg_for (WaitMutation _ _ _) MsgFlush = True"
| "msg_for (WaitAutoCheckpoint _) (MsgCheckpoint _ _ _) = True"
| "msg_for WaitFlush MsgFlush = True"
| "msg_for WaitCheckpoint (MsgCheckpoint _ _ _) = True"
| "msg_for WaitShutdown MsgShutdown = True"
| "msg_for _ _ = False"

fun reply_for :: "wait \<Rightarrow> worker_reply \<Rightarrow> bool" where
  "reply_for (WaitMutation _ _ _) (ReplyFlush _) = True"
| "reply_for (WaitAutoCheckpoint _) (ReplyCheckpoint _) = True"
| "reply_for WaitFlush (ReplyFlush _) = True"
| "reply_for WaitCheckpoint (ReplyCheckpoint _) = True"
| "reply_for WaitShutdown ReplyShutdown = True"
| "reply_for _ _ = False"

definition ops_only :: "persist_msg list \<Rightarrow> bool" where
  "ops_only q \<longleftrightarrow> (\<exists>ops. q = map MsgOp ops)"

lemma ops_only_simps [simp]:
  "ops_only []" "ops_only (q @ [MsgOp so]) = ops_only q"
  "ops_only (m # q) \<longleftrightarrow> (\<exists>so. m = MsgOp so) \<and> ops_only q"
  unfolding ops_only_def
  by (auto simp: map_eq_append_conv append_eq_map_conv Cons_eq_map_conv intro: exI [of _ "_ @ [so]"])

definition protocol :: "ctl \<Rightarrow> 's worker \<Rightarrow> bool" where
  "protocol c w \<longleftrightarrow>
    (if wk_running w then
       (case c of
          Idle \<Rightarrow> ops_only (wk_queue w)
        | Stopped \<Rightarrow> ops_only (wk_queue w)
        | Sending m wt \<Rightarrow> msg_for wt m \<and> ops_only (wk_queue w)
        | Awaiting wt \<Rightarrow>
            (case wk_reply w of
               None \<Rightarrow> (\<exists>q m. wk_queue w = q @ [m] \<and> ops_only q \<and> msg_for wt m)
             | Some rep \<Rightarrow> wk_queue w = [] \<and> wk_buf w = [] \<and> reply_for wt rep))
     else wk_queue w = [] \<and> (c = Stopped \<or> c = Awaiting WaitShutdown \<and> wk_reply w = Some ReplyShutdown))"

definition rt_protocol :: "'s runtime \<Rightarrow> bool" where
  "rt_protocol rt \<longleftrightarrow> (case rt_worker rt of None \<Rightarrow> rt_ctl rt = Idle \<or> rt_ctl rt = Stopped | Some w \<Rightarrow> protocol (rt_ctl rt) w)"

text \<open>Frame facts of the loop's helpers.\<close>

lemma respond_sel [simp]:
  "rt_worker (respond r rt) = rt_worker rt" "rt_ctl (respond r rt) = Idle"
  "rt_store (respond r rt) = rt_store rt" "rt_health (respond r rt) = rt_health rt"
  "rt_events (respond r rt) = rt_events rt" "rt_responses (respond r rt) = rt_responses rt @ [r]"
  "rt_ops_since_snapshot (respond r rt) = rt_ops_since_snapshot rt"
  by (simp_all add: respond_def)

lemma emit_sel [simp]:
  "rt_worker (emit e rt) = rt_worker rt" "rt_ctl (emit e rt) = rt_ctl rt"
  "rt_store (emit e rt) = rt_store rt" "rt_health (emit e rt) = rt_health rt"
  "rt_events (emit e rt) = rt_events rt @ [e]" "rt_responses (emit e rt) = rt_responses rt"
  "rt_ops_since_snapshot (emit e rt) = rt_ops_since_snapshot rt"
  by (simp_all add: emit_def)

lemma mark_sel [simp]:
  "rt_worker (mark_persist_unhealthy m rt) = rt_worker rt" "rt_ctl (mark_persist_unhealthy m rt) = rt_ctl rt"
  "rt_store (mark_persist_unhealthy m rt) = rt_store rt"
  "rt_responses (mark_persist_unhealthy m rt) = rt_responses rt"
  by (simp_all add: mark_persist_unhealthy_def)

lemma accepted_cases:
  "rt_worker (mutation_accepted cfg ann rt) = rt_worker rt"
  "rt_store (mutation_accepted cfg ann rt) = rt_store rt"
  "rt_ctl (mutation_accepted cfg ann rt) = Idle \<or> rt_worker rt \<noteq> None \<and>
    (\<exists>snap n c. rt_ctl (mutation_accepted cfg ann rt) = Sending (MsgCheckpoint snap n c) (WaitAutoCheckpoint (announce_response ann)))"
  by (auto simp: mutation_accepted_def maybe_auto_checkpoint_def Let_def split: announce.split)

lemma rejected_sel:
  "mutation_rejected pf ann cp so e rt = Some rt' \<Longrightarrow> rt_worker rt' = rt_worker rt \<and> rt_ctl rt' = Idle"
  by (auto simp: mutation_rejected_def split: result.splits)

lemma enqueue_persist_ok:
  "enqueue_persist cfg so w = Inr w' \<longleftrightarrow>
    wk_running w \<and> length (wk_queue w) < cfg_persist_queue_bound cfg \<and> w' = w\<lparr>wk_queue := wk_queue w @ [MsgOp so]\<rparr>"
  by (auto simp: enqueue_persist_def)

text \<open>What taking a command does to control and queue.\<close>

definition pushed :: "stored_op \<Rightarrow> 's worker \<Rightarrow> 's worker" where
  "pushed so w = w\<lparr>wk_queue := wk_queue w @ [MsgOp so]\<rparr>"

lemma persist_after_cases:
  assumes "persist_after_mutation pf fm cfg ann cp so rt = Some rt'"
  obtains "rt_worker rt' = rt_worker rt" "rt_ctl rt' = Idle"
    | w m wt where "rt_worker rt = Some w" "wk_running w" "rt_worker rt' = Some (pushed so w)"
        "rt_ctl rt' = Idle \<or> rt_ctl rt' = Sending m wt \<and> msg_for wt m \<and>
          (\<forall>ann' cp' so'. wt = WaitMutation ann' cp' so' \<longrightarrow> so' = so \<and> ann' = ann \<and> cp' = cp \<and>
             cfg_ack_mode cfg = Durable \<and> rt_store rt' = rt_store rt)"
proof (cases "rt_worker rt")
  case None
  with assms accepted_cases [of cfg ann rt] that(1) show ?thesis
    by (auto simp: persist_after_mutation_def)
next
  case (Some w)
  show ?thesis
  proof (cases "enqueue_persist cfg so w")
    case (Inl e)
    with Some assms that(1) show ?thesis
      by (auto simp: persist_after_mutation_def dest!: rejected_sel)
  next
    case (Inr w1)
    then have w1: "wk_running w" "w1 = pushed so w" by (auto simp: enqueue_persist_ok pushed_def)
    show ?thesis
    proof (cases "cfg_ack_mode cfg = Durable")
      case True
      then have "rt' = rt\<lparr>rt_worker := Some w1, rt_ctl := Sending MsgFlush (WaitMutation ann cp so)\<rparr>"
        using assms Some Inr by (simp add: persist_after_mutation_def Let_def)
      with True that(2) [OF Some w1(1), of MsgFlush "WaitMutation ann cp so"] w1(2) show ?thesis by simp
    next
      case False
      then obtain rt1 where "rt' = mutation_accepted cfg ann rt1" "rt_worker rt1 = Some w1"
        using assms Some Inr by (auto simp: persist_after_mutation_def Let_def)
      with that(2) [OF Some w1(1)] w1(2) accepted_cases [of cfg ann rt1] show ?thesis by fastforce
    qed
  qed
qed

lemma handle_mutation_cases:
  assumes "handle_mutation pf fm cfg clk cmd rt = Some rt'"
  obtains "rt_worker rt' = rt_worker rt" "rt_ctl rt' = Idle"
    | w so m wt where "rt_worker rt = Some w" "wk_running w" "rt_worker rt' = Some (pushed so w)"
        "rt_ctl rt' = Idle \<or> rt_ctl rt' = Sending m wt \<and> msg_for wt m \<and>
          (\<forall>ann' cp' so'. wt = WaitMutation ann' cp' so' \<longrightarrow> so' = so)"
proof (cases "ensure_mutation_allowed (cfg_ack_mode cfg) (rt_health rt)")
  case (Inl e)
  with assms that(1) show ?thesis by (auto simp: handle_mutation_def)
next
  case (Inr u)
  show ?thesis
  proof (cases "run_mutation pf clk cmd (rt_store rt)")
    case Panic
    with Inr assms show ?thesis by (simp add: handle_mutation_def Let_def)
  next
    case (Err e st)
    with Inr assms that(1) show ?thesis by (auto simp: handle_mutation_def Let_def)
  next
    case (Ok x st)
    obtain ann so where x: "x = (ann, so)" by fastforce
    have "persist_after_mutation pf fm cfg ann (take_checkpoint (rt_store rt)) so (rt\<lparr>rt_store := clear_pending_ops st\<rparr>) = Some rt'"
      using assms Inr Ok by (simp add: handle_mutation_def Let_def x)
    then show ?thesis
      by (rule persist_after_cases) (use that in \<open>auto; blast\<close>)+
  qed
qed

lemma handle_command_cases:
  assumes "handle_command pf fm cfg clk cmd rt = Some rt'"
  obtains "rt_worker rt' = rt_worker rt" "rt_ctl rt' = Idle \<or> rt_ctl rt' = Stopped \<and> rt_worker rt = None"
    | w m wt where "rt_worker rt = Some w" "rt_worker rt' = Some w" "rt_ctl rt' = Sending m wt" "msg_for wt m"
        "\<forall>ann cp so. wt \<noteq> WaitMutation ann cp so"
    | w so m wt where "rt_worker rt = Some w" "wk_running w" "rt_worker rt' = Some (pushed so w)"
        "rt_ctl rt' = Idle \<or> rt_ctl rt' = Sending m wt \<and> msg_for wt m \<and>
          (\<forall>ann' cp' so'. wt = WaitMutation ann' cp' so' \<longrightarrow> so' = so)"
proof (cases "cmd = CFlush \<or> cmd = CCheckpoint \<or> cmd = CShutdown \<or> (\<exists>i. cmd = CGet i) \<or> (\<exists>n. cmd = CRecent n) \<or> (\<exists>c. cmd = CByCall c)")
  case True
  then show ?thesis
    using assms that(1,2) by (cases "rt_worker rt") (auto simp: handle_command_def)
next
  case False
  then have "handle_mutation pf fm cfg clk cmd rt = Some rt'"
    using assms by (cases cmd) (auto simp: handle_command_def)
  then show ?thesis
    by (rule handle_mutation_cases) (use that(1,3) in blast)+
qed

lemma resume_sel:
  "resume pf fm cfg wt rep rt = Some rt' \<Longrightarrow> rt_worker rt' = rt_worker rt \<and>
    (rt_ctl rt' = Idle \<or> rt_ctl rt' = Stopped \<and> wt = WaitShutdown \<or>
     rt_worker rt \<noteq> None \<and> (\<exists>snap n c resp. rt_ctl rt' = Sending (MsgCheckpoint snap n c) (WaitAutoCheckpoint resp)))"
  using accepted_cases
  by (cases "(pf, fm, cfg, wt, rep, rt)" rule: resume.cases) (auto dest!: rejected_sel, blast+)


text \<open>What a worker step does to its wiring.\<close>

lemma flush_snd_wiring:
  "wk_buf (snd (flush_buf fm sink cf v)) = []" "wk_queue (snd (flush_buf fm sink cf v)) = wk_queue v"
  "wk_running (snd (flush_buf fm sink cf v)) = wk_running v" "wk_reply (snd (flush_buf fm sink cf v)) = wk_reply v"
  using flush_buf_wiring [of fm sink cf v] by (cases "flush_buf fm sink cf v"; simp add: same_wiring_def)+

lemma worker_handle_wiring:
  assumes w': "w' = worker_handle fm cfg sink msg w"
  shows "wk_queue w' = wk_queue w"
    and "wk_running w' = (wk_running w \<and> msg \<noteq> MsgShutdown)"
    and "msg = MsgOp so \<Longrightarrow> wk_reply w' = wk_reply w"
    and "msg_for wt msg \<Longrightarrow> wk_buf w' = [] \<and> (\<exists>rep. wk_reply w' = Some rep \<and> reply_for wt rep)"
proof -
  obtain out v where fl: "flush_buf fm sink True w = (out, v)" by fastforce
  then have v: "wk_buf v = []" "wk_queue v = wk_queue w" "wk_running v = wk_running w"
    using flush_buf_wiring [OF fl] by (simp_all add: same_wiring_def)
  show "wk_queue w' = wk_queue w" "wk_running w' = (wk_running w \<and> msg \<noteq> MsgShutdown)"
    unfolding w' by (cases msg; simp add: fl v flush_snd_wiring Let_def split: sum.split prod.split)+
  show "msg = MsgOp so \<Longrightarrow> wk_reply w' = wk_reply w"
    unfolding w' by (simp add: flush_snd_wiring Let_def)
  show "msg_for wt msg \<Longrightarrow> wk_buf w' = [] \<and> (\<exists>rep. wk_reply w' = Some rep \<and> reply_for wt rep)"
    unfolding w' using fl v
    by (cases "(wt, msg)" rule: msg_for.cases) (auto split: sum.split prod.split)
qed

lemma protocol_recv:
  assumes "protocol c w" "worker_recv fm cfg sink w = Some w'"
  shows "protocol c w'"
proof -
  obtain msg rest where run: "wk_running w" "wk_queue w = msg # rest"
    and w': "w' = worker_handle fm cfg sink msg (w\<lparr>wk_queue := rest\<rparr>)"
    using assms(2) by (auto simp: worker_recv_def split: if_splits list.splits)
  note wiring = worker_handle_wiring [OF w']
  show ?thesis
  proof (cases "\<exists>so. msg = MsgOp so")
    case True
    then obtain so where "msg = MsgOp so" by blast
    with assms(1) run w' wiring(1-3) show ?thesis
      by (auto simp: protocol_def Cons_eq_append_conv split: ctl.splits option.splits)
  next
    case False
    with assms(1) run obtain wt where c: "c = Awaiting wt" "rest = []" "msg_for wt msg"
      by (auto simp: protocol_def Cons_eq_append_conv split: ctl.splits option.splits)
    obtain rep where rep: "wk_reply w' = Some rep" "reply_for wt rep" "wk_buf w' = []"
      using wiring(4) [OF c(3)] by auto
    have "msg = MsgShutdown \<Longrightarrow> wt = WaitShutdown \<and> rep = ReplyShutdown"
      using c(3) rep(2) by (cases "(wt, rep)" rule: reply_for.cases) auto
    with c rep run wiring(1,2) show ?thesis
      by (auto simp: protocol_def)
  qed
qed

lemma protocol_tick:
  assumes "protocol c w" "worker_tick fm sink w = Some w'"
  shows "protocol c w'"
proof -
  have run: "wk_running w" "wk_buf w \<noteq> []" "w' = snd (flush_buf fm sink False w)"
    using assms(2) by (auto simp: worker_tick_def split: if_splits)
  then have "same_wiring w w'"
    using flush_buf_wiring [of fm sink False w] by (cases "flush_buf fm sink False w") auto
  with assms(1) run show ?thesis
    by (auto simp: protocol_def same_wiring_def split: ctl.splits option.splits)
qed

lemma protocol_pushed:
  assumes "protocol Idle w" "c = Idle \<or> c = Sending m wt \<and> msg_for wt m"
  shows "protocol c (pushed so w)"
  using assms by (auto simp: protocol_def pushed_def split: if_splits)

lemma protocol_progress:
  assumes "rt_protocol rt" "loop_progress pf fm cfg rt = Some (Some rt')"
  shows "rt_protocol rt'"
proof -
  obtain w where w: "rt_worker rt = Some w" and pr: "protocol (rt_ctl rt) w"
    using assms by (auto simp: loop_progress_def rt_protocol_def split: option.splits)
  from assms(2) w consider
      m wt where "rt_ctl rt = Sending m wt"
    | wt where "rt_ctl rt = Awaiting wt"
    by (auto simp: loop_progress_def split: ctl.splits)
  then show ?thesis
  proof cases
    case 1
    with pr have run: "wk_running w" "msg_for wt m" "ops_only (wk_queue w)"
      by (auto simp: protocol_def split: if_splits)
    with 1 w assms(2) have "rt' = rt\<lparr>rt_worker := Some (w\<lparr>wk_queue := wk_queue w @ [m], wk_reply := None\<rparr>), rt_ctl := Awaiting wt\<rparr>"
      by (auto simp: loop_progress_def split: if_splits)
    with run show ?thesis by (auto simp: rt_protocol_def protocol_def)
  next
    case 2
    with pr w assms(2) obtain rep where rep: "wk_reply w = Some rep"
      by (auto simp: loop_progress_def protocol_def split: option.splits if_splits)
    let ?rt = "rt\<lparr>rt_worker := Some (w\<lparr>wk_reply := None\<rparr>)\<rparr>"
    have res: "resume pf fm cfg wt (Some rep) ?rt = Some rt'"
      using assms(2) w 2 rep by (simp add: loop_progress_def)
    note sel = resume_sel [OF res]
    show ?thesis
    proof (cases "wk_running w")
      case True
      with pr 2 rep have "wk_queue w = []" "reply_for wt rep" by (auto simp: protocol_def)
      with sel True show ?thesis
        by (auto simp: rt_protocol_def protocol_def)
    next
      case False
      with pr 2 rep have "wt = WaitShutdown" "rep = ReplyShutdown" "wk_queue w = []" by (auto simp: protocol_def)
      with res sel False show ?thesis by (auto simp: rt_protocol_def protocol_def)
    qed
  qed
qed

lemma handle_durable_sel:
  "rt_worker (handle_durable fm msg rt) = rt_worker rt" "rt_ctl (handle_durable fm msg rt) = rt_ctl rt"
  "rt_store (handle_durable fm msg rt) = rt_store rt"
  by (cases msg; simp add: handle_durable_def)+

lemma loop_durable_cases:
  assumes "loop_durable fm rt = Some rt'"
  obtains w msg rest where "rt_worker rt = Some w" "rt_ctl rt = Idle" "wk_durable w = msg # rest"
    "rt' = handle_durable fm msg (rt\<lparr>rt_worker := Some (w\<lparr>wk_durable := rest\<rparr>)\<rparr>)"
  using assms by (auto simp: loop_durable_def split: ctl.splits option.splits list.splits)

lemma protocol_step:
  assumes "rt_protocol rt" "rt_step pf fm cfg sink rt rt'"
  shows "rt_protocol rt'"
  using assms(2)
proof (cases rule: rt_step.cases)
  case (command clk cmd)
  from command(2) show ?thesis
  proof (cases rule: handle_command_cases)
    case 1
    with assms(1) command(1) show ?thesis by (auto simp: rt_protocol_def split: option.splits)
  next
    case (2 w m wt)
    with assms(1) command(1) show ?thesis by (auto simp: rt_protocol_def protocol_def split: if_splits)
  next
    case (3 w so m wt)
    with assms(1) command(1) protocol_pushed [of w "rt_ctl rt'" m wt so] show ?thesis
      by (auto simp: rt_protocol_def)
  qed
next
  case progress
  with assms(1) show ?thesis by (rule protocol_progress)
next
  case durable
  then show ?thesis
  proof (cases rule: loop_durable_cases)
    case (1 w msg rest)
    with assms(1) show ?thesis by (auto simp: rt_protocol_def protocol_def handle_durable_sel split: if_splits)
  qed
next
  case (recv w w')
  with assms(1) show ?thesis by (auto simp: rt_protocol_def intro: protocol_recv)
next
  case (tick w w')
  with assms(1) show ?thesis by (auto simp: rt_protocol_def intro: protocol_tick)
next
  case drop
  with assms(1) show ?thesis by (auto simp: rt_protocol_def protocol_def split: option.splits if_splits)
next
  case (closed w w')
  with assms(1) show ?thesis
    by (auto simp: rt_protocol_def protocol_def worker_closed_def flush_snd_wiring split: if_splits)
qed

lemma protocol_spawn: "spawn_qsolog store o_sink cfg = Some rt \<Longrightarrow> rt_protocol rt"
  by (auto simp: spawn_qsolog_def rt_protocol_def protocol_def new_worker_def split: if_splits option.splits)

lemma protocol_reach:
  assumes "rt_reach pf fm cfg sink rt0 n rt" "rt_protocol rt0"
  shows "rt_protocol rt"
  using assms by (induction rule: rt_reach.induct) (auto intro: protocol_step)



subsection \<open>The store under the loop\<close>

fun cmd_of :: "command \<Rightarrow> store_cmd" where
  "cmd_of (CInsert d) = CmdInsert d"
| "cmd_of (CPatch i p) = CmdPatch i p"
| "cmd_of (CVoid i) = CmdVoid i"
| "cmd_of CUndo = CmdUndo"
| "cmd_of _ = CmdRedo"

lemma and_then_Ok [simp]: "and_then m Ok = m"
  by (cases m) simp_all

lemma run_mutation_cmd:
  "run_cmd pf clk (cmd_of cmd) st = and_then (run_mutation pf clk cmd st) (\<lambda>(ann, so) st1. Ok so st1)"
  by (cases cmd) (simp_all add: run_mutation_def and_then_assoc case_prod_unfold)

lemma run_mutation_cases:
  assumes "store_inv st" "has_room st"
  obtains ann so st1 op where "run_mutation pf clk cmd st = Ok (ann, so) st1" "cmd_op (cmd_of cmd) st = Some op"
      "cmd_effect (cmd_of cmd) op so st st1"
    | e st1 where "run_mutation pf clk cmd st = Err e st1" "cmd_failure st st1"
  using run_cmd_cases [OF assms, of pf clk "cmd_of cmd"]
  by cases (cases "run_mutation pf clk cmd st"; auto simp: run_mutation_cmd intro: that)+

text \<open>A rollback never fails and keeps the store's invariant and room.\<close>

lemma no_inserts_take: "no_inserts ops \<Longrightarrow> no_inserts (take n ops)"
  by (auto simp: no_inserts_def dest: in_set_takeD)

lemma log_rollback_ids:
  assumes "log_apply op L = Some L'"
  shows "log_ids (log_rollback (log_emit op L) L') \<subseteq> log_ids L"
proof (cases op)
  case (OpInsert r)
  with assms show ?thesis by (auto simp: log_remove_insert split: if_splits)
qed (use assms in \<open>auto split: if_splits\<close>)

lemma rollback_inv:
  assumes inv: "store_inv st0" and eff: "cmd_effect cmd op so st0 st1"
  shows "\<exists>st2. rollback_mutation pf (take_checkpoint st0) so (clear_pending_ops st1) = Ok () st2 \<and>
    store_inv st2 \<and> next_op_seq st2 = next_op_seq st0 \<and> next_qso_id st2 = next_qso_id st0"
proof -
  let ?st = "clear_pending_ops st1"
  have so: "so_op so = log_emit op (log_of st0)" and ap: "log_apply op (log_of st0) = Some (log_of st1)"
    and inv1: "store_inv st1"
    using eff by (simp_all add: cmd_effect_def)
  have st: "store_wf ?st" "log_of ?st = log_of st1" "undo ?st = undo st1" "redo ?st = redo st1"
    using inv1 by (simp_all add: clear_pending_ops_def store_inv_def)
  have "op_target (so_op so) \<in> set (order ?st)"
    using op_target_in [OF ap] wf_log_ids [OF st(1)] by (simp add: so st(2))
  then obtain st' where rb: "rollback_mutation pf (take_checkpoint st0) so ?st = Ok () (st'\<lparr>next_op_seq := next_op_seq st0,
      next_qso_id := next_qso_id st0, undo := take (length (undo st0)) (undo st1),
      redo := take (length (redo st0)) (redo st1), pending_ops := take (length (pending_ops st0)) (pending_ops ?st)\<rparr>)"
    and st': "store_wf st'" "log_of st' = log_rollback (so_op so) (log_of st1)"
    using rollback_mutation_ok [OF st(1), of so pf "take_checkpoint st0"] st by (auto simp: take_checkpoint_def)
  have "log_ids (log_of st') \<subseteq> log_ids (log_of st0)"
    using log_rollback_ids [OF ap] by (simp add: st'(2) so)
  moreover have "\<forall>i \<in> log_ids (log_of st0). i < next_qso_id st0"
    using inv by (auto simp: store_inv_def ids_below_log)
  ultimately have "\<forall>i \<in> log_ids (log_of st'). i < next_qso_id st0" by blast
  then show ?thesis
    using rb st'(1) inv1 by (simp add: store_inv_def ids_below_log no_inserts_take)
qed

text \<open>The mutation a loop waits for can be rolled back.\<close>

fun waiting_for :: "ctl \<Rightarrow> wait option" where
  "waiting_for (Sending _ wt) = Some wt"
| "waiting_for (Awaiting wt) = Some wt"
| "waiting_for _ = None"

definition rollbackable :: "mutation_checkpoint \<Rightarrow> stored_op \<Rightarrow> qso_store \<Rightarrow> bool" where
  "rollbackable cp so st \<longleftrightarrow> (\<exists>st0 st1 cmd op. store_inv st0 \<and> cp = take_checkpoint st0 \<and>
    cmd_effect cmd op so st0 st1 \<and> st = clear_pending_ops st1 \<and>
    next_op_seq st0 \<le> next_op_seq st \<and> next_qso_id st0 \<le> next_qso_id st)"

definition rt_store_ok :: "nat \<Rightarrow> 's runtime \<Rightarrow> bool" where
  "rt_store_ok k rt \<longleftrightarrow> store_inv (rt_store rt) \<and> room_for k (rt_store rt) \<and>
    (\<forall>ann cp so. waiting_for (rt_ctl rt) = Some (WaitMutation ann cp so) \<longrightarrow> rollbackable cp so (rt_store rt))"

lemma room_for_le:
  "room_for k st \<Longrightarrow> next_op_seq st' \<le> next_op_seq st \<Longrightarrow> next_qso_id st' \<le> next_qso_id st \<Longrightarrow> room_for k st'"
  unfolding room_for_def word_le_nat_alt by linarith

lemma room_for_weaken: "room_for (Suc k) st \<Longrightarrow> room_for k st"
  by (simp add: room_for_def)

lemma rejected_ok:
  assumes "rollbackable cp so (rt_store rt)" "room_for k (rt_store rt)"
  shows "\<exists>rt'. mutation_rejected pf ann cp so e rt = Some rt' \<and> rt_store_ok k rt'"
proof -
  obtain st0 st1 cmd op where rb: "store_inv st0" "cp = take_checkpoint st0" "cmd_effect cmd op so st0 st1"
    "rt_store rt = clear_pending_ops st1" "next_op_seq st0 \<le> next_op_seq (rt_store rt)" "next_qso_id st0 \<le> next_qso_id (rt_store rt)"
    using assms(1) by (auto simp: rollbackable_def)
  obtain st2 where "rollback_mutation pf cp so (rt_store rt) = Ok () st2" "store_inv st2"
      "next_op_seq st2 = next_op_seq st0" "next_qso_id st2 = next_qso_id st0"
    using rollback_inv [OF rb(1,3), of pf] rb(2,4) by auto
  with room_for_le [OF assms(2), of st2] rb(5,6) show ?thesis
    by (auto simp: mutation_rejected_def rt_store_ok_def)
qed

lemma accepted_ok:
  "store_inv (rt_store rt) \<Longrightarrow> room_for k (rt_store rt) \<Longrightarrow> rt_store_ok k (mutation_accepted cfg ann rt)"
  using accepted_cases [of cfg ann rt] by (auto simp: rt_store_ok_def)

lemma persist_after_ok:
  assumes "store_inv (rt_store rt)" "room_for k (rt_store rt)" "rollbackable cp so (rt_store rt)"
  shows "\<exists>rt'. persist_after_mutation pf fm cfg ann cp so rt = Some rt' \<and> rt_store_ok k rt'"
proof (cases "rt_worker rt")
  case None
  with accepted_ok [OF assms(1,2)] show ?thesis by (simp add: persist_after_mutation_def)
next
  case (Some w)
  show ?thesis
  proof (cases "enqueue_persist cfg so w")
    case (Inl e)
    then show ?thesis
      using rejected_ok [of cp so "mark_persist_unhealthy (debug_runtime_error fm e) rt" k] assms(2,3) Some
      by (simp add: persist_after_mutation_def)
  next
    case (Inr w1)
    then show ?thesis
      using accepted_ok [of "rt\<lparr>rt_worker := Some w1\<rparr>"]
        accepted_ok [of "emit (EvNotDurableWarning (latest_op_seq (rt_store rt))) (rt\<lparr>rt_worker := Some w1\<rparr>)"] assms Some
      by (auto simp: persist_after_mutation_def Let_def) (simp add: rt_store_ok_def)
  qed
qed

lemma clear_pending_simps [simp]:
  "store_inv (clear_pending_ops st) = store_inv st" "room_for k (clear_pending_ops st) = room_for k st"
  "next_op_seq (clear_pending_ops st) = next_op_seq st" "next_qso_id (clear_pending_ops st) = next_qso_id st"
  by (simp_all add: clear_pending_ops_def store_inv_def ids_below_def room_for_def)

lemma cmd_effect_counters:
  "cmd_effect cmd op so st st1 \<Longrightarrow> next_op_seq st1 = next_op_seq st + 1 \<and>
    next_qso_id st1 \<in> {next_qso_id st, next_qso_id st + 1}"
  by (auto simp: cmd_effect_def split: store_cmd.splits)

lemma mutation_rollbackable:
  assumes "store_inv st" "has_room st" "cmd_effect cmd op so st st1"
  shows "rollbackable (take_checkpoint st) so (clear_pending_ops st1)"
  using assms cmd_effect_counters [OF assms(3)] less_succ less_imp_le unfolding rollbackable_def has_room_def
  by (intro exI [of _ st] exI [of _ st1] exI [of _ cmd] exI [of _ op]) auto

lemma handle_mutation_ok:
  assumes inv: "store_inv (rt_store rt)" and room: "room_for (Suc k) (rt_store rt)" and idle: "rt_ctl rt = Idle"
  shows "\<exists>rt'. handle_mutation pf fm cfg clk cmd rt = Some rt' \<and> rt_store_ok k rt'"
proof (cases "ensure_mutation_allowed (cfg_ack_mode cfg) (rt_health rt)")
  case (Inl e)
  with inv room_for_weaken [OF room] show ?thesis by (simp add: handle_mutation_def rt_store_ok_def)
next
  case (Inr u)
  note hr = room_for_Suc [OF room]
  from run_mutation_cases [OF inv hr, of pf clk cmd] show ?thesis
  proof cases
    case (1 ann so st1 op)
    have "room_for k st1"
      by (rule room_for_step [OF room]) (use cmd_effect_counters [OF 1(3)] in auto)
    moreover have "rollbackable (take_checkpoint (rt_store rt)) so (clear_pending_ops st1)"
      by (rule mutation_rollbackable [OF inv hr 1(3)])
    ultimately show ?thesis
      using persist_after_ok [of "rt\<lparr>rt_store := clear_pending_ops st1\<rparr>" k] 1 cmd_effect_inv [OF 1(3)] Inr
      by (simp add: handle_mutation_def Let_def)
  next
    case (2 e st1)
    have "room_for k st1"
      by (rule room_for_step [OF room]) (use 2(2) in \<open>auto simp: cmd_failure_def\<close>)
    with 2 Inr show ?thesis
      by (auto simp: handle_mutation_def Let_def rt_store_ok_def cmd_failure_def)
  qed
qed

lemma handle_command_ok:
  assumes "rt_store_ok (Suc k) rt" "rt_ctl rt = Idle"
  shows "\<exists>rt'. handle_command pf fm cfg clk cmd rt = Some rt' \<and> rt_store_ok k rt'"
proof (cases "cmd = CFlush \<or> cmd = CCheckpoint \<or> cmd = CShutdown \<or> (\<exists>i. cmd = CGet i) \<or> (\<exists>n. cmd = CRecent n) \<or> (\<exists>c. cmd = CByCall c)")
  case True
  with assms show ?thesis
    by (auto simp: handle_command_def rt_store_ok_def intro: room_for_weaken split: option.split)
next
  case False
  then have "handle_command pf fm cfg clk cmd rt = handle_mutation pf fm cfg clk cmd rt"
    by (cases cmd) (auto simp: handle_command_def)
  with handle_mutation_ok [of rt k] assms show ?thesis by (simp add: rt_store_ok_def)
qed

lemma resume_ok:
  assumes "store_inv (rt_store rt)" "room_for k (rt_store rt)"
    and "\<forall>ann cp so. wt = WaitMutation ann cp so \<longrightarrow> rollbackable cp so (rt_store rt)"
  shows "\<exists>rt'. resume pf fm cfg wt rep rt = Some rt' \<and> rt_store_ok k rt'"
proof -
  have rej: "\<exists>rt'. mutation_rejected pf ann cp so e (mark_persist_unhealthy m rt) = Some rt' \<and> rt_store_ok k rt'"
    if "wt = WaitMutation ann cp so" for ann cp so e m
    using rejected_ok [of cp so "mark_persist_unhealthy m rt" k] assms(2,3) that by simp
  from assms accepted_ok [OF assms(1,2)] rej show ?thesis
    by (cases "(pf, fm, cfg, wt, rep, rt)" rule: resume.cases) (auto simp: rt_store_ok_def)
qed


lemma loop_progress_ok:
  assumes ok: "rt_store_ok k rt" and "loop_progress pf fm cfg rt = Some res"
  shows "\<exists>rt'. res = Some rt' \<and> rt_store_ok k rt'"
proof -
  have st: "store_inv (rt_store rt)" "room_for k (rt_store rt)" using ok by (simp_all add: rt_store_ok_def)
  obtain w where w: "rt_worker rt = Some w"
    using assms(2) by (auto simp: loop_progress_def split: option.splits)
  show ?thesis
  proof (cases "rt_ctl rt")
    case (Sending m wt)
    then have roll: "\<forall>ann cp so. wt = WaitMutation ann cp so \<longrightarrow> rollbackable cp so (rt_store rt)"
      using ok by (auto simp: rt_store_ok_def)
    have sf: "\<exists>rt'. send_failed pf fm cfg wt rt = Some rt' \<and> rt_store_ok k rt'"
      using resume_ok [OF st roll, of pf fm cfg None] st by (cases wt) (auto simp: rt_store_ok_def)
    show ?thesis
    proof (cases "wk_running w")
      case True
      with assms(2) w Sending ok show ?thesis
        by (auto simp: loop_progress_def rt_store_ok_def split: if_splits)
    next
      case False
      with assms(2) w Sending have "res = send_failed pf fm cfg wt rt" by (simp add: loop_progress_def)
      with sf show ?thesis by simp
    qed
  next
    case (Awaiting wt)
    then have roll: "\<forall>ann cp so. wt = WaitMutation ann cp so \<longrightarrow> rollbackable cp so (rt_store rt)"
      using ok by (auto simp: rt_store_ok_def)
    have "\<exists>rt'. resume pf fm cfg wt rep (rt\<lparr>rt_worker := v\<rparr>) = Some rt' \<and> rt_store_ok k rt'" for rep v
      using resume_ok [of "rt\<lparr>rt_worker := v\<rparr>" k wt pf fm cfg rep] st roll by simp
    moreover have "rt\<lparr>rt_worker := Some w\<rparr> = rt" using w by (cases rt) simp
    moreover have "res = resume pf fm cfg wt (wk_reply w)
        (rt\<lparr>rt_worker := Some (w\<lparr>wk_reply := None\<rparr>)\<rparr>) \<or> res = resume pf fm cfg wt None rt"
      using assms(2) w Awaiting by (auto simp: loop_progress_def split: option.splits if_splits)
    ultimately show ?thesis by metis
  qed (use assms(2) w in \<open>simp_all add: loop_progress_def\<close>)
qed

lemma rt_store_ok_worker [simp]: "rt_store_ok k (rt\<lparr>rt_worker := w\<rparr>) = rt_store_ok k rt"
  by (simp add: rt_store_ok_def)

lemma rt_store_ok_weaken: "rt_store_ok (Suc k) rt \<Longrightarrow> rt_store_ok k rt"
  by (simp add: rt_store_ok_def room_for_weaken)

text \<open>No enabled label panics, and every step keeps the store's invariant.\<close>

lemma rt_exec_ok:
  assumes "rt_store_ok (Suc k) rt" "rt_exec pf fm cfg sink l rt = Some res"
  shows "\<exists>rt'. res = Some rt' \<and> rt_store_ok k rt'"
proof (cases l)
  case (LCommand clk cmd)
  with assms(2) handle_command_ok [OF assms(1), of pf fm cfg clk cmd] show ?thesis
    by (auto split: if_splits)
next
  case LProgress
  with assms(2) loop_progress_ok [OF rt_store_ok_weaken [OF assms(1)]] show ?thesis by simp
next
  case LDurable
  with assms(2) obtain rt' where rt': "loop_durable fm rt = Some rt'" "res = Some rt'" by auto
  from rt'(1) obtain w msg rest where "rt' = handle_durable fm msg (rt\<lparr>rt_worker := Some (w\<lparr>wk_durable := rest\<rparr>)\<rparr>)"
    by (rule loop_durable_cases)
  with rt' rt_store_ok_weaken [OF assms(1)] show ?thesis
    by (simp add: rt_store_ok_def handle_durable_sel)
qed (use assms(2) rt_store_ok_weaken [OF assms(1)] in
  \<open>auto simp: map_worker_def rt_store_ok_def split: option.splits if_splits\<close>)

lemma rt_reach_store:
  "rt_reach pf fm cfg sink rt0 n rt \<Longrightarrow> rt_store_ok (n + k) rt0 \<Longrightarrow> rt_store_ok k rt"
proof (induction arbitrary: k rule: rt_reach.induct)
  case (step n rt rt')
  then have "rt_store_ok (Suc k) rt" by simp
  with step.hyps(2) rt_exec_ok show ?case
    unfolding rt_step_exec by blast
qed simp

lemma rt_store_ok_spawn:
  "spawn_qsolog store o_sink cfg = Some rt \<Longrightarrow> store_inv store \<Longrightarrow> room_for k store \<Longrightarrow> rt_store_ok k rt"
  by (auto simp: spawn_qsolog_def rt_store_ok_def split: if_splits)

text \<open>The wait for a reply ends after the worker has received the queue.\<close>

lemma wait_ends:
  assumes "rt_protocol rt" "rt_store_ok k rt" "rt_ctl rt = Awaiting wt" "rt_worker rt = Some w"
  shows "\<exists>rt'. rt_run pf fm cfg sink (replicate (length (wk_queue w)) LRecv @ [LProgress]) rt = Some rt' \<and>
    (\<forall>wt'. rt_ctl rt' \<noteq> Awaiting wt')"
  using assms
proof (induction "length (wk_queue w)" arbitrary: rt w)
  case 0
  then obtain rep where "wk_reply w = Some rep"
    by (auto simp: rt_protocol_def protocol_def split: if_splits option.splits)
  then have pr: "loop_progress pf fm cfg rt = Some (resume pf fm cfg wt (Some rep) (rt\<lparr>rt_worker := Some (w\<lparr>wk_reply := None\<rparr>)\<rparr>))"
    using 0 by (simp add: loop_progress_def)
  then obtain rt' where "resume pf fm cfg wt (Some rep) (rt\<lparr>rt_worker := Some (w\<lparr>wk_reply := None\<rparr>)\<rparr>) = Some rt'"
    using loop_progress_ok [OF 0(3) pr] by auto
  with pr resume_sel [OF this] 0(1) show ?case by auto
next
  case (Suc n)
  then obtain msg rest where q: "wk_queue w = msg # rest" by (cases "wk_queue w") auto
  then have run: "wk_running w"
    using Suc.prems by (auto simp: rt_protocol_def protocol_def split: if_splits option.splits)
  let ?w' = "worker_handle fm cfg sink msg (w\<lparr>wk_queue := rest\<rparr>)"
  let ?rt = "rt\<lparr>rt_worker := Some ?w'\<rparr>"
  have recv: "worker_recv fm cfg sink w = Some ?w'" by (simp add: worker_recv_def run q)
  have "wk_queue ?w' = rest" using worker_handle_wiring(1) [OF refl, of fm cfg sink msg] by simp
  moreover from this have "n = length (wk_queue ?w')" using Suc.hyps(2) q by simp
  moreover have "rt_protocol ?rt"
    using Suc.prems protocol_recv [OF _ recv] by (simp add: rt_protocol_def)
  moreover have "rt_store_ok k ?rt" "rt_ctl ?rt = Awaiting wt" "rt_worker ?rt = Some ?w'"
    using Suc.prems by simp_all
  ultimately obtain rt' where "rt_run pf fm cfg sink (replicate n LRecv @ [LProgress]) ?rt = Some rt'"
      "\<forall>wt'. rt_ctl rt' \<noteq> Awaiting wt'"
    using Suc.hyps(1) [of ?w' ?rt] by auto
  then show ?case
    using Suc.hyps(2) [symmetric] Suc.prems(4) recv by (simp add: map_worker_def)
qed


subsection \<open>The operation a durable mutation waits for\<close>

context journal_sink
begin

definition secure :: "'s runtime \<Rightarrow> bool" where
  "secure rt \<longleftrightarrow> (\<forall>w ann cp so. rt_worker rt = Some w \<longrightarrow>
    waiting_for (rt_ctl rt) = Some (WaitMutation ann cp so) \<longrightarrow> secured so w)"

lemma ops_only_not_compacting: "ops_only q \<Longrightarrow> \<forall>msg \<in> set q. \<not> compacting msg"
  by (auto simp: ops_only_def)

lemma waiting_not_compacting:
  assumes "protocol c w" "wk_running w" "waiting_for c = Some (WaitMutation ann cp so)"
  shows "\<forall>msg \<in> set (wk_queue w). \<not> compacting msg"
proof (cases c)
  case (Sending m wt)
  with assms have "ops_only (wk_queue w)" by (simp add: protocol_def)
  then show ?thesis by (rule ops_only_not_compacting)
next
  case (Awaiting wt)
  with assms have "wt = WaitMutation ann cp so" by simp
  then have "msg_for wt m \<Longrightarrow> \<not> compacting m" for m by (cases m) auto
  with assms Awaiting show ?thesis
    by (auto simp: protocol_def ops_only_def split: option.splits)
qed (use assms in simp_all)

lemma secured_extends:
  assumes "secured so w" "wk_durable w' = wk_durable w" "wk_buf w' = wk_buf w" "wk_sink w' = wk_sink w"
    and "queued_ops (wk_queue w') = queued_ops (wk_queue w)"
  shows "secured so w'"
  using assms by (simp add: secured_def reported_error_def accounted_def)

lemma progress_waiting:
  assumes "loop_progress pf fm cfg rt = Some (Some rt')" "waiting_for (rt_ctl rt') = Some (WaitMutation ann cp so)"
    and "rt_protocol rt"
  shows "\<exists>w m. rt_worker rt = Some w \<and> waiting_for (rt_ctl rt) = Some (WaitMutation ann cp so) \<and> msg_for (WaitMutation ann cp so) m \<and>
    rt_worker rt' = Some (w\<lparr>wk_queue := wk_queue w @ [m], wk_reply := None\<rparr>)"
proof -
  obtain w where w: "rt_worker rt = Some w" "protocol (rt_ctl rt) w"
    using assms(1,3) by (auto simp: loop_progress_def rt_protocol_def split: option.splits)
  show ?thesis
  proof (cases "rt_ctl rt")
    case (Sending m wt)
    with w have "wk_running w" "msg_for wt m" by (auto simp: protocol_def split: if_splits)
    with assms(1,2) w Sending show ?thesis
      by (auto simp: loop_progress_def split: if_splits)
  next
    case (Awaiting wt)
    with assms(1) w obtain rep rt1 where "resume pf fm cfg wt rep rt1 = Some rt'"
      by (auto simp: loop_progress_def split: option.splits if_splits)
    from resume_sel [OF this] assms(2) show ?thesis by auto
  qed (use assms(1) w in \<open>simp_all add: loop_progress_def\<close>)
qed

lemma secure_step:
  assumes pr: "rt_protocol rt" and sec: "secure rt" and "rt_step pf fm cfg sink rt rt'"
  shows "secure rt'"
  using assms(3)
proof (cases rule: rt_step.cases)
  case (command clk cmd)
  from command(2) show ?thesis
  proof (cases rule: handle_command_cases)
    case (3 w so m wt)
    then show ?thesis using secured_pushed [of so w] by (auto simp: secure_def pushed_def)
  qed (auto simp: secure_def)
next
  case progress
  have "secured so w'" if w': "rt_worker rt' = Some w'" "waiting_for (rt_ctl rt') = Some (WaitMutation ann cp so)"
    for w' ann cp so
  proof -
    obtain w m where w: "rt_worker rt = Some w" "waiting_for (rt_ctl rt) = Some (WaitMutation ann cp so)"
        "msg_for (WaitMutation ann cp so) m" "w' = w\<lparr>wk_queue := wk_queue w @ [m], wk_reply := None\<rparr>"
      using progress_waiting [OF progress w'(2) pr] w'(1) by auto
    then have "secured so w" using sec by (simp add: secure_def)
    moreover have "m = MsgFlush" using w(3) by (cases m) auto
    ultimately show ?thesis by (auto simp: w(4) intro: secured_extends)
  qed
  then show ?thesis by (simp add: secure_def)
next
  case durable
  then show ?thesis
    by (rule loop_durable_cases) (simp add: secure_def handle_durable_sel)
next
  case (recv w w')
  then have "wk_running w" by (auto simp: worker_recv_def split: if_splits)
  have "secured so w'" if wt: "waiting_for (rt_ctl rt) = Some (WaitMutation ann cp so)" for ann cp so
  proof -
    have "protocol (rt_ctl rt) w" using pr recv(2) by (simp add: rt_protocol_def)
    from waiting_not_compacting [OF this \<open>wk_running w\<close> wt] obtain ops where "accounts held entry ops w w'"
      using worker_recv_accounts [OF recv(3)] by blast
    moreover have "secured so w" using sec recv(2) wt by (simp add: secure_def)
    ultimately show ?thesis by (rule secured_step)
  qed
  then show ?thesis by (simp add: recv(1) secure_def)
next
  case (tick w w')
  have "secured so w'" if "waiting_for (rt_ctl rt) = Some (WaitMutation ann cp so)" for ann cp so
    using secured_step [OF worker_tick_accounts [OF tick(3)]] sec tick(2) that by (simp add: secure_def)
  then show ?thesis by (simp add: tick(1) secure_def)
qed (auto simp: secure_def)

lemma secure_reach:
  assumes "rt_reach pf fm cfg sink rt0 n rt" "rt_protocol rt0" "secure rt0"
  shows "secure rt"
  using assms by (induction rule: rt_reach.induct) (auto intro: secure_step protocol_reach)

lemma secure_spawn: "spawn_qsolog store o_sink cfg = Some rt \<Longrightarrow> secure rt"
  by (auto simp: spawn_qsolog_def secure_def split: if_splits)

text \<open>When the reply to the flush of a durable mutation is positive, the operation is held by
  the sink or the worker has reported an error that the loop has not yet seen.\<close>

lemma durable_reply_held:
  assumes "rt_reach pf fm cfg sink rt0 n rt" "spawn_qsolog store o_sink cfg = Some rt0"
    and "rt_worker rt = Some w" "rt_ctl rt = Awaiting (WaitMutation ann cp so)" "wk_reply w = Some rep"
  shows "reported_error w \<or> entry so \<in># held (wk_sink w)"
proof -
  have pr: "rt_protocol rt" using protocol_reach [OF assms(1) protocol_spawn [OF assms(2)]] .
  have "secure rt" using secure_reach [OF assms(1) protocol_spawn [OF assms(2)] secure_spawn [OF assms(2)]] .
  then have "secured so w" using assms(3,4) by (simp add: secure_def)
  moreover have "wk_queue w = []" "wk_buf w = []"
    using pr assms(3-5) by (auto simp: rt_protocol_def protocol_def split: if_splits)
  ultimately show ?thesis by (rule secured_drained)
qed

end

end
