(* ===== verification/Qso_Client.thy ===== *)
theory Qso_Client
  imports Qso_Runtime_Inv
begin

section \<open>The client side: QsoLogHandle and the command channel (runtime/handle.rs)\<close>

text \<open>
  Every method of \<open>QsoLogHandle\<close> makes a one-shot channel, sends one command with its sender
  on the bounded command channel, and waits. This theory puts the clients of all clones of
  the handle around the runtime of \<^verbatim>\<open>Qso_Runtime\<close>: a call is first sending (the channel may
  be full), then waiting for its one-shot, then returned. When the loop task ends, by
  shutdown or by a panic, the receiver of the channel and every one-shot sender in it are
  dropped with it. A client may drop the future of a call at any time; a command that was
  sent is then still executed, and its answer goes nowhere. Any interleaving of calls, sends,
  drops and steps of loop and worker is a run.
\<close>


subsection \<open>What the methods return\<close>

datatype call_result =
    GotId "runtime_error + qso_id"
  | GotUnit "runtime_error + unit"
  | GotRecord "runtime_error + qso_record option"
  | GotRecords "runtime_error + qso_record list"
  | GotSeq "runtime_error + op_seq"

text \<open>\<open>rx.await.map_err(|_| ChannelClosed)?\<close>: a dropped sender (\<open>None\<close>) is a closed channel; a
  method whose one-shot carries a result returns it as it is, a query wraps the answer in
  \<open>Ok\<close>. The types of the one-shot channels exclude the last case, and so does
  \<open>calls_return_their_type\<close>.\<close>

fun method_result :: "command \<Rightarrow> response option \<Rightarrow> call_result option" where
  "method_result (CInsert _) rx =
    (case rx of None \<Rightarrow> Some (GotId (Inl ChannelClosed)) | Some (RespId r) \<Rightarrow> Some (GotId r) | _ \<Rightarrow> None)"
| "method_result (CPatch _ _) rx =
    (case rx of None \<Rightarrow> Some (GotUnit (Inl ChannelClosed)) | Some (RespUnit r) \<Rightarrow> Some (GotUnit r) | _ \<Rightarrow> None)"
| "method_result (CVoid _) rx =
    (case rx of None \<Rightarrow> Some (GotUnit (Inl ChannelClosed)) | Some (RespUnit r) \<Rightarrow> Some (GotUnit r) | _ \<Rightarrow> None)"
| "method_result CUndo rx =
    (case rx of None \<Rightarrow> Some (GotUnit (Inl ChannelClosed)) | Some (RespUnit r) \<Rightarrow> Some (GotUnit r) | _ \<Rightarrow> None)"
| "method_result CRedo rx =
    (case rx of None \<Rightarrow> Some (GotUnit (Inl ChannelClosed)) | Some (RespUnit r) \<Rightarrow> Some (GotUnit r) | _ \<Rightarrow> None)"
| "method_result (CGet _) rx =
    (case rx of None \<Rightarrow> Some (GotRecord (Inl ChannelClosed)) | Some (RespRecord r) \<Rightarrow> Some (GotRecord (Inr r)) | _ \<Rightarrow> None)"
| "method_result (CRecent _) rx =
    (case rx of None \<Rightarrow> Some (GotRecords (Inl ChannelClosed)) | Some (RespRecords r) \<Rightarrow> Some (GotRecords (Inr r)) | _ \<Rightarrow> None)"
| "method_result (CByCall _) rx =
    (case rx of None \<Rightarrow> Some (GotRecords (Inl ChannelClosed)) | Some (RespRecords r) \<Rightarrow> Some (GotRecords (Inr r)) | _ \<Rightarrow> None)"
| "method_result CFlush rx =
    (case rx of None \<Rightarrow> Some (GotSeq (Inl ChannelClosed)) | Some (RespSeq r) \<Rightarrow> Some (GotSeq r) | _ \<Rightarrow> None)"
| "method_result CCheckpoint rx =
    (case rx of None \<Rightarrow> Some (GotUnit (Inl ChannelClosed)) | Some (RespUnit r) \<Rightarrow> Some (GotUnit r) | _ \<Rightarrow> None)"
| "method_result CShutdown rx =
    (case rx of None \<Rightarrow> Some (GotUnit (Inl ChannelClosed)) | Some (RespUnit r) \<Rightarrow> Some (GotUnit r) | _ \<Rightarrow> None)"


subsection \<open>Calls and the command channel\<close>

text \<open>The clock reading is the one the loop will see when it takes the command.\<close>

datatype call =
    CallSending int command
  | CallWaiting command
  | CallAbandoned command
  | CallReturned command "call_result option"

definition CMD_CHANNEL_CAPACITY :: nat where
  "CMD_CHANNEL_CAPACITY = 256"

text \<open>\<open>sy_handles\<close> counts the clones of the handle that are alive; \<open>sy_serving\<close> is the one-shot
  sender held by the loop while it works on a command.\<close>

record 's system =
  sy_rt :: "'s runtime"
  sy_handles :: nat
  sy_queue :: "(nat \<times> int \<times> command) list"
  sy_serving :: "(nat \<times> command) option"
  sy_calls :: "call list"

definition spawn_system :: "qso_store \<Rightarrow> 's option \<Rightarrow> runtime_config \<Rightarrow> 's system option" where
  "spawn_system store o_sink cfg =
    map_option (\<lambda>rt. \<lparr>sy_rt = rt, sy_handles = 1, sy_queue = [], sy_serving = None, sy_calls = []\<rparr>)
      (spawn_qsolog store o_sink cfg)"

text \<open>\<open>persistence_state()\<close>: a read of the shared health record.\<close>

definition persistence_state_of :: "'s system \<Rightarrow> persistence_state" where
  "persistence_state_of sy = rt_health (sy_rt sy)"

text \<open>A one-shot is answered, or its sender is dropped (\<open>None\<close>): that ends the call that waits
  for it, and nothing happens when nobody waits any more (\<open>let _ = resp.send(..)\<close>).\<close>

fun answer_call :: "response option \<Rightarrow> call \<Rightarrow> call" where
  "answer_call rx (CallWaiting cmd) = CallReturned cmd (method_result cmd rx)"
| "answer_call rx c = c"

definition drop_senders :: "nat list \<Rightarrow> call list \<Rightarrow> call list" where
  "drop_senders ns calls = fold (\<lambda>n cs. cs[n := answer_call None (cs ! n)]) ns calls"

text \<open>After a step of the loop: deliver an answer, and if the loop has ended, drop the
  channel and the sender it still held.\<close>

definition deliver :: "'s runtime \<Rightarrow> 's system \<Rightarrow> 's system" where
  "deliver rt' sy =
    (case sy_serving sy of
       None \<Rightarrow> sy\<lparr>sy_rt := rt'\<rparr>
     | Some (n, cmd) \<Rightarrow>
        if length (rt_responses (sy_rt sy)) < length (rt_responses rt')
        then sy\<lparr>sy_rt := rt', sy_serving := None,
          sy_calls := (sy_calls sy)[n := answer_call (Some (last (rt_responses rt'))) (sy_calls sy ! n)]\<rparr>
        else sy\<lparr>sy_rt := rt'\<rparr>)"

text \<open>The calls whose one-shot sender is in the channel or held by the loop.\<close>

definition held :: "'s system \<Rightarrow> (nat \<times> command) list" where
  "held sy = map (\<lambda>(n, clk, cmd). (n, cmd)) (sy_queue sy) @ (case sy_serving sy of None \<Rightarrow> [] | Some s \<Rightarrow> [s])"

definition close_channel :: "'s system \<Rightarrow> 's system" where
  "close_channel sy =
    (if rt_ctl (sy_rt sy) = Stopped
     then sy\<lparr>sy_queue := [], sy_serving := None,
       sy_calls := drop_senders (map fst (held sy)) (sy_calls sy)\<rparr>
     else sy)"

text \<open>A panic unwinds the loop task: its receiver and its senders are dropped.\<close>

definition settle :: "'s runtime option \<Rightarrow> 's system \<Rightarrow> 's system" where
  "settle o_rt sy =
    (case o_rt of
       None \<Rightarrow> close_channel (sy\<lparr>sy_rt := (sy_rt sy)\<lparr>rt_ctl := Stopped\<rparr>\<rparr>)
     | Some rt' \<Rightarrow> close_channel (deliver rt' sy))"


subsection \<open>Steps\<close>

text \<open>\<open>ECall\<close>: a client calls a method; \<open>ESend n\<close>: call \<open>n\<close> gets a place on the channel, or learns
  that the channel is closed; \<open>EAbandon n\<close>: the future of call \<open>n\<close> is dropped; \<open>EClone\<close> and
  \<open>EDropHandle\<close>: a handle is cloned or dropped, the last one only when no call borrows it; \<open>ETake\<close>:
  the loop receives a command; \<open>EStep\<close>: any other step of loop or worker; \<open>EClosed\<close>: the loop finds
  the channel empty and without senders.\<close>

datatype event = ECall int command | ESend nat | EAbandon nat | EClone | EDropHandle | ETake | EStep label | EClosed

fun client_label :: "label \<Rightarrow> bool" where
  "client_label (LCommand _ _) = True"
| "client_label LDrop = True"
| "client_label _ = False"

fun pending_call :: "call \<Rightarrow> bool" where
  "pending_call (CallSending _ _) = True"
| "pending_call (CallWaiting _) = True"
| "pending_call _ = False"

text \<open>The clone shares the channels and the health record.\<close>

definition clone_handle :: "'s system \<Rightarrow> 's system" where
  [simp]: "clone_handle sy = sy\<lparr>sy_handles := sy_handles sy + 1\<rparr>"

fun sy_exec :: "profile \<Rightarrow> fmt \<Rightarrow> runtime_config \<Rightarrow> 's op_sink \<Rightarrow> event \<Rightarrow> 's system \<Rightarrow> 's system option" where
  "sy_exec pf fm cfg sink (ECall clk cmd) sy =
    (if 0 < sy_handles sy then Some (sy\<lparr>sy_calls := sy_calls sy @ [CallSending clk cmd]\<rparr>) else None)"
| "sy_exec pf fm cfg sink (ESend n) sy =
    (if n < length (sy_calls sy) then
       (case sy_calls sy ! n of
          CallSending clk cmd \<Rightarrow>
            if rt_ctl (sy_rt sy) = Stopped
            then Some (sy\<lparr>sy_calls := (sy_calls sy)[n := CallReturned cmd (method_result cmd None)]\<rparr>)
            else if length (sy_queue sy) < CMD_CHANNEL_CAPACITY
            then Some (sy\<lparr>sy_queue := sy_queue sy @ [(n, clk, cmd)], sy_calls := (sy_calls sy)[n := CallWaiting cmd]\<rparr>)
            else None
        | _ \<Rightarrow> None)
     else None)"
| "sy_exec pf fm cfg sink (EAbandon n) sy =
    (if n < length (sy_calls sy) then
       (case sy_calls sy ! n of
          CallSending clk cmd \<Rightarrow> Some (sy\<lparr>sy_calls := (sy_calls sy)[n := CallAbandoned cmd]\<rparr>)
        | CallWaiting cmd \<Rightarrow> Some (sy\<lparr>sy_calls := (sy_calls sy)[n := CallAbandoned cmd]\<rparr>)
        | _ \<Rightarrow> None)
     else None)"
| "sy_exec pf fm cfg sink EClone sy =
    (if 0 < sy_handles sy then Some (clone_handle sy) else None)"
| "sy_exec pf fm cfg sink EDropHandle sy =
    (if 1 < sy_handles sy \<or> sy_handles sy = 1 \<and> \<not> list_ex pending_call (sy_calls sy)
     then Some (sy\<lparr>sy_handles := sy_handles sy - 1\<rparr>) else None)"
| "sy_exec pf fm cfg sink ETake sy =
    (case sy_queue sy of
       [] \<Rightarrow> None
     | (n, clk, cmd) # rest \<Rightarrow>
        (case rt_exec pf fm cfg sink (LCommand clk cmd) (sy_rt sy) of
           None \<Rightarrow> None
         | Some o_rt \<Rightarrow> Some (settle o_rt (sy\<lparr>sy_queue := rest, sy_serving := Some (n, cmd)\<rparr>))))"
| "sy_exec pf fm cfg sink (EStep l) sy =
    (if client_label l then None
     else (case rt_exec pf fm cfg sink l (sy_rt sy) of
             None \<Rightarrow> None
           | Some o_rt \<Rightarrow> Some (settle o_rt sy)))"
| "sy_exec pf fm cfg sink EClosed sy =
    (if sy_handles sy = 0 \<and> sy_queue sy = [] then
       (case rt_exec pf fm cfg sink LDrop (sy_rt sy) of
          None \<Rightarrow> None
        | Some o_rt \<Rightarrow> Some (settle o_rt sy))
     else None)"

fun sy_run :: "profile \<Rightarrow> fmt \<Rightarrow> runtime_config \<Rightarrow> 's op_sink \<Rightarrow> event list \<Rightarrow> 's system \<Rightarrow> 's system option" where
  "sy_run pf fm cfg sink [] sy = Some sy"
| "sy_run pf fm cfg sink (ev # evs) sy =
    (case sy_exec pf fm cfg sink ev sy of None \<Rightarrow> None | Some sy' \<Rightarrow> sy_run pf fm cfg sink evs sy')"

inductive sy_reach :: "profile \<Rightarrow> fmt \<Rightarrow> runtime_config \<Rightarrow> 's op_sink \<Rightarrow> 's system \<Rightarrow> 's system \<Rightarrow> bool"
  for pf fm cfg sink sy0 where
  start: "sy_reach pf fm cfg sink sy0 sy0"
| step: "sy_reach pf fm cfg sink sy0 sy \<Longrightarrow> sy_exec pf fm cfg sink ev sy = Some sy' \<Longrightarrow>
    sy_reach pf fm cfg sink sy0 sy'"

lemma sy_run_reach:
  "sy_run pf fm cfg sink evs sy = Some sy' \<Longrightarrow> sy_reach pf fm cfg sink sy0 sy \<Longrightarrow> sy_reach pf fm cfg sink sy0 sy'"
  by (induction evs arbitrary: sy) (auto split: option.splits intro: sy_reach.step)


subsection \<open>What a step of the loop does for the command it serves\<close>

text \<open>Either it answers, with a response of the command's type, and is free or ends; or it
  waits, in a way that goes with the command, and has not answered.\<close>

definition takes :: "command \<Rightarrow> response \<Rightarrow> bool" where
  "takes cmd resp \<longleftrightarrow> method_result cmd (Some resp) \<noteq> None"

fun wait_fits :: "command \<Rightarrow> wait \<Rightarrow> bool" where
  "wait_fits cmd (WaitMutation ann _ _) \<longleftrightarrow>
    takes cmd (announce_response ann) \<and> (\<forall>e. takes cmd (announce_error ann e))"
| "wait_fits cmd (WaitAutoCheckpoint resp) \<longleftrightarrow> takes cmd resp"
| "wait_fits cmd WaitFlush \<longleftrightarrow> cmd = CFlush"
| "wait_fits cmd WaitCheckpoint \<longleftrightarrow> cmd = CCheckpoint"
| "wait_fits cmd WaitShutdown \<longleftrightarrow> cmd = CShutdown"

definition answered :: "command \<Rightarrow> 's runtime \<Rightarrow> 's runtime \<Rightarrow> bool" where
  "answered cmd rt rt' \<longleftrightarrow> (\<exists>resp. rt_responses rt' = rt_responses rt @ [resp] \<and> takes cmd resp) \<and>
    (rt_ctl rt' = Idle \<or> rt_ctl rt' = Stopped)"

definition serves :: "command \<Rightarrow> ctl \<Rightarrow> bool" where
  "serves cmd c \<longleftrightarrow> (\<exists>wt. waiting_for c = Some wt \<and> wait_fits cmd wt)"

definition goes_on :: "command \<Rightarrow> 's runtime \<Rightarrow> 's runtime \<Rightarrow> bool" where
  "goes_on cmd rt rt' \<longleftrightarrow> answered cmd rt rt' \<or> rt_responses rt' = rt_responses rt \<and> serves cmd (rt_ctl rt')"

lemma takes_simps [simp]:
  "takes (CInsert d) (RespId r)" "takes (CPatch i p) (RespUnit u)" "takes (CVoid i) (RespUnit u)"
  "takes CUndo (RespUnit u)" "takes CRedo (RespUnit u)" "takes (CGet i) (RespRecord ro)"
  "takes (CRecent n) (RespRecords rs)" "takes (CByCall c) (RespRecords rs)" "takes CFlush (RespSeq sq)"
  "takes CCheckpoint (RespUnit u)" "takes CShutdown (RespUnit u)"
  by (simp_all add: takes_def)

lemma goes_on_respond:
  "rt_responses rt1 = rt_responses rt \<Longrightarrow> takes cmd resp \<Longrightarrow> goes_on cmd rt (respond resp rt1)"
  by (simp add: goes_on_def answered_def)

lemma goes_on_stop:
  "rt_responses rt1 = rt_responses rt \<Longrightarrow> takes cmd resp \<Longrightarrow> goes_on cmd rt ((respond resp rt1)\<lparr>rt_ctl := Stopped\<rparr>)"
  by (simp add: goes_on_def answered_def)

lemma goes_on_wait:
  "rt_responses rt1 = rt_responses rt \<Longrightarrow> wait_fits cmd wt \<Longrightarrow> goes_on cmd rt (rt1\<lparr>rt_ctl := Sending m wt\<rparr>)"
  "rt_responses rt1 = rt_responses rt \<Longrightarrow> wait_fits cmd wt \<Longrightarrow> goes_on cmd rt (rt1\<lparr>rt_ctl := Awaiting wt\<rparr>)"
  by (simp_all add: goes_on_def serves_def)

lemma goes_on_accepted:
  assumes "rt_responses rt1 = rt_responses rt" "takes cmd (announce_response ann)"
  shows "goes_on cmd rt (mutation_accepted cfg ann rt1)"
  using assms
  by (auto simp: mutation_accepted_def maybe_auto_checkpoint_def Let_def split: announce.split
      intro!: goes_on_respond goes_on_wait)

lemma goes_on_rejected:
  assumes "mutation_rejected pf ann cp so err rt1 = Some rt'" "rt_responses rt1 = rt_responses rt"
    and "\<forall>e. takes cmd (announce_error ann e)"
  shows "goes_on cmd rt rt'"
  using assms by (auto simp: mutation_rejected_def split: result.splits intro!: goes_on_respond)

lemma goes_on_persist:
  assumes run: "persist_after_mutation pf fm cfg ann cp so rt1 = Some rt'" and resp: "rt_responses rt1 = rt_responses rt"
    and fits: "wait_fits cmd (WaitMutation ann cp so)"
  shows "goes_on cmd rt rt'"
proof (cases "rt_worker rt1")
  case None
  with assms show ?thesis by (auto simp: persist_after_mutation_def intro: goes_on_accepted)
next
  case (Some w)
  show ?thesis
  proof (cases "enqueue_persist cfg so w")
    case (Inl e)
    with assms Some show ?thesis by (auto simp: persist_after_mutation_def intro: goes_on_rejected)
  next
    case (Inr w1)
    with assms Some show ?thesis
      by (auto simp: persist_after_mutation_def Let_def split: if_splits intro!: goes_on_accepted goes_on_wait)
  qed
qed

lemma goes_on_mutation:
  assumes run: "handle_mutation pf fm cfg clk cmd rt = Some rt'"
    and mut: "cmd \<in> {CUndo, CRedo} \<or> (\<exists>d. cmd = CInsert d) \<or> (\<exists>i p. cmd = CPatch i p) \<or> (\<exists>i. cmd = CVoid i)"
  shows "goes_on cmd rt rt'"
proof -
  have err: "takes cmd (command_error cmd e)" for e
    using mut by auto
  show ?thesis
  proof (cases "ensure_mutation_allowed (cfg_ack_mode cfg) (rt_health rt)")
    case (Inl e)
    with run err show ?thesis by (auto simp: handle_mutation_def intro: goes_on_respond)
  next
    case (Inr u)
    show ?thesis
    proof (cases "run_mutation pf clk cmd (rt_store rt)")
      case Panic
      with Inr run show ?thesis by (simp add: handle_mutation_def Let_def)
    next
      case (Err e st)
      with Inr run err show ?thesis by (auto simp: handle_mutation_def Let_def intro: goes_on_respond)
    next
      case (Ok x st)
      obtain ann so where x: "x = (ann, so)" by fastforce
      have "wait_fits cmd (WaitMutation ann cp so)" for cp
        using Ok mut by (auto simp: x run_mutation_def and_then_Ok_iff)
      moreover have "persist_after_mutation pf fm cfg ann (take_checkpoint (rt_store rt)) so
          (rt\<lparr>rt_store := clear_pending_ops st\<rparr>) = Some rt'"
        using run Inr Ok by (simp add: handle_mutation_def Let_def x)
      ultimately show ?thesis by (auto intro: goes_on_persist)
    qed
  qed
qed

lemma goes_on_command:
  assumes "handle_command pf fm cfg clk cmd rt = Some rt'"
  shows "goes_on cmd rt rt'"
proof (cases "cmd \<in> {CUndo, CRedo} \<or> (\<exists>d. cmd = CInsert d) \<or> (\<exists>i p. cmd = CPatch i p) \<or> (\<exists>i. cmd = CVoid i)")
  case True
  with assms have "handle_mutation pf fm cfg clk cmd rt = Some rt'"
    by (auto simp: handle_command_def)
  with True show ?thesis by (rule goes_on_mutation [rotated])
next
  case False
  with assms show ?thesis
    by (cases cmd) (auto simp: handle_command_def split: option.splits
        intro!: goes_on_respond goes_on_stop goes_on_wait)
qed

lemma goes_on_resume:
  assumes "resume pf fm cfg wt rep rt1 = Some rt'" "rt_responses rt1 = rt_responses rt" "wait_fits cmd wt"
  shows "goes_on cmd rt rt'"
  using assms
  by (cases "(pf, fm, cfg, wt, rep, rt1)" rule: resume.cases)
    (auto intro!: goes_on_respond goes_on_stop goes_on_accepted intro: goes_on_rejected)

lemma goes_on_progress:
  assumes run: "loop_progress pf fm cfg rt = Some (Some rt')" and serves: "serves cmd (rt_ctl rt)"
  shows "goes_on cmd rt rt'"
proof -
  obtain w where w: "rt_worker rt = Some w"
    using run by (auto simp: loop_progress_def split: option.splits)
  obtain wt where wt: "waiting_for (rt_ctl rt) = Some wt" and fits: "wait_fits cmd wt"
    using serves by (auto simp: serves_def)
  then consider m where "rt_ctl rt = Sending m wt" | "rt_ctl rt = Awaiting wt"
    by (cases "rt_ctl rt") auto
  then show ?thesis
  proof cases
    case 1
    show ?thesis
    proof (cases "wk_running w")
      case True
      with 1 run w fits show ?thesis
        by (auto simp: loop_progress_def split: if_splits intro!: goes_on_wait)
    next
      case False
      with 1 run w have "send_failed pf fm cfg wt rt = Some rt'" by (simp add: loop_progress_def)
      then show ?thesis
        using goes_on_resume [OF _ refl fits] fits
        by (cases wt) (auto simp del: resume.simps intro: goes_on_respond)
    qed
  next
    case 2
    with run w show ?thesis
      by (auto simp: loop_progress_def split: option.splits if_splits intro: goes_on_resume [OF _ _ fits])
  qed
qed

text \<open>Any other step leaves control and responses alone.\<close>

lemma quiet_step:
  assumes "rt_exec pf fm cfg sink l rt = Some o_rt" "\<not> client_label l" "l \<noteq> LProgress"
  obtains rt' where "o_rt = Some rt'" "rt_responses rt' = rt_responses rt" "rt_ctl rt' = rt_ctl rt"
proof (cases l)
  case LDurable
  with assms(1) obtain rt' where rt': "loop_durable fm rt = Some rt'" "o_rt = Some rt'" by auto
  then have "rt_responses rt' = rt_responses rt \<and> rt_ctl rt' = rt_ctl rt"
    by (elim loop_durable_cases) (auto simp: handle_durable_def split: sum.splits)
  with rt' that show ?thesis by blast
qed (use assms that in \<open>auto simp: map_worker_def split: option.splits if_splits\<close>)

lemma idle_no_progress: "rt_ctl rt = Idle \<or> rt_ctl rt = Stopped \<Longrightarrow> loop_progress pf fm cfg rt = None"
  by (auto simp: loop_progress_def split: option.split)


subsection \<open>The invariant of the system\<close>

text \<open>Every call that waits has a sender somewhere, every sender is that of a call that waits or
  was abandoned, each sender is in one place, the loop serves the command it holds a sender of,
  an ended loop holds none, and what has been returned has the type of the method called.\<close>

fun result_fits :: "command \<Rightarrow> call_result \<Rightarrow> bool" where
  "result_fits (CInsert _) (GotId _) = True"
| "result_fits (CGet _) (GotRecord _) = True"
| "result_fits (CRecent _) (GotRecords _) = True"
| "result_fits (CByCall _) (GotRecords _) = True"
| "result_fits CFlush (GotSeq _) = True"
| "result_fits cmd (GotUnit _) \<longleftrightarrow> cmd \<in> {CUndo, CRedo, CCheckpoint, CShutdown} \<or>
    (\<exists>i p. cmd = CPatch i p) \<or> (\<exists>i. cmd = CVoid i)"
| "result_fits _ _ = False"

fun well_returned :: "call \<Rightarrow> bool" where
  "well_returned (CallReturned cmd r) \<longleftrightarrow> (\<exists>res. r = Some res \<and> result_fits cmd res)"
| "well_returned _ = True"

definition calls_at :: "(command \<Rightarrow> call) \<Rightarrow> call list \<Rightarrow> (nat \<times> command) set" where
  "calls_at C calls = {(n, cmd). n < length calls \<and> calls ! n = C cmd}"

abbreviation waits :: "call list \<Rightarrow> (nat \<times> command) set" where
  "waits \<equiv> calls_at CallWaiting"

abbreviation abandoned :: "call list \<Rightarrow> (nat \<times> command) set" where
  "abandoned \<equiv> calls_at CallAbandoned"

definition calls_ok :: "'s system \<Rightarrow> bool" where
  "calls_ok sy \<longleftrightarrow> waits (sy_calls sy) \<subseteq> set (held sy) \<and>
    set (held sy) \<subseteq> waits (sy_calls sy) \<union> abandoned (sy_calls sy) \<and> distinct (map fst (held sy)) \<and>
    list_all well_returned (sy_calls sy) \<and> length (sy_queue sy) \<le> CMD_CHANNEL_CAPACITY"

definition sy_inv :: "'s system \<Rightarrow> bool" where
  "sy_inv sy \<longleftrightarrow> calls_ok sy \<and>
    (case sy_serving sy of
       None \<Rightarrow> rt_ctl (sy_rt sy) = Idle \<or> rt_ctl (sy_rt sy) = Stopped
     | Some (n, cmd) \<Rightarrow> serves cmd (rt_ctl (sy_rt sy))) \<and>
    (rt_ctl (sy_rt sy) = Stopped \<longrightarrow> sy_queue sy = [])"

lemma method_result_fits: "method_result cmd r = Some res \<Longrightarrow> result_fits cmd res"
  by (cases cmd) (auto split: option.splits response.splits)

lemma method_result_closed: "\<exists>res. method_result cmd None = Some res \<and> result_fits cmd res"
  by (cases cmd) simp_all

lemma answer_call_ok:
  assumes "well_returned c" "\<And>cmd. c = CallWaiting cmd \<Longrightarrow> rx = None \<or> (\<exists>resp. rx = Some resp \<and> takes cmd resp)"
  shows "well_returned (answer_call rx c)"
proof (cases c)
  case (CallWaiting cmd)
  with assms(2) have "\<exists>res. method_result cmd rx = Some res"
    using method_result_closed [of cmd] by (auto simp: takes_def)
  with CallWaiting method_result_fits show ?thesis by auto
qed (use assms(1) in simp_all)

lemma list_all_update: "list_all P xs \<Longrightarrow> P x \<Longrightarrow> list_all P (xs[n := x])"
  by (auto simp: list_all_iff dest!: set_update_subset_insert [THEN subsetD])

lemma list_all_update_nth: "list_all P xs \<Longrightarrow> (n < length xs \<Longrightarrow> P (xs ! n) \<Longrightarrow> P x) \<Longrightarrow> list_all P (xs[n := x])"
  by (cases "n < length xs") (auto simp: list_all_length nth_list_update not_less list_update_beyond)

lemma drop_senders_returned: "list_all well_returned calls \<Longrightarrow> list_all well_returned (drop_senders ns calls)"
proof (induction ns arbitrary: calls)
  case (Cons n ns)
  have "list_all well_returned (calls[n := answer_call None (calls ! n)])"
    by (rule list_all_update_nth [OF Cons.prems]) (simp add: answer_call_ok)
  with Cons.IH show ?case by (simp add: drop_senders_def)
qed (simp add: drop_senders_def)

lemma calls_at_update:
  "calls_at C (calls[n := c]) = {(m, cmd) \<in> calls_at C calls. m \<noteq> n} \<union>
    {(m, cmd). m = n \<and> n < length calls \<and> c = C cmd}"
proof -
  have "(m, cmd) \<in> calls_at C (calls[n := c]) \<longleftrightarrow>
      (m, cmd) \<in> calls_at C calls \<and> m \<noteq> n \<or> m = n \<and> n < length calls \<and> c = C cmd" for m cmd
    by (cases "m = n") (auto simp: calls_at_def)
  then show ?thesis by auto
qed

lemma answer_call_waits [simp]: "answer_call rx c \<noteq> CallWaiting cmd"
  by (cases c) auto

lemma answer_call_abandoned [simp]: "answer_call rx c = CallAbandoned cmd \<longleftrightarrow> c = CallAbandoned cmd"
  by (cases c) auto

lemma answer_call_at:
  "waits (calls[n := answer_call rx (calls ! n)]) = {(m, cmd) \<in> waits calls. m \<noteq> n}"
  "abandoned (calls[n := answer_call rx (calls ! n)]) = abandoned calls"
  unfolding calls_at_update by (auto simp: calls_at_def)

lemma drop_senders_waits: "waits (drop_senders ns calls) = {(n, cmd) \<in> waits calls. n \<notin> set ns}"
proof (induction ns arbitrary: calls)
  case (Cons n ns)
  have "drop_senders (n # ns) calls = drop_senders ns (calls[n := answer_call None (calls ! n)])"
    by (simp add: drop_senders_def)
  then show ?case
    by (auto simp: Cons.IH answer_call_at)
qed (auto simp: drop_senders_def)

lemma serves_not: "\<not> serves cmd Idle" "\<not> serves cmd Stopped"
  by (simp_all add: serves_def)

text \<open>Closing the channel when the loop has ended restores the invariant.\<close>

lemma close_channel_inv:
  assumes ok: "calls_ok sy"
    and ctl: "rt_ctl (sy_rt sy) \<noteq> Stopped \<Longrightarrow> (case sy_serving sy of
      None \<Rightarrow> rt_ctl (sy_rt sy) = Idle | Some (n, cmd) \<Rightarrow> serves cmd (rt_ctl (sy_rt sy)))"
  shows "sy_inv (close_channel sy)"
proof (cases "rt_ctl (sy_rt sy) = Stopped")
  case True
  have "waits (drop_senders (map fst (held sy)) (sy_calls sy)) = {}"
    using ok by (force simp: drop_senders_waits calls_ok_def)
  with True ok show ?thesis
    by (simp add: close_channel_def sy_inv_def calls_ok_def held_def drop_senders_returned)
next
  case False
  with ok ctl [OF False] show ?thesis
    by (auto simp: close_channel_def sy_inv_def split: option.splits)
qed

lemma settle_panic_inv: "calls_ok sy \<Longrightarrow> sy_inv (settle None sy)"
  by (simp add: settle_def) (rule close_channel_inv, simp_all add: calls_ok_def held_def)

lemma deliver_calls_ok:
  assumes ok: "calls_ok sy" and srv: "sy_serving sy = Some (n, cmd)" and on: "goes_on cmd (sy_rt sy) rt'"
  shows "calls_ok (deliver rt' sy)"
proof (cases "answered cmd (sy_rt sy) rt'")
  case True
  then obtain resp where resp: "rt_responses rt' = rt_responses (sy_rt sy) @ [resp]" "takes cmd resp"
    by (auto simp: answered_def)
  let ?calls = "(sy_calls sy)[n := answer_call (Some resp) (sy_calls sy ! n)]"
  let ?queue = "map (\<lambda>(n, clk, cmd). (n, cmd)) (sy_queue sy)"
  have held: "held sy = ?queue @ [(n, cmd)]" using srv by (simp add: held_def)
  have "(n, cmd) \<in> waits (sy_calls sy) \<union> abandoned (sy_calls sy)" using ok held by (auto simp: calls_ok_def)
  with resp(2) have "list_all well_returned ?calls"
    using ok by (intro list_all_update_nth answer_call_ok) (auto simp: calls_ok_def calls_at_def)
  moreover have "waits ?calls \<subseteq> set ?queue \<and> set ?queue \<subseteq> waits ?calls \<union> abandoned ?calls"
    unfolding answer_call_at using ok by (force simp: calls_ok_def held)
  moreover have "distinct (map fst ?queue)" using ok by (simp add: calls_ok_def held)
  ultimately show ?thesis
    using ok srv resp(1) by (simp add: deliver_def calls_ok_def held_def)
next
  case False
  with on have "rt_responses rt' = rt_responses (sy_rt sy)" by (simp add: goes_on_def)
  with ok srv show ?thesis by (simp add: deliver_def calls_ok_def held_def)
qed

lemma settle_serving_inv:
  assumes ok: "calls_ok sy" and srv: "sy_serving sy = Some (n, cmd)" and on: "goes_on cmd (sy_rt sy) rt'"
  shows "sy_inv (settle (Some rt') sy)"
proof -
  have "rt_ctl (sy_rt (deliver rt' sy)) \<noteq> Stopped \<Longrightarrow> (case sy_serving (deliver rt' sy) of
      None \<Rightarrow> rt_ctl (sy_rt (deliver rt' sy)) = Idle
    | Some (n, cmd) \<Rightarrow> serves cmd (rt_ctl (sy_rt (deliver rt' sy))))"
    using on srv by (auto simp: deliver_def goes_on_def answered_def)
  with deliver_calls_ok [OF assms] show ?thesis
    by (simp add: settle_def close_channel_inv)
qed

lemma settle_quiet_inv:
  assumes inv: "sy_inv sy" and resp: "rt_responses rt' = rt_responses (sy_rt sy)"
    and ctl: "rt_ctl rt' = rt_ctl (sy_rt sy) \<or> sy_serving sy = None \<and> rt_ctl rt' = Stopped"
  shows "sy_inv (settle (Some rt') sy)"
proof -
  have d: "deliver rt' sy = sy\<lparr>sy_rt := rt'\<rparr>"
    using resp by (auto simp: deliver_def split: option.split)
  then have "calls_ok (deliver rt' sy)"
    using inv by (simp add: sy_inv_def calls_ok_def held_def)
  moreover have "rt_ctl rt' \<noteq> Stopped \<Longrightarrow> (case sy_serving sy of
      None \<Rightarrow> rt_ctl rt' = Idle | Some (n, cmd) \<Rightarrow> serves cmd (rt_ctl rt'))"
    using inv ctl by (auto simp: sy_inv_def split: option.splits)
  ultimately show ?thesis
    unfolding settle_def option.case d by (intro close_channel_inv) (auto split: option.splits)
qed

text \<open>Every event keeps the invariant.\<close>

lemma list_all_nth_update:
  "calls_ok sy \<Longrightarrow> well_returned c \<Longrightarrow> list_all well_returned ((sy_calls sy)[n := c])"
  by (simp add: calls_ok_def list_all_update)

lemma calls_at_append:
  "(\<And>c. C c \<noteq> CallSending clk cmd) \<Longrightarrow> calls_at C (calls @ [CallSending clk cmd]) = calls_at C calls"
  by (fastforce simp: calls_at_def nth_append split: if_splits)

lemma held_waits:
  assumes "calls_ok sy" "m \<in> fst ` set (held sy)"
  obtains cmd where "m < length (sy_calls sy)" "sy_calls sy ! m = CallWaiting cmd \<or> sy_calls sy ! m = CallAbandoned cmd"
  using assms by (force simp: calls_ok_def calls_at_def)

lemma held_simps [simp]:
  "held (sy\<lparr>sy_calls := calls\<rparr>) = held sy" "held (sy\<lparr>sy_rt := rt\<rparr>) = held sy"
  by (simp_all add: held_def)

lemma sy_calls_inv:
  assumes "sy_inv sy" "waits calls \<subseteq> waits (sy_calls sy)" "list_all well_returned calls"
    and "waits (sy_calls sy) \<union> abandoned (sy_calls sy) \<subseteq> waits calls \<union> abandoned calls"
  shows "sy_inv (sy\<lparr>sy_calls := calls\<rparr>)"
proof -
  have "waits (sy_calls sy) \<subseteq> set (held sy)" "set (held sy) \<subseteq> waits (sy_calls sy) \<union> abandoned (sy_calls sy)"
    using assms(1) by (simp_all add: sy_inv_def calls_ok_def)
  with assms(2,4) have "waits calls \<subseteq> set (held sy)" "set (held sy) \<subseteq> waits calls \<union> abandoned calls"
    by blast+
  with assms(1,3) show ?thesis
    by (cases "sy_serving sy") (simp_all add: sy_inv_def calls_ok_def split: prod.splits)
qed

lemma sy_handles_inv: "sy_inv sy \<Longrightarrow> sy_inv (sy\<lparr>sy_handles := h\<rparr>)"
  by (cases "sy_serving sy") (simp_all add: sy_inv_def calls_ok_def held_def split: prod.splits)

lemma apart_insert:
  "set (xs @ [(n, c)] @ ys) = insert (n, c) (set (xs @ ys))"
  "distinct (map fst (xs @ [(n, c)] @ ys)) \<longleftrightarrow> n \<notin> fst ` set (xs @ ys) \<and> distinct (map fst (xs @ ys))"
  by auto

lemma held_push:
  obtains xs ys where "held sy = xs @ ys"
    "held (sy\<lparr>sy_queue := sy_queue sy @ [(n, clk, cmd)], sy_calls := calls\<rparr>) = xs @ [(n, cmd)] @ ys"
  by (simp add: held_def)

lemma send_inv:
  assumes inv: "sy_inv sy" and run: "sy_exec pf fm cfg sink (ESend n) sy = Some sy'"
  shows "sy_inv sy'"
proof -
  have ok: "calls_ok sy" using inv by (simp add: sy_inv_def)
  obtain clk cmd where n: "n < length (sy_calls sy)" "sy_calls sy ! n = CallSending clk cmd"
    using run by (auto split: if_splits call.splits)
  have out: "n \<notin> fst ` set (held sy)"
    using held_waits [OF ok] n(2) by (metis call.distinct(1,3))
  have keep: "waits (sy_calls sy) \<subseteq> waits ((sy_calls sy)[n := c])" "abandoned (sy_calls sy) \<subseteq> abandoned ((sy_calls sy)[n := c])"
    for c
    unfolding calls_at_update using n(2) by (auto simp: calls_at_def)
  show ?thesis
  proof (cases "rt_ctl (sy_rt sy) = Stopped")
    case True
    let ?calls = "(sy_calls sy)[n := CallReturned cmd (method_result cmd None)]"
    have "waits ?calls \<subseteq> waits (sy_calls sy)"
      unfolding calls_at_update by auto
    moreover have "list_all well_returned ?calls"
      using method_result_closed by (intro list_all_nth_update [OF ok]) auto
    ultimately have "sy_inv (sy\<lparr>sy_calls := ?calls\<rparr>)"
      using keep by (intro sy_calls_inv [OF inv]) blast+
    then show ?thesis using run n True by simp
  next
    case False
    then have room: "length (sy_queue sy) < CMD_CHANNEL_CAPACITY"
      and sy': "sy' = sy\<lparr>sy_queue := sy_queue sy @ [(n, clk, cmd)], sy_calls := (sy_calls sy)[n := CallWaiting cmd]\<rparr>"
      using run n by (auto split: if_splits)
    have "list_all well_returned ((sy_calls sy)[n := CallWaiting cmd])"
      by (intro list_all_nth_update [OF ok]) simp
    moreover have "waits ((sy_calls sy)[n := CallWaiting cmd]) \<subseteq> insert (n, cmd) (waits (sy_calls sy))"
      "(n, cmd) \<in> waits ((sy_calls sy)[n := CallWaiting cmd])"
      using n(1) unfolding calls_at_update by auto
    moreover obtain xs ys where held: "held sy = xs @ ys" "held sy' = xs @ [(n, cmd)] @ ys"
      unfolding sy' by (rule held_push)
    ultimately have "calls_ok sy'"
      using ok out room keep [of "CallWaiting cmd"] unfolding calls_ok_def held apart_insert by (auto simp: sy')
    with inv False show ?thesis
      by (cases "sy_serving sy") (simp_all add: sy_inv_def sy' split: prod.splits)
  qed
qed

text \<open>Abandoning a call moves it from the calls that wait to the abandoned ones.\<close>

lemma abandon_inv:
  assumes inv: "sy_inv sy" and run: "sy_exec pf fm cfg sink (EAbandon n) sy = Some sy'"
  shows "sy_inv sy'"
proof -
  have ok: "calls_ok sy" using inv by (simp add: sy_inv_def)
  obtain clk cmd where n: "n < length (sy_calls sy)" "sy_calls sy ! n = CallSending clk cmd \<or> sy_calls sy ! n = CallWaiting cmd"
    and sy': "sy' = sy\<lparr>sy_calls := (sy_calls sy)[n := CallAbandoned cmd]\<rparr>"
    using run by (auto split: if_splits call.splits)
  let ?calls = "(sy_calls sy)[n := CallAbandoned cmd]"
  have "waits ?calls \<subseteq> waits (sy_calls sy)"
    unfolding calls_at_update by auto
  moreover have "waits (sy_calls sy) \<union> abandoned (sy_calls sy) \<subseteq> waits ?calls \<union> abandoned ?calls"
    unfolding calls_at_update using n by (auto simp: calls_at_def)
  moreover have "list_all well_returned ?calls" by (intro list_all_nth_update [OF ok]) simp
  ultimately show ?thesis unfolding sy' by (intro sy_calls_inv [OF inv])
qed

lemma take_inv:
  assumes inv: "sy_inv sy" and run: "sy_exec pf fm cfg sink ETake sy = Some sy'"
  shows "sy_inv sy'"
proof -
  obtain n clk cmd rest o_rt where q: "sy_queue sy = (n, clk, cmd) # rest"
    and ex: "rt_exec pf fm cfg sink (LCommand clk cmd) (sy_rt sy) = Some o_rt"
    and sy': "sy' = settle o_rt (sy\<lparr>sy_queue := rest, sy_serving := Some (n, cmd)\<rparr>)"
    using run by (auto split: list.splits option.splits)
  have idle: "rt_ctl (sy_rt sy) = Idle" and o_rt: "o_rt = handle_command pf fm cfg clk cmd (sy_rt sy)"
    using ex by (auto split: if_splits)
  then have "sy_serving sy = None"
    using inv by (auto simp: sy_inv_def serves_not split: option.splits)
  then have ok: "calls_ok (sy\<lparr>sy_queue := rest, sy_serving := Some (n, cmd)\<rparr>)"
    using inv q by (auto simp: sy_inv_def calls_ok_def held_def)
  show ?thesis
  proof (cases o_rt)
    case None
    with settle_panic_inv [OF ok] show ?thesis by (simp add: sy')
  next
    case (Some rt')
    have "goes_on cmd (sy_rt sy) rt'"
      using Some o_rt by (auto intro: goes_on_command)
    with settle_serving_inv [OF ok] show ?thesis by (simp add: sy' Some)
  qed
qed

lemma progress_inv:
  assumes inv: "sy_inv sy" and ex: "rt_exec pf fm cfg sink LProgress (sy_rt sy) = Some o_rt"
  shows "sy_inv (settle o_rt sy)"
proof (cases o_rt)
  case None
  have "calls_ok sy" using inv by (simp add: sy_inv_def)
  then show ?thesis using None by (simp add: settle_panic_inv)
next
  case (Some rt')
  have run: "loop_progress pf fm cfg (sy_rt sy) = Some (Some rt')" using ex Some by simp
  then obtain n cmd where srv: "sy_serving sy = Some (n, cmd)" "serves cmd (rt_ctl (sy_rt sy))"
    using inv idle_no_progress [of "sy_rt sy" pf fm cfg] by (auto simp: sy_inv_def split: option.splits)
  have "goes_on cmd (sy_rt sy) rt'" by (rule goes_on_progress [OF run srv(2)])
  with settle_serving_inv [OF _ srv(1)] inv show ?thesis by (simp add: Some sy_inv_def)
qed

lemma sy_exec_inv:
  assumes inv: "sy_inv sy" and run: "sy_exec pf fm cfg sink ev sy = Some sy'"
  shows "sy_inv sy'"
proof (cases ev)
  case (ECall clk cmd)
  have "list_all well_returned (sy_calls sy @ [CallSending clk cmd])"
    using inv by (simp add: sy_inv_def calls_ok_def)
  moreover have "sy' = sy\<lparr>sy_calls := sy_calls sy @ [CallSending clk cmd]\<rparr>"
    using run ECall by (simp split: if_splits)
  ultimately show ?thesis using sy_calls_inv [OF inv] by (simp add: calls_at_append)
next
  case (ESend n)
  with assms show ?thesis by (metis send_inv)
next
  case (EAbandon n)
  with assms show ?thesis by (metis abandon_inv)
next
  case EClone
  with assms show ?thesis by (auto split: if_splits intro: sy_handles_inv)
next
  case EDropHandle
  with assms show ?thesis by (auto split: if_splits intro: sy_handles_inv)
next
  case ETake
  with assms show ?thesis by (metis take_inv)
next
  case (EStep l)
  then obtain o_rt where ex: "rt_exec pf fm cfg sink l (sy_rt sy) = Some o_rt" "\<not> client_label l"
    and sy': "sy' = settle o_rt sy"
    using run by (auto split: if_splits option.splits)
  show ?thesis
  proof (cases "l = LProgress")
    case True
    with progress_inv [OF inv] ex show ?thesis by (simp add: sy')
  next
    case False
    then obtain rt' where "o_rt = Some rt'" "rt_responses rt' = rt_responses (sy_rt sy)"
      "rt_ctl rt' = rt_ctl (sy_rt sy)"
      by (rule quiet_step [OF ex])
    with settle_quiet_inv [OF inv] show ?thesis by (simp add: sy')
  qed
next
  case EClosed
  then obtain o_rt where ex: "rt_exec pf fm cfg sink LDrop (sy_rt sy) = Some o_rt" and sy': "sy' = settle o_rt sy"
    using run by (auto split: if_splits option.splits)
  then have idle: "rt_ctl (sy_rt sy) = Idle" and o_rt: "o_rt = Some ((sy_rt sy)\<lparr>rt_ctl := Stopped\<rparr>)"
    by (auto split: if_splits)
  then have "sy_serving sy = None"
    using inv by (auto simp: sy_inv_def serves_not split: option.splits)
  with settle_quiet_inv [OF inv] show ?thesis by (simp add: sy' o_rt)
qed

lemma spawn_inv:
  assumes "spawn_system store o_sink cfg = Some sy0"
  shows "sy_inv sy0"
proof -
  obtain rt where "spawn_qsolog store o_sink cfg = Some rt"
    "sy0 = \<lparr>sy_rt = rt, sy_handles = 1, sy_queue = [], sy_serving = None, sy_calls = []\<rparr>"
    using assms by (auto simp: spawn_system_def)
  then show ?thesis
    by (auto simp: sy_inv_def calls_ok_def calls_at_def held_def spawn_qsolog_def split: if_splits option.splits)
qed

lemma sy_reach_inv:
  assumes "sy_reach pf fm cfg sink sy0 sy" "spawn_system store o_sink cfg = Some sy0"
  shows "sy_inv sy"
  using assms by (induction rule: sy_reach.induct) (auto intro: spawn_inv sy_exec_inv)

end
