(* ===== verification/Qso_Client_Live.thy ===== *)
theory Qso_Client_Live
  imports Qso_Client
begin

section \<open>Progress and bounds of the client side\<close>

text \<open>
  Every call can return: in each reachable state some sequence of steps of loop and worker,
  and of sends, ends any given call. The loop is driven by a lexicographic measure (what it
  still waits for, then the messages in front of it); the command channel by its length. The
  second part bounds every queue and the worker's buffer.
\<close>


subsection \<open>A measure on the loop\<close>

fun wait_rank :: "wait \<Rightarrow> nat" where
  "wait_rank (WaitMutation _ _ _) = 2"
| "wait_rank _ = 0"

fun ctl_rank :: "ctl \<Rightarrow> nat" where
  "ctl_rank (Sending _ wt) = 2 + wait_rank wt"
| "ctl_rank (Awaiting wt) = 1 + wait_rank wt"
| "ctl_rank _ = 0"

definition queued :: "'s runtime \<Rightarrow> nat" where
  "queued rt = (case rt_worker rt of None \<Rightarrow> 0 | Some w \<Rightarrow> length (wk_queue w))"

definition loop_order :: "('s runtime \<times> 's runtime) set" where
  "loop_order = inv_image (less_than <*lex*> less_than) (\<lambda>rt. (ctl_rank (rt_ctl rt), queued rt))"

lemma wf_loop_order: "wf loop_order"
  by (auto simp: loop_order_def)


subsection \<open>Bounds of the queues\<close>

definition worker_bounded :: "runtime_config \<Rightarrow> 's worker \<Rightarrow> bool" where
  "worker_bounded cfg w \<longleftrightarrow> length (wk_queue w) \<le> cfg_persist_queue_bound cfg \<and>
    length (wk_buf w) < max 1 (cfg_batch_max_ops cfg)"

text \<open>The queue has room for at least one message, because spawning with capacity 0 panics.\<close>

definition rt_bounded :: "runtime_config \<Rightarrow> 's runtime \<Rightarrow> bool" where
  "rt_bounded cfg rt \<longleftrightarrow>
    (\<forall>w. rt_worker rt = Some w \<longrightarrow> worker_bounded cfg w \<and> 0 < cfg_persist_queue_bound cfg)"

lemma worker_bounded_simps [simp]:
  "worker_bounded cfg (w\<lparr>wk_reply := r\<rparr>) = worker_bounded cfg w"
  "worker_bounded cfg (w\<lparr>wk_durable := ds\<rparr>) = worker_bounded cfg w"
  "worker_bounded cfg (w\<lparr>wk_running := b\<rparr>) = worker_bounded cfg w"
  by (simp_all add: worker_bounded_def)

lemma handle_buf_cases:
  "wk_buf (worker_handle fm cfg sink msg w) = [] \<or>
    length (wk_buf (worker_handle fm cfg sink msg w)) < cfg_batch_max_ops cfg"
proof -
  obtain out v where "flush_buf fm sink True w = (out, v)" by fastforce
  with flush_buf_wiring [OF this] show ?thesis
    by (cases msg) (simp_all add: flush_snd_wiring Let_def split: prod.split sum.split)
qed

lemma handle_buf: "length (wk_buf (worker_handle fm cfg sink msg w)) < max 1 (cfg_batch_max_ops cfg)"
  using handle_buf_cases [of fm cfg sink msg w] by auto

lemma recv_bounded:
  assumes "worker_bounded cfg w" "worker_recv fm cfg sink w = Some w'"
  shows "worker_bounded cfg w'"
proof -
  obtain msg rest where "wk_queue w = msg # rest" "w' = worker_handle fm cfg sink msg (w\<lparr>wk_queue := rest\<rparr>)"
    using assms(2) by (auto simp: worker_recv_def split: if_splits list.splits)
  with assms(1) show ?thesis
    using handle_buf [of fm cfg sink msg "w\<lparr>wk_queue := rest\<rparr>"]
    by (simp add: worker_bounded_def worker_handle_wiring(1) [OF refl])
qed

lemma flushed_bounded:
  "worker_bounded cfg w \<Longrightarrow> worker_bounded cfg (snd (flush_buf fm sink cf w))"
  by (simp add: worker_bounded_def flush_snd_wiring)

lemma resume_worker: "resume pf fm cfg wt rep rt = Some rt' \<Longrightarrow> rt_worker rt' = rt_worker rt"
  using resume_sel by blast

lemma pushed_bounded:
  "worker_bounded cfg w \<Longrightarrow> length (wk_queue w) < cfg_persist_queue_bound cfg \<Longrightarrow> worker_bounded cfg (pushed so w)"
  by (simp add: worker_bounded_def pushed_def)

lemma accepted_ctl:
  "rt_ctl (mutation_accepted cfg ann rt) = Idle \<or>
    (\<exists>m resp. rt_ctl (mutation_accepted cfg ann rt) = Sending m (WaitAutoCheckpoint resp))"
  by (auto simp: mutation_accepted_def maybe_auto_checkpoint_def Let_def split: announce.split)

lemma resume_ctl:
  assumes "resume pf fm cfg wt rep rt = Some rt'"
  shows "rt_ctl rt' = Idle \<or> rt_ctl rt' = Stopped \<or>
    (\<exists>ann cp so m resp. wt = WaitMutation ann cp so \<and> rt_ctl rt' = Sending m (WaitAutoCheckpoint resp))"
  using assms accepted_ctl
  by (cases "(pf, fm, cfg, wt, rep, rt)" rule: resume.cases) (auto dest!: rejected_sel)

lemma resume_rank:
  "resume pf fm cfg wt rep rt = Some rt' \<Longrightarrow> ctl_rank (rt_ctl rt') < 1 + wait_rank wt"
  using resume_ctl [of pf fm cfg wt rep rt rt'] by auto

lemma send_failed_rank:
  "send_failed pf fm cfg wt rt = Some rt' \<Longrightarrow> ctl_rank (rt_ctl rt') < 1 + wait_rank wt"
  by (cases wt) (auto simp del: resume.simps dest: resume_rank)

text \<open>A loop that waits is never stuck, and each of these steps brings it closer to the end.\<close>

lemma loop_advances:
  assumes pr: "rt_protocol rt" and cap: "rt_bounded cfg rt" and wt: "waiting_for (rt_ctl rt) = Some wt"
  obtains (step) l o_rt where "l = LRecv \<or> l = LProgress" "rt_exec pf fm cfg sink l rt = Some o_rt"
    "\<And>rt'. o_rt = Some rt' \<Longrightarrow> (rt', rt) \<in> loop_order"
proof -
  obtain w where w: "rt_worker rt = Some w"
    using pr wt by (auto simp: rt_protocol_def split: option.splits)
  then have prw: "protocol (rt_ctl rt) w" using pr by (simp add: rt_protocol_def)
  have recv: thesis if run: "wk_running w" "wk_queue w = m # q" for m q
  proof (rule step)
    let ?w = "worker_handle fm cfg sink m (w\<lparr>wk_queue := q\<rparr>)"
    show "rt_exec pf fm cfg sink LRecv rt = Some (Some (rt\<lparr>rt_worker := Some ?w\<rparr>))"
      using run w by (simp add: map_worker_def worker_recv_def)
    have "wk_queue ?w = q" by (simp add: worker_handle_wiring(1) [OF refl])
    with run w show "(rt', rt) \<in> loop_order" if "Some (rt\<lparr>rt_worker := Some ?w\<rparr>) = Some rt'" for rt'
      using that by (auto simp: loop_order_def queued_def)
  qed simp
  have progress: thesis if "rt_exec pf fm cfg sink LProgress rt = Some o_rt"
    "\<And>rt'. o_rt = Some rt' \<Longrightarrow> ctl_rank (rt_ctl rt') < ctl_rank (rt_ctl rt)" for o_rt
    by (rule step [of LProgress]) (use that in \<open>auto simp: loop_order_def\<close>)
  from wt consider m where "rt_ctl rt = Sending m wt" | "rt_ctl rt = Awaiting wt"
    by (cases "rt_ctl rt") auto
  then show thesis
  proof cases
    case 1
    show thesis
    proof (cases "wk_running w")
      case False
      with 1 w show thesis
        by (intro progress [of "send_failed pf fm cfg wt rt"]) (auto simp: loop_progress_def dest: send_failed_rank)
    next
      case True
      show thesis
      proof (cases "length (wk_queue w) < cfg_persist_queue_bound cfg")
        case True
        with 1 w \<open>wk_running w\<close> show thesis
          by (intro progress) (auto simp: loop_progress_def)
      next
        case False
        then obtain m q where "wk_queue w = m # q"
          using cap w by (cases "wk_queue w") (auto simp: rt_bounded_def)
        with \<open>wk_running w\<close> show thesis by (rule recv)
      qed
    qed
  next
    case 2
    show thesis
    proof (cases "wk_reply w")
      case (Some rep)
      let ?rt = "rt\<lparr>rt_worker := Some (w\<lparr>wk_reply := None\<rparr>)\<rparr>"
      from 2 w Some show thesis
        by (intro progress [of "resume pf fm cfg wt (Some rep) ?rt"]) (auto simp: loop_progress_def dest: resume_rank)
    next
      case None
      then obtain q m where "wk_running w" "wk_queue w = q @ [m]"
        using prw 2 by (auto simp: protocol_def split: if_splits)
      moreover from this obtain m1 q1 where "wk_queue w = m1 # q1"
        by (metis neq_Nil_conv snoc_eq_iff_butlast)
      ultimately show thesis by (intro recv)
    qed
  qed
qed


subsection \<open>What every step keeps\<close>

lemma rt_bounded_frame: "rt_worker rt' = rt_worker rt \<Longrightarrow> rt_bounded cfg rt \<Longrightarrow> rt_bounded cfg rt'"
  by (simp add: rt_bounded_def)

lemma rt_bounded_worker:
  "rt_bounded cfg rt \<Longrightarrow> rt_worker rt = Some w \<Longrightarrow> (worker_bounded cfg w \<Longrightarrow> worker_bounded cfg w') \<Longrightarrow>
    rt_worker rt' = Some w' \<Longrightarrow> rt_bounded cfg rt'"
  by (simp add: rt_bounded_def)

lemma persist_after_bounded:
  assumes run: "persist_after_mutation pf fm cfg ann cp so rt = Some rt'" and bd: "rt_bounded cfg rt"
  shows "rt_bounded cfg rt'"
proof (cases "rt_worker rt")
  case None
  with run show ?thesis
    by (intro rt_bounded_frame [OF _ bd]) (auto simp: persist_after_mutation_def accepted_cases)
next
  case (Some w)
  show ?thesis
  proof (cases "enqueue_persist cfg so w")
    case (Inl e)
    with run Some show ?thesis
      by (intro rt_bounded_frame [OF _ bd]) (auto simp: persist_after_mutation_def dest!: rejected_sel)
  next
    case (Inr w1)
    then have w1: "w1 = pushed so w" "length (wk_queue w) < cfg_persist_queue_bound cfg"
      by (auto simp: enqueue_persist_ok pushed_def)
    then have "rt_worker rt' = Some (pushed so w)"
      using run Some Inr by (auto simp: persist_after_mutation_def Let_def accepted_cases split: if_splits)
    with bd Some w1(2) show ?thesis by (auto intro: rt_bounded_worker pushed_bounded)
  qed
qed

lemma handle_mutation_bounded:
  assumes run: "handle_mutation pf fm cfg clk cmd rt = Some rt'" and bd: "rt_bounded cfg rt"
  shows "rt_bounded cfg rt'"
proof (cases "ensure_mutation_allowed (cfg_ack_mode cfg) (rt_health rt)")
  case (Inl e)
  with run show ?thesis
    by (intro rt_bounded_frame [OF _ bd]) (auto simp: handle_mutation_def)
next
  case (Inr u)
  show ?thesis
  proof (cases "run_mutation pf clk cmd (rt_store rt)")
    case (Ok x st)
    have "rt_bounded cfg (rt\<lparr>rt_store := clear_pending_ops st\<rparr>)" by (rule rt_bounded_frame [OF _ bd]) simp
    with run Inr Ok show ?thesis
      by (cases x) (auto simp: handle_mutation_def Let_def elim: persist_after_bounded)
  qed (use run Inr in \<open>auto simp: handle_mutation_def Let_def intro: rt_bounded_frame [OF _ bd]\<close>)
qed

lemma handle_command_bounded:
  assumes run: "handle_command pf fm cfg clk cmd rt = Some rt'" and bd: "rt_bounded cfg rt"
  shows "rt_bounded cfg rt'"
proof (cases "handle_mutation pf fm cfg clk cmd rt = Some rt'")
  case True
  then show ?thesis using bd by (rule handle_mutation_bounded)
next
  case False
  with run have "rt_worker rt' = rt_worker rt"
    by (cases cmd) (auto simp: handle_command_def split: option.splits)
  then show ?thesis using bd by (rule rt_bounded_frame)
qed

lemma progress_bounded:
  assumes run: "loop_progress pf fm cfg rt = Some (Some rt')" and bd: "rt_bounded cfg rt"
  shows "rt_bounded cfg rt'"
proof -
  obtain w where w: "rt_worker rt = Some w"
    using run by (auto simp: loop_progress_def split: option.splits)
  have "\<exists>w'. rt_worker rt' = Some w' \<and> (worker_bounded cfg w \<longrightarrow> worker_bounded cfg w')"
  proof (cases "rt_ctl rt")
    case (Sending m wt)
    show ?thesis
    proof (cases "wk_running w")
      case True
      with Sending run w show ?thesis
        by (auto simp: loop_progress_def worker_bounded_def split: if_splits)
    next
      case False
      with Sending run w show ?thesis
        by (cases wt) (auto simp: loop_progress_def simp del: resume.simps dest: resume_worker)
    qed
  next
    case (Awaiting wt)
    with run w show ?thesis
      by (auto simp: loop_progress_def dest!: resume_worker split: option.splits if_splits)
  qed (use run w in \<open>simp_all add: loop_progress_def\<close>)
  with bd w show ?thesis by (auto intro: rt_bounded_worker)
qed

lemma rt_exec_bounded:
  assumes run: "rt_exec pf fm cfg sink l rt = Some (Some rt')" and bd: "rt_bounded cfg rt"
  shows "rt_bounded cfg rt'"
proof -
  from run have "rt_step pf fm cfg sink rt rt'" by (auto simp: rt_step_exec)
  then show ?thesis
  proof (cases rule: rt_step.cases)
    case (command clk cmd)
    from handle_command_bounded [OF command(2) bd] show ?thesis .
  next
    case progress
    from progress_bounded [OF this bd] show ?thesis .
  next
    case durable
    with bd show ?thesis
      by (elim loop_durable_cases) (auto simp: rt_bounded_def handle_durable_sel)
  next
    case (recv w w')
    with bd show ?thesis by (auto simp: rt_bounded_def intro: recv_bounded)
  next
    case (tick w w')
    with bd show ?thesis
      by (auto simp: rt_bounded_def worker_tick_def flushed_bounded split: if_splits)
  next
    case drop
    with bd show ?thesis by (auto intro: rt_bounded_frame)
  next
    case (closed w w')
    with bd show ?thesis
      by (auto simp: rt_bounded_def worker_closed_def flushed_bounded split: if_splits)
  qed
qed

lemma spawn_bounded: "spawn_qsolog store o_sink cfg = Some rt \<Longrightarrow> rt_bounded cfg rt"
  by (auto simp: spawn_qsolog_def rt_bounded_def worker_bounded_def new_worker_def split: if_splits)


subsection \<open>The system as it runs\<close>

text \<open>Once the loop has ended nothing more is asked of the worker, so its protocol with the loop
  no longer matters.\<close>

definition sy_ok :: "runtime_config \<Rightarrow> 's system \<Rightarrow> bool" where
  "sy_ok cfg sy \<longleftrightarrow> sy_inv sy \<and> rt_bounded cfg (sy_rt sy) \<and>
    (rt_ctl (sy_rt sy) = Stopped \<or> rt_protocol (sy_rt sy))"

lemma close_channel_rt [simp]: "sy_rt (close_channel sy) = sy_rt sy"
  by (simp add: close_channel_def)

lemma deliver_rt [simp]: "sy_rt (deliver rt' sy) = rt'"
  by (simp add: deliver_def split: option.split)

lemma settle_rt:
  "sy_rt (settle o_rt sy) = (case o_rt of None \<Rightarrow> (sy_rt sy)\<lparr>rt_ctl := Stopped\<rparr> | Some rt' \<Rightarrow> rt')"
  by (simp add: settle_def split: option.split)

lemma stopped_stays:
  "rt_exec pf fm cfg sink l rt = Some (Some rt') \<Longrightarrow> rt_ctl rt = Stopped \<Longrightarrow> rt_ctl rt' = Stopped"
  by (cases l) (auto simp: map_worker_def loop_progress_def loop_durable_def split: option.splits)

lemma sy_exec_rt:
  assumes "sy_exec pf fm cfg sink ev sy = Some sy'"
  obtains "sy_rt sy' = sy_rt sy"
    | "sy_rt sy' = (sy_rt sy)\<lparr>rt_ctl := Stopped\<rparr>"
    | l where "rt_exec pf fm cfg sink l (sy_rt sy) = Some (Some (sy_rt sy'))"
proof (cases ev)
  case ETake
  with assms obtain n clk cmd rest o_rt where "rt_exec pf fm cfg sink (LCommand clk cmd) (sy_rt sy) = Some o_rt"
      "sy' = settle o_rt (sy\<lparr>sy_queue := rest, sy_serving := Some (n, cmd)\<rparr>)"
    by (auto split: list.splits option.splits simp del: rt_exec.simps)
  with that(2,3) show thesis by (cases o_rt) (auto simp: settle_rt simp del: rt_exec.simps)
next
  case (EStep l)
  with assms obtain o_rt where "rt_exec pf fm cfg sink l (sy_rt sy) = Some o_rt" "sy' = settle o_rt sy"
    by (auto split: option.splits if_splits simp del: rt_exec.simps)
  with that(2,3) show thesis by (cases o_rt) (auto simp: settle_rt simp del: rt_exec.simps)
next
  case EClosed
  with assms obtain o_rt where "rt_exec pf fm cfg sink LDrop (sy_rt sy) = Some o_rt" "sy' = settle o_rt sy"
    by (auto split: option.splits if_splits simp del: rt_exec.simps)
  with that(2,3) show thesis by (cases o_rt) (auto simp: settle_rt simp del: rt_exec.simps)
qed (use assms that(1) in \<open>auto split: if_splits call.splits\<close>)

lemma sy_exec_ok:
  assumes ok: "sy_ok cfg sy" and run: "sy_exec pf fm cfg sink ev sy = Some sy'"
  shows "sy_ok cfg sy'"
proof -
  have inv: "sy_inv sy'" using ok run by (auto simp: sy_ok_def intro: sy_exec_inv)
  from run show ?thesis
  proof (cases rule: sy_exec_rt)
    case 1
    with ok inv show ?thesis by (simp add: sy_ok_def)
  next
    case 2
    with ok inv show ?thesis by (auto simp: sy_ok_def intro: rt_bounded_frame)
  next
    case (3 l)
    moreover from this have "rt_step pf fm cfg sink (sy_rt sy) (sy_rt sy')" by (auto simp: rt_step_exec)
    ultimately show ?thesis
      using ok inv by (auto simp: sy_ok_def intro: rt_exec_bounded stopped_stays protocol_step)
  qed
qed

lemma sy_run_ok:
  "sy_run pf fm cfg sink evs sy = Some sy' \<Longrightarrow> sy_ok cfg sy \<Longrightarrow> sy_ok cfg sy'"
  by (induction evs arbitrary: sy) (auto split: option.splits intro: sy_exec_ok)

lemma sy_spawn_ok: "spawn_system store o_sink cfg = Some sy0 \<Longrightarrow> sy_ok cfg sy0"
  by (auto simp: sy_ok_def spawn_inv, auto simp: spawn_system_def spawn_bounded protocol_spawn)

lemma sy_reach_ok:
  assumes "sy_reach pf fm cfg sink sy0 sy" "spawn_system store o_sink cfg = Some sy0"
  shows "sy_ok cfg sy"
  using assms by (induction rule: sy_reach.induct) (auto intro: sy_spawn_ok sy_exec_ok)

lemma sy_run_append:
  "sy_run pf fm cfg sink (evs1 @ evs2) sy =
    (case sy_run pf fm cfg sink evs1 sy of None \<Rightarrow> None | Some sy1 \<Rightarrow> sy_run pf fm cfg sink evs2 sy1)"
  by (induction evs1 arbitrary: sy) (simp_all split: option.split)


subsection \<open>A call that was sent stays sent\<close>

fun sent :: "call \<Rightarrow> bool" where
  "sent (CallSending _ _) = False"
| "sent _ = True"

fun returned :: "call \<Rightarrow> bool" where
  "returned (CallReturned _ _) = True"
| "returned _ = False"

fun gone :: "call \<Rightarrow> bool" where
  "gone (CallAbandoned _) = True"
| "gone _ = False"

lemma sent_cases: "sent c \<longleftrightarrow> returned c \<or> gone c \<or> (\<exists>cmd. c = CallWaiting cmd)"
  by (cases c) simp_all

definition calls_go_on :: "call list \<Rightarrow> call list \<Rightarrow> bool" where
  "calls_go_on cs cs' \<longleftrightarrow> length cs \<le> length cs' \<and> (\<forall>k < length cs. sent (cs ! k) \<longrightarrow> sent (cs' ! k))"

lemma calls_go_on_refl: "calls_go_on cs cs"
  by (simp add: calls_go_on_def)

lemma calls_go_on_trans: "calls_go_on cs cs' \<Longrightarrow> calls_go_on cs' cs'' \<Longrightarrow> calls_go_on cs cs''"
  by (auto simp: calls_go_on_def)

lemma calls_go_on_update: "sent c \<or> \<not> sent (cs ! n) \<Longrightarrow> calls_go_on cs (cs[n := c])"
proof -
  assume "sent c \<or> \<not> sent (cs ! n)"
  then have "sent (cs[n := c] ! k)" if "k < length cs" "sent (cs ! k)" for k
    using that by (cases "k = n") auto
  then show ?thesis by (simp add: calls_go_on_def)
qed

lemma drop_senders_go_on: "calls_go_on cs (drop_senders ns cs)"
proof (induction ns arbitrary: cs)
  case (Cons n ns)
  have "sent (answer_call None (cs ! n)) \<or> \<not> sent (cs ! n)" by (cases "cs ! n") auto
  then have "calls_go_on cs (cs[n := answer_call None (cs ! n)])" by (rule calls_go_on_update)
  with Cons.IH show ?case by (auto simp: drop_senders_def intro: calls_go_on_trans)
qed (simp add: drop_senders_def calls_go_on_refl)

lemma settle_go_on: "calls_go_on (sy_calls sy) (sy_calls (settle o_rt sy))"
proof -
  have close: "calls_go_on (sy_calls s) (sy_calls (close_channel s))" for s :: "'a system"
    by (simp add: close_channel_def drop_senders_go_on calls_go_on_refl)
  have "sent (answer_call rx c) \<or> \<not> sent c" for rx c by (cases c) auto
  then have "calls_go_on (sy_calls sy) (sy_calls (deliver rt' sy))" for rt'
    by (auto simp: deliver_def calls_go_on_refl intro!: calls_go_on_update split: option.split)
  with close [of "sy\<lparr>sy_rt := (sy_rt sy)\<lparr>rt_ctl := Stopped\<rparr>\<rparr>"] close show ?thesis
    by (auto simp: settle_def split: option.split intro: calls_go_on_trans)
qed

lemma sy_exec_go_on:
  assumes "sy_exec pf fm cfg sink ev sy = Some sy'"
  shows "calls_go_on (sy_calls sy) (sy_calls sy')"
proof (cases ev)
  case (ECall clk cmd)
  with assms show ?thesis by (auto simp: calls_go_on_def nth_append split: if_splits)
next
  case (ESend n)
  with assms show ?thesis
    by (auto split: if_splits call.splits intro!: calls_go_on_update)
next
  case (EAbandon n)
  with assms show ?thesis
    by (auto split: if_splits call.splits intro!: calls_go_on_update)
next
  case ETake
  with assms show ?thesis
    using settle_go_on [of "sy\<lparr>sy_queue := _, sy_serving := _\<rparr>"]
    by (auto split: list.splits option.splits simp del: rt_exec.simps)
qed (use assms in \<open>auto split: if_splits option.splits intro: settle_go_on calls_go_on_refl simp del: rt_exec.simps\<close>)

lemma sy_run_go_on:
  "sy_run pf fm cfg sink evs sy = Some sy' \<Longrightarrow> calls_go_on (sy_calls sy) (sy_calls sy')"
  by (induction evs arbitrary: sy)
    (auto split: option.splits intro: calls_go_on_refl calls_go_on_trans sy_exec_go_on)


text \<open>Only its own client abandons a call.\<close>

definition none_abandoned :: "call list \<Rightarrow> call list \<Rightarrow> bool" where
  "none_abandoned cs cs' \<longleftrightarrow> length cs \<le> length cs' \<and> (\<forall>k < length cs. gone (cs' ! k) \<longrightarrow> gone (cs ! k))"

definition patient :: "event list \<Rightarrow> bool" where
  "patient evs \<longleftrightarrow> (\<forall>n. EAbandon n \<notin> set evs)"

lemma patient_simps [simp]:
  "patient []" "patient (ev # evs) \<longleftrightarrow> (\<forall>n. ev \<noteq> EAbandon n) \<and> patient evs"
  "patient (evs1 @ evs2) \<longleftrightarrow> patient evs1 \<and> patient evs2"
  by (auto simp: patient_def)

lemma none_abandoned_refl: "none_abandoned cs cs"
  by (simp add: none_abandoned_def)

lemma none_abandoned_trans: "none_abandoned cs cs' \<Longrightarrow> none_abandoned cs' cs'' \<Longrightarrow> none_abandoned cs cs''"
  by (auto simp: none_abandoned_def)

lemma none_abandoned_update: "(n < length cs \<Longrightarrow> gone c \<longrightarrow> gone (cs ! n)) \<Longrightarrow> none_abandoned cs (cs[n := c])"
proof -
  assume c: "n < length cs \<Longrightarrow> gone c \<longrightarrow> gone (cs ! n)"
  have "gone (cs[n := c] ! k) \<longrightarrow> gone (cs ! k)" if "k < length cs" for k
    using c that by (cases "k = n") simp_all
  then show "none_abandoned cs (cs[n := c])" by (simp add: none_abandoned_def)
qed

lemma gone_answer [simp]: "gone (answer_call rx c) = gone c"
  by (cases c) simp_all

lemma drop_senders_none_abandoned: "none_abandoned cs (drop_senders ns cs)"
proof (induction ns arbitrary: cs)
  case (Cons n ns)
  have "none_abandoned cs (cs[n := answer_call None (cs ! n)])" by (rule none_abandoned_update) simp
  with Cons.IH show ?case by (auto simp: drop_senders_def intro: none_abandoned_trans)
qed (simp add: drop_senders_def none_abandoned_refl)

lemma settle_none_abandoned: "none_abandoned (sy_calls sy) (sy_calls (settle o_rt sy))"
proof -
  have close: "none_abandoned (sy_calls s) (sy_calls (close_channel s))" for s :: "'a system"
    by (simp add: close_channel_def drop_senders_none_abandoned none_abandoned_refl)
  have "none_abandoned (sy_calls sy) (sy_calls (deliver rt' sy))" for rt'
    by (auto simp: deliver_def none_abandoned_refl intro!: none_abandoned_update split: option.split)
  with close [of "sy\<lparr>sy_rt := (sy_rt sy)\<lparr>rt_ctl := Stopped\<rparr>\<rparr>"] close show ?thesis
    by (auto simp: settle_def split: option.split intro: none_abandoned_trans)
qed

lemma sy_exec_none_abandoned:
  assumes "sy_exec pf fm cfg sink ev sy = Some sy'" "\<forall>n. ev \<noteq> EAbandon n"
  shows "none_abandoned (sy_calls sy) (sy_calls sy')"
proof (cases ev)
  case (ECall clk cmd)
  with assms show ?thesis by (auto simp: none_abandoned_def nth_append split: if_splits)
next
  case (ESend n)
  with assms show ?thesis
    by (auto split: if_splits call.splits intro!: none_abandoned_update)
next
  case ETake
  with assms show ?thesis
    using settle_none_abandoned [of "sy\<lparr>sy_queue := _, sy_serving := _\<rparr>"]
    by (auto split: list.splits option.splits simp del: rt_exec.simps)
qed (use assms in \<open>auto split: if_splits option.splits intro: settle_none_abandoned none_abandoned_refl simp del: rt_exec.simps\<close>)

lemma sy_run_none_abandoned:
  "sy_run pf fm cfg sink evs sy = Some sy' \<Longrightarrow> patient evs \<Longrightarrow> none_abandoned (sy_calls sy) (sy_calls sy')"
  by (induction evs arbitrary: sy)
    (auto split: option.splits intro: none_abandoned_refl none_abandoned_trans sy_exec_none_abandoned)


subsection \<open>Every call can return\<close>

lemma settle_stopped_held:
  "rt_ctl (sy_rt (settle o_rt sy)) = Stopped \<Longrightarrow> held (settle o_rt sy) = []"
  by (auto simp: settle_def close_channel_def held_def split: option.splits)

lemma settle_queue: "length (sy_queue (settle o_rt sy)) \<le> length (sy_queue sy)"
  by (simp add: settle_def close_channel_def deliver_def split: option.split)

text \<open>The loop gets to the end of the command it works on.\<close>

lemma serving_ends:
  assumes "sy_ok cfg sy"
  shows "\<exists>evs sy'. sy_run pf fm cfg sink evs sy = Some sy' \<and> patient evs \<and> sy_serving sy' = None \<and>
    length (sy_queue sy') \<le> length (sy_queue sy)"
  using wf_loop_order assms
proof (induction "sy_rt sy" arbitrary: sy rule: wf_induct_rule)
  case less
  show ?case
  proof (cases "sy_serving sy")
    case None
    then show ?thesis by (intro exI [of _ "[]"]) simp
  next
    case (Some s)
    then obtain wt where wt: "waiting_for (rt_ctl (sy_rt sy)) = Some wt"
      using less.prems by (cases s) (auto simp: sy_ok_def sy_inv_def serves_def)
    then have "rt_protocol (sy_rt sy)" "rt_bounded cfg (sy_rt sy)"
      using less.prems by (auto simp: sy_ok_def)
    then obtain l o_rt where l: "l = LRecv \<or> l = LProgress"
        and ex: "rt_exec pf fm cfg sink l (sy_rt sy) = Some o_rt"
        and dec: "\<And>rt'. o_rt = Some rt' \<Longrightarrow> (rt', sy_rt sy) \<in> loop_order"
      using loop_advances [OF _ _ wt] by metis
    define sy1 where "sy1 = settle o_rt sy"
    have run1: "sy_exec pf fm cfg sink (EStep l) sy = Some sy1"
      using l ex by (auto simp: sy1_def simp del: rt_exec.simps)
    have ok1: "sy_ok cfg sy1" by (rule sy_exec_ok [OF less.prems run1])
    have len1: "length (sy_queue sy1) \<le> length (sy_queue sy)" by (simp add: sy1_def settle_queue)
    show ?thesis
    proof (cases o_rt)
      case None
      then have "rt_ctl (sy_rt sy1) = Stopped" by (simp add: sy1_def settle_rt)
      then have "sy_serving sy1 = None"
        using settle_stopped_held [of o_rt sy] by (auto simp: sy1_def held_def split: option.splits)
      with run1 len1 show ?thesis by (intro exI [of _ "[EStep l]"] exI [of _ sy1]) simp
    next
      case (Some rt')
      then have "(sy_rt sy1, sy_rt sy) \<in> loop_order" using dec by (simp add: sy1_def settle_rt)
      from less.hyps [OF this ok1] obtain evs sy' where "sy_run pf fm cfg sink evs sy1 = Some sy'" "patient evs"
          "sy_serving sy' = None" "length (sy_queue sy') \<le> length (sy_queue sy1)" by blast
      with run1 len1 show ?thesis
        by (intro exI [of _ "EStep l # evs"] exI [of _ sy']) simp
    qed
  qed
qed

text \<open>And then to the end of the queue of commands: no sender is left anywhere.\<close>

lemma channel_drains:
  assumes "sy_ok cfg sy"
  shows "\<exists>evs sy'. sy_run pf fm cfg sink evs sy = Some sy' \<and> patient evs \<and> held sy' = []"
  using assms
proof (induction "length (sy_queue sy)" arbitrary: sy rule: less_induct)
  case less
  obtain evs1 sy1 where run1: "sy_run pf fm cfg sink evs1 sy = Some sy1" "patient evs1" and srv1: "sy_serving sy1 = None"
      and len1: "length (sy_queue sy1) \<le> length (sy_queue sy)"
    using serving_ends [OF less.prems] by blast
  have ok1: "sy_ok cfg sy1" by (rule sy_run_ok [OF run1(1) less.prems])
  show ?case
  proof (cases "sy_queue sy1")
    case Nil
    with srv1 have "held sy1 = []" by (simp add: held_def)
    with run1 show ?thesis by blast
  next
    case (Cons s rest)
    obtain n clk cmd where s: "s = (n, clk, cmd)" by (cases s)
    have "rt_ctl (sy_rt sy1) = Idle"
      using ok1 srv1 Cons by (auto simp: sy_ok_def sy_inv_def)
    then have run2: "sy_exec pf fm cfg sink ETake sy1 =
        Some (settle (handle_command pf fm cfg clk cmd (sy_rt sy1)) (sy1\<lparr>sy_queue := rest, sy_serving := Some (n, cmd)\<rparr>))"
      (is "_ = Some ?sy2")
      using Cons s by simp
    have "length (sy_queue ?sy2) < length (sy_queue sy)"
      using settle_queue [of "handle_command pf fm cfg clk cmd (sy_rt sy1)" "sy1\<lparr>sy_queue := rest, sy_serving := Some (n, cmd)\<rparr>"]
        len1 Cons by simp
    from less.hyps [OF this sy_exec_ok [OF ok1 run2]] obtain evs2 sy' where
      "sy_run pf fm cfg sink evs2 ?sy2 = Some sy'" "patient evs2" "held sy' = []" by blast
    with run1 run2 show ?thesis
      by (intro exI [of _ "evs1 @ ETake # evs2"] exI [of _ sy']) (simp add: sy_run_append del: sy_exec.simps)
  qed
qed

lemma sent_can_return:
  assumes ok: "sy_ok cfg sy" and k: "k < length (sy_calls sy)" "sent (sy_calls sy ! k)" "\<not> gone (sy_calls sy ! k)"
  shows "\<exists>evs sy'. sy_run pf fm cfg sink evs sy = Some sy' \<and> patient evs \<and> returned (sy_calls sy' ! k)"
proof -
  obtain evs sy' where run: "sy_run pf fm cfg sink evs sy = Some sy'" "patient evs" and none: "held sy' = []"
    using channel_drains [OF ok] by blast
  have "k < length (sy_calls sy')" "sent (sy_calls sy' ! k)" "\<not> gone (sy_calls sy' ! k)"
    using sy_run_go_on [OF run(1)] sy_run_none_abandoned [OF run] k by (auto simp: calls_go_on_def none_abandoned_def)
  moreover have "waits (sy_calls sy') = {}"
    using sy_run_ok [OF run(1) ok] none by (simp add: sy_ok_def sy_inv_def calls_ok_def)
  ultimately have "returned (sy_calls sy' ! k)" by (auto simp: calls_at_def sent_cases)
  with run show ?thesis by blast
qed

lemma call_can_return:
  assumes ok: "sy_ok cfg sy" and k: "k < length (sy_calls sy)" "\<not> gone (sy_calls sy ! k)"
  shows "\<exists>evs sy'. sy_run pf fm cfg sink evs sy = Some sy' \<and> patient evs \<and> returned (sy_calls sy' ! k)"
proof -
  obtain evs1 sy1 where run1: "sy_run pf fm cfg sink evs1 sy = Some sy1" "patient evs1" and none: "held sy1 = []"
    using channel_drains [OF ok] by blast
  have ok1: "sy_ok cfg sy1" by (rule sy_run_ok [OF run1(1) ok])
  have k1: "k < length (sy_calls sy1)" "\<not> gone (sy_calls sy1 ! k)"
    using sy_run_go_on [OF run1(1)] sy_run_none_abandoned [OF run1] k by (auto simp: calls_go_on_def none_abandoned_def)
  have "\<exists>evs sy'. sy_run pf fm cfg sink evs sy1 = Some sy' \<and> patient evs \<and> returned (sy_calls sy' ! k)"
  proof (cases "sy_calls sy1 ! k")
    case (CallSending clk cmd)
    have "sy_queue sy1 = []" using none by (simp add: held_def)
    then obtain sy2 where run2: "sy_exec pf fm cfg sink (ESend k) sy1 = Some sy2" and "k < length (sy_calls sy2)"
        "sent (sy_calls sy2 ! k)" "\<not> gone (sy_calls sy2 ! k)"
      using CallSending k1
      by (cases "rt_ctl (sy_rt sy1) = Stopped") (auto simp: CMD_CHANNEL_CAPACITY_def)
    with sent_can_return [OF sy_exec_ok [OF ok1 run2]] obtain evs sy' where
      "sy_run pf fm cfg sink evs sy2 = Some sy'" "patient evs" "returned (sy_calls sy' ! k)" by blast
    with run2 show ?thesis
      by (intro exI [of _ "ESend k # evs"] exI [of _ sy']) (simp del: sy_exec.simps)
  qed (use sent_can_return [OF ok1 k1(1) _ k1(2)] k1 in simp_all)
  then obtain evs sy' where "sy_run pf fm cfg sink evs sy1 = Some sy'" "patient evs" "returned (sy_calls sy' ! k)" by blast
  with run1 show ?thesis
    by (intro exI [of _ "evs1 @ evs"] exI [of _ sy']) (simp add: sy_run_append)
qed

end
