(* ===== verification/Qso_Acks.thy ===== *)
theory Qso_Acks
  imports Qso_Client_Live
begin

section \<open>Acknowledged inserts\<close>

text \<open>
  What an acknowledged insert is worth to a client as long as the loop runs: its record stays,
  and no other insert gets its id, although rejected inserts are rolled back and their ids
  are given again. The invariant goes over the loop's answers: an id that was answered is never
  the one a pending mutation may still take back.
\<close>


subsection \<open>Ids that were answered\<close>

fun answered_id :: "response \<Rightarrow> qso_id option" where
  "answered_id (RespId (Inr i)) = Some i"
| "answered_id _ = None"

definition answered_ids :: "'s runtime \<Rightarrow> qso_id list" where
  "answered_ids rt = filter_map answered_id (rt_responses rt)"

lemma answered_ids_cong: "rt_responses rt' = rt_responses rt \<Longrightarrow> answered_ids rt' = answered_ids rt"
  by (simp add: answered_ids_def)

text \<open>The id that rolling an operation back would remove.\<close>

fun inserted_id :: "op \<Rightarrow> qso_id option" where
  "inserted_id (OpInsert r) = Some (qr_id r)"
| "inserted_id _ = None"

definition acks_base :: "'s runtime \<Rightarrow> bool" where
  "acks_base rt \<longleftrightarrow> distinct (answered_ids rt) \<and> set (answered_ids rt) \<subseteq> set (order (rt_store rt))"

text \<open>A response that may be sent next.\<close>

definition new_answer :: "response \<Rightarrow> 's runtime \<Rightarrow> bool" where
  "new_answer resp rt \<longleftrightarrow>
    (\<forall>i. answered_id resp = Some i \<longrightarrow> i \<in> set (order (rt_store rt)) \<and> i \<notin> set (answered_ids rt))"

definition keeps_answered :: "stored_op \<Rightarrow> 's runtime \<Rightarrow> bool" where
  "keeps_answered so rt \<longleftrightarrow> (\<forall>i. inserted_id (so_op so) = Some i \<longrightarrow> i \<notin> set (answered_ids rt))"

fun wait_acks :: "wait \<Rightarrow> 's runtime \<Rightarrow> bool" where
  "wait_acks (WaitMutation ann _ so) rt \<longleftrightarrow> new_answer (announce_response ann) rt \<and> keeps_answered so rt"
| "wait_acks (WaitAutoCheckpoint resp) rt \<longleftrightarrow> new_answer resp rt"
| "wait_acks _ rt \<longleftrightarrow> True"

definition acks_ok :: "'s runtime \<Rightarrow> bool" where
  "acks_ok rt \<longleftrightarrow> acks_base rt \<and> (\<forall>wt. waiting_for (rt_ctl rt) = Some wt \<longrightarrow> wait_acks wt rt)"

lemma acks_cong:
  assumes "rt_responses rt' = rt_responses rt" "set (order (rt_store rt')) = set (order (rt_store rt))"
  shows "acks_base rt' = acks_base rt" "new_answer resp rt' = new_answer resp rt"
    "keeps_answered so rt' = keeps_answered so rt" "wait_acks wt rt' = wait_acks wt rt"
  using assms by (cases wt; simp add: acks_base_def new_answer_def keeps_answered_def answered_ids_def)+

lemma acks_respond:
  "acks_base rt \<Longrightarrow> new_answer resp rt \<Longrightarrow> acks_base (respond resp rt)"
  by (auto simp: acks_base_def new_answer_def answered_ids_def split: option.split)

lemma acks_ok_respond:
  "acks_base rt \<Longrightarrow> new_answer resp rt \<Longrightarrow> acks_ok (respond resp rt)"
  by (simp add: acks_ok_def acks_respond)

lemma acks_ok_stop: "acks_base rt \<Longrightarrow> acks_ok (rt\<lparr>rt_ctl := Stopped\<rparr>)"
  by (simp add: acks_ok_def acks_cong [of "rt\<lparr>rt_ctl := Stopped\<rparr>" rt])

lemma no_id_answer: "answered_id resp = None \<Longrightarrow> new_answer resp rt"
  by (simp add: new_answer_def)

lemma error_no_id [simp]:
  "answered_id (announce_error ann e) = None" "answered_id (command_error cmd e) = None"
  by (cases ann; simp) (cases cmd; simp)


subsection \<open>The store\<close>

lemma wf_same_ids: "store_inv st \<Longrightarrow> store_inv st' \<Longrightarrow> log_of st' = log_of st \<Longrightarrow> set (order st') = set (order st)"
  using wf_log_ids [of st] wf_log_ids [of st'] by (simp add: store_inv_def)

lemma inserted_emit: "inserted_id (log_emit op L) = inserted_id op"
  by (cases op) simp_all

text \<open>A command adds its new id and no other, and leaves every id in place.\<close>

lemma effect_ids:
  assumes "store_inv st" "cmd_effect cmd op so st st1"
  shows "set (order st1) = set (order st) \<union> set_option (inserted_id (so_op so))"
    and "inserted_id (so_op so) = Some i \<Longrightarrow> i \<notin> set (order st)"
proof -
  have wf: "store_wf st" "store_wf st1" and ap: "log_apply op (log_of st) = Some (log_of st1)"
    and so: "so_op so = log_emit op (log_of st)"
    using assms by (simp_all add: cmd_effect_def store_inv_def)
  show "set (order st1) = set (order st) \<union> set_option (inserted_id (so_op so))"
    using log_apply_ids [OF ap] by (cases op) (auto simp: so wf_log_ids [OF wf(1)] wf_log_ids [OF wf(2)])
  show "i \<notin> set (order st)" if "inserted_id (so_op so) = Some i"
    using that ap by (cases op) (auto simp: so wf_log_ids [OF wf(1)] split: if_splits)
qed

lemma log_ids_remove: "log_ids (log_remove i L) = log_ids L - {i}"
  by (auto simp: log_remove_def log_ids_def)

lemma rollback_ids:
  assumes rb: "rollbackable cp so st" and run: "rollback_mutation pf cp so st = Ok u st'"
  shows "set (order st') = set (order st) - set_option (inserted_id (so_op so))"
proof -
  obtain st0 st1 cmd op where *: "store_inv st0" "cmd_effect cmd op so st0 st1" "st = clear_pending_ops st1"
    using rb by (auto simp: rollbackable_def)
  then have wf: "store_wf st" and ids: "log_of st = log_of st1" "set (order st) = set (order st1)"
    by (auto simp: cmd_effect_def store_inv_def clear_pending_ops_def)
  have ap: "log_apply op (log_of st0) = Some (log_of st1)" and so: "so_op so = log_emit op (log_of st0)"
    using *(2) by (simp_all add: cmd_effect_def)
  have "op_target (so_op so) \<in> set (order st)"
    using op_target_in [OF ap] wf_log_ids [OF wf] by (simp add: so ids(1))
  from rollback_mutation_ok [OF wf this, of pf cp] run obtain st2 where
    "order st' = order st2" "store_wf st2" "log_of st2 = log_rollback (so_op so) (log_of st)" by auto
  moreover have "log_ids (log_rollback (so_op so) (log_of st)) = log_ids (log_of st) - set_option (inserted_id (so_op so))"
    by (cases "so_op so") (simp_all add: log_ids_remove)
  ultimately show ?thesis
    using wf_log_ids [OF wf] wf_log_ids [of st2] by simp
qed

lemma run_mutation_announces:
  assumes inv: "store_inv st" and run: "run_mutation pf clk cmd st = Ok (AnnInsert i, so) st1"
    and eff: "cmd_effect (cmd_of cmd) op so st st1" "cmd_op (cmd_of cmd) st = Some op"
  shows "inserted_id (so_op so) = Some i"
proof -
  obtain d where d: "cmd = CInsert d"
    using run by (cases cmd) (auto simp: run_mutation_def and_then_Ok_iff)
  then have "i = next_qso_id st"
    using run by (auto simp: run_mutation_def and_then_Ok_iff store_insert_def Let_def split: option.splits)
  with d eff show ?thesis
    by (simp add: cmd_effect_def inserted_emit record_of_draft_def) (auto simp: record_of_draft_def)
qed


subsection \<open>The loop\<close>

lemma accepted_shape:
  obtains rt1 where "rt_responses rt1 = rt_responses rt" "rt_store rt1 = rt_store rt"
    "mutation_accepted cfg ann rt = respond (announce_response ann) rt1 \<or>
      (\<exists>m. mutation_accepted cfg ann rt = rt1\<lparr>rt_ctl := Sending m (WaitAutoCheckpoint (announce_response ann))\<rparr>)"
proof (cases ann)
  case (AnnInsert i)
  let ?rt = "emit (announce_event ann) rt"
  show thesis
    by (rule that [of "?rt\<lparr>rt_ops_since_snapshot := rt_ops_since_snapshot ?rt + 1\<rparr>"])
      (auto simp: AnnInsert mutation_accepted_def maybe_auto_checkpoint_def Let_def)
qed (rule that [of "emit (announce_event ann) rt"]; simp add: mutation_accepted_def Let_def)+

lemma accepted_responses:
  assumes "acks_base rt" "new_answer (announce_response ann) rt"
  shows "acks_ok (mutation_accepted cfg ann rt)"
proof -
  obtain rt1 where rt1: "rt_responses rt1 = rt_responses rt" "rt_store rt1 = rt_store rt"
    and shape: "mutation_accepted cfg ann rt = respond (announce_response ann) rt1 \<or>
      (\<exists>m. mutation_accepted cfg ann rt = rt1\<lparr>rt_ctl := Sending m (WaitAutoCheckpoint (announce_response ann))\<rparr>)"
    by (rule accepted_shape)
  have "acks_base (rt1\<lparr>rt_ctl := c\<rparr>) \<and> new_answer (announce_response ann) (rt1\<lparr>rt_ctl := c\<rparr>)" for c
    using assms rt1 acks_cong [of "rt1\<lparr>rt_ctl := c\<rparr>" rt] by simp
  moreover have "acks_base rt1" "new_answer (announce_response ann) rt1"
    using assms rt1 acks_cong [of rt1 rt] by simp_all
  ultimately show ?thesis
    using shape by (auto simp: acks_ok_respond) (simp add: acks_ok_def)
qed

lemma rejected_acks:
  assumes base: "acks_base rt" and keeps: "keeps_answered so rt" and rb: "rollbackable cp so (rt_store rt)"
    and run: "mutation_rejected pf ann cp so e rt = Some rt'"
  shows "acks_ok rt'"
proof -
  obtain resp st u where rt': "rt' = respond resp (rt\<lparr>rt_store := st\<rparr>)" "answered_id resp = None"
    and "rollback_mutation pf cp so (rt_store rt) = Ok u st \<or> (\<exists>e. rollback_mutation pf cp so (rt_store rt) = Err e st)"
    using run by (auto simp: mutation_rejected_def split: result.splits)
  moreover have "\<exists>u st. rollback_mutation pf cp so (rt_store rt) = Ok u st"
    using rb rollback_inv by (fastforce simp: rollbackable_def)
  ultimately have "rollback_mutation pf cp so (rt_store rt) = Ok u st" by auto
  from rollback_ids [OF rb this] base keeps have "acks_base (rt\<lparr>rt_store := st\<rparr>)"
    by (auto simp: acks_base_def keeps_answered_def answered_ids_cong [of "rt\<lparr>rt_store := st\<rparr>" rt])
  with rt' show ?thesis by (simp add: acks_ok_respond no_id_answer)
qed

lemma persist_after_acks:
  assumes base: "acks_base rt" and new: "new_answer (announce_response ann) rt" and keeps: "keeps_answered so rt"
    and rb: "rollbackable cp so (rt_store rt)"
    and run: "persist_after_mutation pf fm cfg ann cp so rt = Some rt'"
  shows "acks_ok rt'"
proof -
  have same: "acks_base rt1 \<and> new_answer (announce_response ann) rt1 \<and> keeps_answered so rt1"
    if "rt_responses rt1 = rt_responses rt" "rt_store rt1 = rt_store rt" for rt1
    using that base new keeps acks_cong [of rt1 rt] by simp
  show ?thesis
  proof (cases "rt_worker rt")
    case None
    with run base new show ?thesis by (auto simp: persist_after_mutation_def intro: accepted_responses)
  next
    case (Some w)
    show ?thesis
    proof (cases "enqueue_persist cfg so w")
      case (Inl e)
      let ?rt1 = "mark_persist_unhealthy (debug_runtime_error fm e) rt"
      have "mutation_rejected pf ann cp so e ?rt1 = Some rt'"
        using run Some Inl by (simp add: persist_after_mutation_def)
      with same [of ?rt1] rb show ?thesis by (auto intro: rejected_acks)
    next
      case (Inr w1)
      let ?rt1 = "rt\<lparr>rt_worker := Some w1\<rparr>"
      let ?rt2 = "if is_healthy (rt_health ?rt1) then ?rt1 else emit (EvNotDurableWarning (latest_op_seq (rt_store ?rt1))) ?rt1"
      have "cfg_ack_mode cfg = Durable \<Longrightarrow> rt' = ?rt1\<lparr>rt_ctl := Sending MsgFlush (WaitMutation ann cp so)\<rparr>"
        and "cfg_ack_mode cfg \<noteq> Durable \<Longrightarrow> rt' = mutation_accepted cfg ann ?rt2"
        using run Some Inr by (simp_all only: persist_after_mutation_def Let_def option.case sum.case option.inject if_True if_False simp_thms)
      moreover have "acks_ok (?rt1\<lparr>rt_ctl := Sending MsgFlush (WaitMutation ann cp so)\<rparr>)"
        using same [of "?rt1\<lparr>rt_ctl := Sending MsgFlush (WaitMutation ann cp so)\<rparr>"] by (simp add: acks_ok_def)
      moreover have "acks_ok (mutation_accepted cfg ann ?rt2)"
        using same [of ?rt2] by (auto intro: accepted_responses)
      ultimately show ?thesis by (cases "cfg_ack_mode cfg = Durable") simp_all
    qed
  qed
qed

lemma mutation_acks:
  assumes ok: "acks_ok rt" and st: "rt_store_ok (Suc k) rt" and run: "handle_mutation pf fm cfg clk cmd rt = Some rt'"
  shows "acks_ok rt'"
proof (cases "ensure_mutation_allowed (cfg_ack_mode cfg) (rt_health rt)")
  case (Inl e)
  then have "rt' = respond (command_error cmd e) rt" using run by (simp add: handle_mutation_def)
  moreover have "acks_base rt" using ok by (simp add: acks_ok_def)
  ultimately show ?thesis by (simp add: acks_ok_respond no_id_answer)
next
  case (Inr u)
  have base: "acks_base rt" using ok by (simp add: acks_ok_def)
  have inv: "store_inv (rt_store rt)" and hr: "has_room (rt_store rt)"
    using st room_for_Suc by (auto simp: rt_store_ok_def)
  from run_mutation_cases [OF inv hr, of pf clk cmd] show ?thesis
  proof cases
    case (1 ann so st1 op)
    let ?rt1 = "rt\<lparr>rt_store := clear_pending_ops st1\<rparr>"
    have ids: "set (order st1) = set (order (rt_store rt)) \<union> set_option (inserted_id (so_op so))"
      by (rule effect_ids(1) [OF inv 1(3)])
    have fresh: "i \<notin> set (order (rt_store rt))" if "inserted_id (so_op so) = Some i" for i
      by (rule effect_ids(2) [OF inv 1(3) that])
    have order: "order (clear_pending_ops st1) = order st1" by (simp add: clear_pending_ops_def)
    have same: "answered_ids ?rt1 = answered_ids rt" by (rule answered_ids_cong) simp
    have "acks_base ?rt1"
      using base by (auto simp: acks_base_def same order ids)
    moreover have "keeps_answered so ?rt1"
      using base fresh by (auto simp: keeps_answered_def acks_base_def same)
    moreover have "new_answer (announce_response ann) ?rt1"
    proof (cases ann)
      case (AnnInsert i)
      from run_mutation_announces [OF inv _ 1(3,2)] 1(1) AnnInsert have "inserted_id (so_op so) = Some i" by simp
      with AnnInsert base fresh show ?thesis
        by (auto simp: new_answer_def same order ids acks_base_def)
    qed (simp_all add: no_id_answer)
    moreover have "rollbackable (take_checkpoint (rt_store rt)) so (clear_pending_ops st1)"
      using mutation_rollbackable [OF inv hr 1(3)] .
    ultimately show ?thesis
      using persist_after_acks [of ?rt1] run Inr 1(1) by (simp add: handle_mutation_def Let_def)
  next
    case (2 e st1)
    let ?rt1 = "rt\<lparr>rt_store := st1\<rparr>"
    have "set (order st1) = set (order (rt_store rt))"
      using 2(2) wf_same_ids [OF inv, of st1] by (simp add: cmd_failure_def)
    with base have "acks_base ?rt1" using acks_cong(1) [of ?rt1 rt] by simp
    with 2 Inr run show ?thesis
      by (auto simp: handle_mutation_def Let_def intro!: acks_ok_respond no_id_answer)
  qed
qed

lemma command_acks:
  assumes ok: "acks_ok rt" and st: "rt_store_ok (Suc k) rt" and run: "handle_command pf fm cfg clk cmd rt = Some rt'"
  shows "acks_ok rt'"
proof (cases "handle_mutation pf fm cfg clk cmd rt = Some rt'")
  case True
  with ok st show ?thesis by (rule mutation_acks)
next
  case False
  have base: "acks_base rt" using ok by (simp add: acks_ok_def)
  have same: "acks_base (rt\<lparr>rt_ctl := c\<rparr>)" for c
    using base acks_cong(1) [of "rt\<lparr>rt_ctl := c\<rparr>" rt] by simp
  have wait: "acks_ok (rt\<lparr>rt_ctl := Sending m wt\<rparr>)" if "wt \<in> {WaitFlush, WaitCheckpoint, WaitShutdown}" for m wt
    using that same by (auto simp: acks_ok_def)
  have resp: "acks_ok (respond r rt)" "acks_ok ((respond r rt)\<lparr>rt_ctl := Stopped\<rparr>)" if "answered_id r = None" for r
    using acks_respond [OF base no_id_answer [OF that]] acks_ok_respond [OF base no_id_answer [OF that]]
    by (simp_all add: acks_ok_stop)
  show ?thesis
    using run False
    by (cases cmd) (auto simp: handle_command_def intro: wait resp split: option.splits)
qed

lemma resume_acks:
  assumes run: "resume pf fm cfg wt rep rt = Some rt'" and base: "acks_base rt" and wt: "wait_acks wt rt"
    and rb: "\<forall>ann cp so. wt = WaitMutation ann cp so \<longrightarrow> rollbackable cp so (rt_store rt)"
  shows "acks_ok rt'"
proof -
  have rej: "acks_ok rt'" if "wt = WaitMutation ann cp so"
    "mutation_rejected pf ann cp so e (mark_persist_unhealthy m rt) = Some rt'" for ann cp so e m
    using that base wt rb acks_cong [of "mark_persist_unhealthy m rt" rt]
    by (intro rejected_acks [OF _ _ _ that(2)]) simp_all
  have acc: "acks_ok (mutation_accepted cfg ann rt)" if "wt = WaitMutation ann cp so" for ann cp so
    using that wt base by (simp add: accepted_responses)
  have auto: "acks_ok (respond resp (rt\<lparr>rt_ops_since_snapshot := 0\<rparr>))" if "wt = WaitAutoCheckpoint resp" for resp
    using that wt base acks_cong [of "rt\<lparr>rt_ops_since_snapshot := 0\<rparr>" rt] by (simp add: acks_ok_respond)
  have resp: "acks_ok (respond r rt)" "acks_ok ((respond r rt)\<lparr>rt_ctl := Stopped\<rparr>)" if "answered_id r = None" for r
    using acks_respond [OF base no_id_answer [OF that]] acks_ok_respond [OF base no_id_answer [OF that]]
    by (simp_all add: acks_ok_stop)
  show ?thesis
    using run rej acc auto resp
    by (cases "(pf, fm, cfg, wt, rep, rt)" rule: resume.cases) auto
qed

lemma progress_acks:
  assumes run: "loop_progress pf fm cfg rt = Some (Some rt')" and ok: "acks_ok rt" and st: "rt_store_ok k rt"
  shows "acks_ok rt'"
proof -
  obtain w where w: "rt_worker rt = Some w"
    using run by (auto simp: loop_progress_def split: option.splits)
  obtain wt where wt: "waiting_for (rt_ctl rt) = Some wt"
    using run w by (cases "rt_ctl rt") (auto simp: loop_progress_def)
  then have base: "acks_base rt" and acks: "wait_acks wt rt"
    and rb: "\<forall>ann cp so. wt = WaitMutation ann cp so \<longrightarrow> rollbackable cp so (rt_store rt)"
    using ok st by (auto simp: acks_ok_def rt_store_ok_def)
  have same: "acks_base rt1" "wait_acks wt rt1"
    if "rt_responses rt1 = rt_responses rt" "rt_store rt1 = rt_store rt" for rt1
    using that base acks acks_cong [of rt1 rt] by simp_all
  have res: "acks_ok rt'" if "resume pf fm cfg wt rep rt1 = Some rt'"
    "rt_responses rt1 = rt_responses rt" "rt_store rt1 = rt_store rt" for rep rt1
    using resume_acks [OF that(1) same [OF that(2,3)]] rb that(3) by simp
  show ?thesis
  proof (cases "rt_ctl rt")
    case (Sending m wt')
    then have wt': "wt' = wt" using wt by simp
    show ?thesis
    proof (cases "wk_running w")
      case True
      then have "waiting_for (rt_ctl rt') = Some wt" "rt_responses rt' = rt_responses rt" "rt_store rt' = rt_store rt"
        using run w Sending wt' by (auto simp: loop_progress_def split: if_splits)
      with same [of rt'] show ?thesis by (simp add: acks_ok_def)
    next
      case False
      then have sf: "send_failed pf fm cfg wt rt = Some rt'"
        using run w Sending wt' by (simp add: loop_progress_def)
      show ?thesis
      proof (cases "\<exists>resp. wt = WaitAutoCheckpoint resp")
        case True
        with sf acks base show ?thesis by (auto intro: acks_ok_respond)
      next
        case False
        with sf have "resume pf fm cfg wt None rt = Some rt'" by (cases wt) simp_all
        then show ?thesis by (rule res) simp_all
      qed
    qed
  next
    case (Awaiting wt')
    then have wt': "wt' = wt" using wt by simp
    show ?thesis
      using run w Awaiting wt'
      by (auto simp: loop_progress_def simp del: resume.simps split: option.splits if_splits intro: res)
  qed (use wt in simp_all)
qed

text \<open>Every step of the runtime keeps the invariant.\<close>

lemma rt_exec_acks:
  assumes run: "rt_exec pf fm cfg sink l rt = Some (Some rt')" and ok: "acks_ok rt" and st: "rt_store_ok (Suc k) rt"
  shows "acks_ok rt'"
proof (cases "(\<exists>clk cmd. l = LCommand clk cmd) \<or> l = LProgress")
  case True
  with run ok st show ?thesis
    by (auto split: if_splits intro: command_acks progress_acks)
next
  case False
  show ?thesis
  proof (cases "l = LDrop")
    case True
    with run ok show ?thesis by (auto simp: acks_ok_def [of rt] split: if_splits intro: acks_ok_stop)
  next
    case False
    with \<open>\<not> (_ \<or> _)\<close> have "\<not> client_label l" "l \<noteq> LProgress" by (cases l; simp)+
    then have "rt_responses rt' = rt_responses rt \<and> rt_ctl rt' = rt_ctl rt"
      using quiet_step [OF run] by blast
    moreover have "rt_store rt' = rt_store rt"
      using run False \<open>\<not> (_ \<or> _)\<close>
      by (cases l) (auto simp: map_worker_def handle_durable_sel split: option.splits if_splits elim!: loop_durable_cases)
    ultimately show ?thesis using ok acks_cong [of rt' rt] by (simp add: acks_ok_def)
  qed
qed


subsection \<open>The clients\<close>

fun returned_id :: "call \<Rightarrow> qso_id option" where
  "returned_id (CallReturned _ (Some (GotId (Inr i)))) = Some i"
| "returned_id _ = None"

definition returned_ids :: "'s system \<Rightarrow> qso_id list" where
  "returned_ids sy = filter_map returned_id (sy_calls sy)"

text \<open>No id is returned more often than the loop answered it.\<close>

definition ids_answered :: "'s system \<Rightarrow> bool" where
  "ids_answered sy \<longleftrightarrow> mset (returned_ids sy) \<subseteq># mset (answered_ids (sy_rt sy))"

lemma filter_map_update:
  "mset (filter_map f (xs[n := x])) \<subseteq># mset (filter_map f xs) + mset (filter_map f [x])"
proof (induction xs arbitrary: n)
  case (Cons y ys)
  show ?case
  proof (cases n)
    case 0
    then show ?thesis by (auto split: option.split)
  next
    case (Suc m)
    with Cons.IH [of m] show ?thesis by (auto split: option.split)
  qed
qed simp

lemma distinct_of_subseteq:
  assumes "distinct xs" "mset ys \<subseteq># mset xs"
  shows "distinct ys"
  unfolding distinct_count_atmost_1
proof
  fix a
  have "count (mset ys) a \<le> count (mset xs) a" by (rule mset_subset_eq_count [OF assms(2)])
  also have "\<dots> \<le> 1" using assms(1) by (simp add: distinct_count_atmost_1)
  finally have "count (mset ys) a \<le> 1" .
  moreover have "0 < count (mset ys) a \<longleftrightarrow> a \<in> set ys" by (simp add: count_greater_zero_iff)
  ultimately show "count (mset ys) a = (if a \<in> set ys then 1 else 0)"
    by (simp only: le_less_Suc_eq One_nat_def split: if_split) linarith
qed

lemma filter_map_update_same: "f x = f (xs ! n) \<Longrightarrow> filter_map f (xs[n := x]) = filter_map f xs"
  by (induction xs arbitrary: n) (auto split: nat.split option.split)

lemma method_result_id: "returned_id (CallReturned cmd (method_result cmd (Some resp))) = Some i \<Longrightarrow> answered_id resp = Some i"
  by (cases cmd; cases resp) (auto elim: returned_id.elims)

lemma answer_call_id:
  "returned_id (answer_call (Some resp) c) \<noteq> returned_id c \<Longrightarrow> returned_id (answer_call (Some resp) c) = answered_id resp"
  using method_result_id by (cases c; cases "returned_id (answer_call (Some resp) c)") force+

lemma closed_no_id: "returned_id (CallReturned cmd (method_result cmd None)) = None"
  by (cases cmd) simp_all

lemma drop_sender_id: "returned_id (answer_call None c) = returned_id c"
  by (cases c) (simp_all add: closed_no_id)

lemma drop_senders_ids: "filter_map returned_id (drop_senders ns calls) = filter_map returned_id calls"
proof (induction ns arbitrary: calls)
  case (Cons n ns)
  from Cons.IH [of "calls[n := answer_call None (calls ! n)]"] show ?case
    by (simp add: drop_senders_def filter_map_update_same drop_sender_id)
qed (simp add: drop_senders_def)

lemma deliver_ids:
  assumes ids: "ids_answered sy"
    and resp: "rt_responses rt' = rt_responses (sy_rt sy) \<or> (\<exists>resp. rt_responses rt' = rt_responses (sy_rt sy) @ [resp])"
  shows "ids_answered (deliver rt' sy)"
proof (cases "\<exists>n cmd resp. sy_serving sy = Some (n, cmd) \<and> rt_responses rt' = rt_responses (sy_rt sy) @ [resp]")
  case True
  then obtain n cmd resp where srv: "sy_serving sy = Some (n, cmd)" and r: "rt_responses rt' = rt_responses (sy_rt sy) @ [resp]"
    by blast
  let ?c = "answer_call (Some resp) (sy_calls sy ! n)"
  show ?thesis
  proof (cases "returned_id ?c = returned_id (sy_calls sy ! n)")
    case True
    then have "returned_ids (deliver rt' sy) = returned_ids sy"
      by (simp add: deliver_def srv r returned_ids_def filter_map_update_same)
    moreover have "mset (answered_ids (sy_rt sy)) \<subseteq># mset (answered_ids rt')" by (simp add: answered_ids_def r)
    ultimately show ?thesis using ids by (auto simp: ids_answered_def intro: subset_mset.trans)
  next
    case False
    then have "mset (filter_map returned_id [?c]) \<subseteq># mset (filter_map answered_id [resp])"
      using answer_call_id [OF False] by (cases "answered_id resp") simp_all
    then have "mset (filter_map returned_id (sy_calls sy)) + mset (filter_map returned_id [?c])
      \<subseteq># mset (answered_ids (sy_rt sy)) + mset (filter_map answered_id [resp])"
      using ids unfolding ids_answered_def returned_ids_def by (rule subset_mset.add_mono [rotated])
    with subset_mset.trans [OF filter_map_update this]
    show ?thesis by (simp add: ids_answered_def returned_ids_def answered_ids_def deliver_def srv r)
  qed
next
  case False
  then have "returned_ids (deliver rt' sy) = returned_ids sy"
    using resp by (auto simp: deliver_def returned_ids_def split: option.split)
  moreover have "mset (answered_ids (sy_rt sy)) \<subseteq># mset (answered_ids rt')"
    using resp by (auto simp: answered_ids_def)
  ultimately show ?thesis
    using ids by (auto simp: ids_answered_def intro: subset_mset.trans)
qed

lemma close_ids: "ids_answered (close_channel sy) = ids_answered sy"
  by (simp add: ids_answered_def returned_ids_def close_channel_def drop_senders_ids)

text \<open>An event is a client's, which changes neither runtime nor ids, or a step of the runtime.\<close>

lemma sy_exec_shape:
  assumes "sy_exec pf fm cfg sink ev sy = Some sy'"
  obtains "sy_rt sy' = sy_rt sy" "returned_ids sy' = returned_ids sy"
    | l o_rt sy1 where "rt_exec pf fm cfg sink l (sy_rt sy) = Some o_rt" "sy' = settle o_rt sy1"
        "sy_rt sy1 = sy_rt sy" "returned_ids sy1 = returned_ids sy"
proof (cases ev)
  case (ECall clk cmd)
  with assms that(1) show thesis by (auto simp: returned_ids_def split: if_splits)
next
  case (EAbandon n)
  then obtain cmd where n: "sy_calls sy' = (sy_calls sy)[n := CallAbandoned cmd]" "sy_rt sy' = sy_rt sy"
      "returned_id (sy_calls sy ! n) = None"
    using assms by (auto split: if_splits call.splits)
  with that(1) show thesis by (simp add: returned_ids_def filter_map_update_same)
next
  case (ESend n)
  then obtain clk cmd where n: "sy_calls sy ! n = CallSending clk cmd"
    using assms by (auto split: if_splits call.splits)
  define c where "c = (if rt_ctl (sy_rt sy) = Stopped then CallReturned cmd (method_result cmd None) else CallWaiting cmd)"
  have c: "sy_rt sy' = sy_rt sy" "sy_calls sy' = (sy_calls sy)[n := c]"
    using assms ESend n by (auto simp: c_def split: if_splits)
  from n have "returned_id c = returned_id (sy_calls sy ! n)" by (simp add: c_def closed_no_id)
  with c that(1) show thesis by (simp add: returned_ids_def filter_map_update_same)
next
  case ETake
  with assms obtain n clk cmd rest o_rt where "rt_exec pf fm cfg sink (LCommand clk cmd) (sy_rt sy) = Some o_rt"
      "sy' = settle o_rt (sy\<lparr>sy_queue := rest, sy_serving := Some (n, cmd)\<rparr>)"
    by (auto split: list.splits option.splits simp del: rt_exec.simps)
  with that(2) show thesis by (simp add: returned_ids_def del: rt_exec.simps)
qed (use assms that in \<open>auto simp: returned_ids_def split: if_splits option.splits simp del: rt_exec.simps\<close>)

lemma one_response:
  assumes inv: "sy_inv sy" and ex: "rt_exec pf fm cfg sink l (sy_rt sy) = Some (Some rt')"
  shows "rt_responses rt' = rt_responses (sy_rt sy) \<or> (\<exists>resp. rt_responses rt' = rt_responses (sy_rt sy) @ [resp])"
proof -
  have goes: "goes_on cmd (sy_rt sy) rt' \<Longrightarrow> ?thesis" for cmd
    by (auto simp: goes_on_def answered_def)
  consider clk cmd where "l = LCommand clk cmd" | "l = LProgress" | "l = LDrop" | "\<not> client_label l" "l \<noteq> LProgress"
    by (cases l) auto
  then show ?thesis
  proof cases
    case 1
    with ex have "handle_command pf fm cfg clk cmd (sy_rt sy) = Some rt'" by (auto split: if_splits)
    then show ?thesis by (intro goes goes_on_command)
  next
    case 2
    with ex have run: "loop_progress pf fm cfg (sy_rt sy) = Some (Some rt')" by simp
    then obtain n cmd where "serves cmd (rt_ctl (sy_rt sy))"
      using inv idle_no_progress [of "sy_rt sy" pf fm cfg] by (auto simp: sy_inv_def split: option.splits)
    from goes_on_progress [OF run this] show ?thesis by (rule goes)
  next
    case 3
    with ex show ?thesis by (auto split: if_splits)
  next
    case 4
    with quiet_step [OF ex] show ?thesis by blast
  qed
qed

definition sy_acks :: "nat \<Rightarrow> 's system \<Rightarrow> bool" where
  "sy_acks k sy \<longleftrightarrow> sy_inv sy \<and> rt_store_ok k (sy_rt sy) \<and> acks_ok (sy_rt sy) \<and> ids_answered sy"

lemma sy_exec_acks:
  assumes acks: "sy_acks (Suc k) sy" and run: "sy_exec pf fm cfg sink ev sy = Some sy'"
  shows "sy_acks k sy'"
proof -
  have inv: "sy_inv sy'" using acks run by (auto simp: sy_acks_def intro: sy_exec_inv)
  from run show ?thesis
  proof (cases rule: sy_exec_shape)
    case 1
    with acks inv show ?thesis by (simp add: sy_acks_def ids_answered_def rt_store_ok_weaken)
  next
    case (2 l o_rt sy1)
    have st: "rt_store_ok (Suc k) (sy_rt sy)" using acks by (simp add: sy_acks_def)
    from rt_exec_ok [OF this 2(1)] obtain rt' where rt': "o_rt = Some rt'" "rt_store_ok k rt'" by blast
    have "acks_ok rt'"
      using rt_exec_acks [OF _ _ st] 2(1) rt'(1) acks by (simp add: sy_acks_def)
    moreover have "ids_answered (deliver rt' sy1)"
      using deliver_ids [of sy1 rt'] one_response [of sy pf fm cfg sink l rt'] acks 2 rt'(1)
      by (simp add: sy_acks_def ids_answered_def)
    ultimately show ?thesis
      using inv rt' 2(2) settle_rt [of o_rt sy1] by (simp add: sy_acks_def settle_def close_ids)
  qed
qed

lemma sy_run_acks:
  "sy_run pf fm cfg sink evs sy = Some sy' \<Longrightarrow> sy_acks (length evs + k) sy \<Longrightarrow> sy_acks k sy'"
  by (induction evs arbitrary: sy) (auto split: option.splits intro: sy_exec_acks)

lemma spawn_acks:
  assumes spawn: "spawn_system store o_sink cfg = Some sy0" and "store_inv store" "room_for k store"
  shows "sy_acks k sy0"
proof -
  obtain rt where rt: "spawn_qsolog store o_sink cfg = Some rt"
    "sy0 = \<lparr>sy_rt = rt, sy_handles = 1, sy_queue = [], sy_serving = None, sy_calls = []\<rparr>"
    using spawn by (auto simp: spawn_system_def)
  then have "rt_responses rt = []" "rt_ctl rt = Idle" by (auto simp: spawn_qsolog_def split: if_splits)
  then have "acks_ok rt" "ids_answered sy0"
    by (simp_all add: acks_ok_def acks_base_def answered_ids_def ids_answered_def returned_ids_def rt(2))
  with spawn_inv [OF spawn] rt_store_ok_spawn [OF rt(1) assms(2,3)] rt(2) show ?thesis
    by (simp add: sy_acks_def)
qed

lemma returned_ids_kept:
  assumes "sy_acks k sy"
  shows "distinct (returned_ids sy)" "set (returned_ids sy) \<subseteq> set (order (rt_store (sy_rt sy)))"
proof -
  have base: "distinct (answered_ids (sy_rt sy))" "set (answered_ids (sy_rt sy)) \<subseteq> set (order (rt_store (sy_rt sy)))"
    and sub: "mset (returned_ids sy) \<subseteq># mset (answered_ids (sy_rt sy))"
    using assms by (auto simp: sy_acks_def acks_ok_def acks_base_def ids_answered_def)
  show "distinct (returned_ids sy)"
    using base(1) sub by (rule distinct_of_subseteq)
  show "set (returned_ids sy) \<subseteq> set (order (rt_store (sy_rt sy)))"
    using base(2) set_mset_mono [OF sub] by auto
qed

end
