(* ===== verification/Qso_Recovery.thy ===== *)
theory Qso_Recovery
  imports Qso_Sqlite
begin

section \<open>Recovery: what load_store rebuilds from the tables\<close>

text \<open>
  The journal rows of a run decode to the operations of the run, in order; a snapshot row
  decodes to the snapshot; so \<^const>\<open>load_store\<close> returns a replica of the store whose
  operations were appended. All of it holds under \<^const>\<open>codec_ok\<close> and for sequence
  numbers below 2^63, where SQLite's signed order is the order of the numbers.
\<close>


subsection \<open>Signed columns\<close>

lemma as_i64_small: "n < 2 ^ 63 \<Longrightarrow> as_i64 n = uint n"
proof -
  assume "n < 2 ^ 63"
  then have "uint n < 2 ^ 63" by (simp add: word_less_def)
  then have "signed_take_bit 63 (uint n) = uint n"
    by (simp add: signed_take_bit_int_eq_self_iff order_trans [OF _ uint_ge_0])
  then show "as_i64 n = uint n" by (simp add: as_i64_def sint_uint)
qed

lemma as_i64_back [simp]: "word_of_int (as_i64 n) = n"
  by (simp add: as_i64_def)

lemma as_i64_less: "m < 2 ^ 63 \<Longrightarrow> n < 2 ^ 63 \<Longrightarrow> as_i64 m < as_i64 n \<longleftrightarrow> m < n"
  by (simp add: as_i64_small word_less_def)

lemma as_i64_inj: "as_i64 m = as_i64 n \<longleftrightarrow> m = n"
  by (metis as_i64_back)


subsection \<open>Rows of operations\<close>

lemma same_events [simp]: "db\<lparr>db_events := db_events db\<rparr> = db"
  by (cases db) simp

lemma entry_row_sel [simp]:
  "ev_seq (entry_row cdc so) = as_i64 (so_seq so)" "ev_ts_ms (entry_row cdc so) = as_i64 (so_ts_ms so)"
  by (simp_all add: entry_row_def event_row_of_def Let_def split: prod.split)

lemma codec_op:
  assumes "codec_ok cdc"
  shows "op_to_vec cdc env = Inr (projr (op_to_vec cdc env))"
    and "op_from_slice cdc (projr (op_to_vec cdc env)) = Inr env"
  using assms unfolding codec_ok_def by (metis sum.sel(2))+

lemma row_roundtrip:
  assumes "codec_ok cdc"
  shows "stored_op_of_row cdc (entry_row cdc so) = Inr so"
proof -
  have "ev_payload (entry_row cdc so) = projr (op_to_vec cdc (envelope_new so))"
    by (simp add: entry_row_def event_row_of_def Let_def split: prod.split)
  then have "decode_stored_op_payload cdc (ev_payload (entry_row cdc so)) = Inr so"
    using codec_op(2) [OF assms] by (simp add: decode_stored_op_payload_def envelope_new_def)
  then show ?thesis
    by (simp add: stored_op_of_row_def)
qed

lemma collect_rows_entries: "codec_ok cdc \<Longrightarrow> collect_rows (stored_op_of_row cdc) (map (entry_row cdc) js) = Inr js"
  by (induction js) (simp_all add: row_roundtrip)

text \<open>A journal: strictly increasing and below 2^63.\<close>

definition journal_ok :: "stored_op list \<Rightarrow> bool" where
  "journal_ok js \<longleftrightarrow> sorted_wrt (\<lambda>a b. so_seq a < so_seq b) js \<and> (\<forall>so \<in> set js. so_seq so < 2 ^ 63)"

lemma journal_ok_append: "journal_ok (xs @ ys) \<Longrightarrow> journal_ok xs \<and> journal_ok ys"
  by (auto simp: journal_ok_def sorted_wrt_append)

lemma sort_key_sorted: "sorted (map f xs) \<Longrightarrow> sort_key f xs = xs"
  by (rule properties_for_sort_key) simp_all

lemma journal_rows_sorted: "journal_ok js \<Longrightarrow> sorted (map ev_seq (map (entry_row cdc) js))"
  by (induction js) (auto simp: journal_ok_def as_i64_small word_less_def intro: less_imp_le)

lemma filter_entries:
  assumes "journal_ok js" "n < 2 ^ 63"
  shows "filter (\<lambda>row. as_i64 n < ev_seq row) (map (entry_row cdc) js) = map (entry_row cdc) (filter (\<lambda>so. n < so_seq so) js)"
    and "filter (\<lambda>row. \<not> ev_seq row \<le> as_i64 n) (map (entry_row cdc) js) = map (entry_row cdc) (filter (\<lambda>so. n < so_seq so) js)"
  using assms by (auto simp: filter_map o_def journal_ok_def as_i64_less not_le intro!: arg_cong [where f = "map (entry_row cdc)"] filter_cong)

lemma journal_ok_filter: "journal_ok js \<Longrightarrow> journal_ok (filter P js)"
  by (auto simp: journal_ok_def sorted_wrt_filter)

lemma load_events_journal:
  assumes "codec_ok cdc" "journal_ok js" "db_events db = map (entry_row cdc) js" "n < 2 ^ 63"
  shows "load_events_after cdc no_faults n db = Inr (filter (\<lambda>so. n < so_seq so) js)"
  using assms journal_rows_sorted [OF journal_ok_filter [OF assms(2)], of cdc]
  by (simp add: load_events_after_def select_events_after_def filter_entries sort_key_sorted
      collect_rows_entries del: map_map)

lemma insert_events_journal:
  "codec_ok cdc \<Longrightarrow> journal_ok (js @ ops) \<Longrightarrow>
    insert_events cdc no_faults n ops (map (entry_row cdc) js) = Inr (map (entry_row cdc) (js @ ops))"
proof (induction ops arbitrary: js n)
  case (Cons so ops)
  have "so_seq so \<notin> so_seq ` set js"
    using Cons.prems(2) by (fastforce simp: journal_ok_def sorted_wrt_append)
  then have "insert_event (entry_row cdc so) (map (entry_row cdc) js) = Inr (map (entry_row cdc) (js @ [so]))"
    by (auto simp: insert_event_def as_i64_inj)
  moreover obtain p where "op_to_vec cdc (envelope_new so) = Inr p" "entry_row cdc so = event_row_of so p"
    using codec_op(1) [OF Cons.prems(1), of "envelope_new so"] by (simp add: entry_row_def)
  ultimately show ?case
    using Cons.IH [of "js @ [so]" "Suc n"] Cons.prems by (simp add: serde_try_def)
qed simp

lemma append_ops_journal:
  assumes "codec_ok cdc" "journal_ok (js @ ops)" "db_events db = map (entry_row cdc) js" "ops \<noteq> []"
  shows "append_ops cdc no_faults ops db = (Inr (so_seq (last ops)), db\<lparr>db_events := map (entry_row cdc) (js @ ops)\<rparr>)"
  using assms insert_events_journal [OF assms(1,2), of 0] by (simp add: append_ops_def) (simp add: no_faults_def)

text \<open>The worker appends batch after batch; how the journal is cut does not matter.\<close>

definition append_batches :: "'p codec \<Rightarrow> stored_op list list \<Rightarrow> 'p database \<Rightarrow> 'p database" where
  "append_batches cdc batches db = fold (\<lambda>ops db. snd (append_ops cdc no_faults ops db)) batches db"

lemma append_batches_journal:
  "codec_ok cdc \<Longrightarrow> journal_ok (js @ concat batches) \<Longrightarrow> db_events db = map (entry_row cdc) js \<Longrightarrow>
    append_batches cdc batches db = db\<lparr>db_events := map (entry_row cdc) (js @ concat batches)\<rparr>"
proof (induction batches arbitrary: js db)
  case (Cons ops batches)
  show ?case
  proof (cases "ops = []")
    case True
    with Cons show ?thesis by (simp add: append_batches_def append_ops_def)
  next
    case False
    from Cons.prems(2) have "journal_ok (js @ ops)" "journal_ok ((js @ ops) @ concat batches)"
      using journal_ok_append [of "js @ ops"] by simp_all
    with append_ops_journal [OF Cons.prems(1) _ Cons.prems(3) False]
      Cons.IH [of "js @ ops" "db\<lparr>db_events := map (entry_row cdc) (js @ ops)\<rparr>"] Cons.prems(1) show ?thesis
      by (simp add: append_batches_def)
  qed
qed (simp add: append_batches_def)

text \<open>A batch that goes through has new, distinct sequence numbers.\<close>

lemma insert_events_keys:
  "insert_events cdc flt n ops rows = Inr rows' \<Longrightarrow>
    distinct (map so_seq ops) \<and> (\<forall>so \<in> set ops. as_i64 (so_seq so) \<notin> ev_seq ` set rows)"
proof (induction ops arbitrary: n rows)
  case (Cons so ops)
  from Cons.prems obtain payload rows1 where ins: "insert_event (event_row_of so payload) rows = Inr rows1"
    and rest: "insert_events cdc flt (Suc n) ops rows1 = Inr rows'"
    by (auto simp: serde_try_def sql_try_def split: sum.splits option.splits)
  have "ev_seq (event_row_of so payload) = as_i64 (so_seq so)"
    by (simp add: event_row_of_def Let_def split: prod.split)
  with ins have rows1: "ev_seq ` set rows1 = insert (as_i64 (so_seq so)) (ev_seq ` set rows)"
      "as_i64 (so_seq so) \<notin> ev_seq ` set rows"
    by (auto simp: insert_event_def split: if_splits)
  from Cons.IH [OF rest] rows1 show ?case by (auto simp: as_i64_inj)
qed simp

text \<open>Compacting through the latest sequence number of a store empties its journal table.\<close>

lemma compact_journal:
  assumes "journal_ok js" "\<forall>so \<in> set js. so_seq so < next_op_seq st"
    and "0 < next_op_seq st" "next_op_seq st < 2 ^ 63" "db_events db = map (entry_row cdc) js"
  shows "snd (compact_through no_faults (latest_op_seq st) (db\<lparr>db_snapshots := rows\<rparr>))
    = db\<lparr>db_snapshots := rows, db_events := []\<rparr>"
proof -
  define n where "n = next_op_seq st - 1"
  have nm: "n \<noteq> u64_max" "next_op_seq st = n + 1"
    using assms(3) by (auto simp: n_def)
  then have n: "latest_op_seq st = n" by (simp add: latest_op_seq_def)
  have "n < 2 ^ 63" using less_succ [OF nm(1)] assms(4) nm(2) by simp
  moreover have "\<not> n < so_seq so" if "so \<in> set js" for so
    using assms(2) that succ_le_iff [OF nm(1), of "so_seq so"] unfolding nm(2) by (meson leD)
  then have "filter (\<lambda>so. n < so_seq so) js = []" by (simp add: filter_empty_conv)
  ultimately show ?thesis
    using filter_entries(2) [OF assms(1), of n cdc]
    by (simp add: compact_through_def delete_events_through_def n assms(5) no_faults_def Let_def del: filter_map)
qed


subsection \<open>Snapshot rows\<close>

lemma select_latest_inserted:
  "select_latest_snapshot (insert_snapshot_row n ts payload rows) = Some payload"
proof -
  let ?new = "\<lparr>sr_id = (if rows = [] then 1 else Max (sr_id ` set rows) + 1),
             sr_last_seq = n, sr_ts_ms = ts, sr_payload = payload\<rparr>"
  have "sr_id row \<le> sr_id ?new" if "row \<in> set rows" for row
  proof -
    have "sr_id row \<le> Max (sr_id ` set rows)" using that by simp
    moreover have "sr_id ?new = Max (sr_id ` set rows) + 1" using that by auto
    ultimately show ?thesis by linarith
  qed
  moreover have "filter (\<lambda>x. k = sr_id x) (sort_key sr_id rows) = filter (\<lambda>x. k = sr_id x) rows" for k
    unfolding eq_commute [of k] by (rule sort_key_stable)
  ultimately have "sort_key sr_id (rows @ [?new]) = sort_key sr_id rows @ [?new]"
    by (intro properties_for_sort_key) (auto simp: sorted_append)
  then show ?thesis
    by (simp add: select_latest_snapshot_def insert_snapshot_row_def)
qed

lemma write_snapshot_ok:
  assumes "codec_ok cdc"
  shows "\<exists>rows. write_snapshot cdc no_faults clk snap n db = (Inr (), db\<lparr>db_snapshots := rows\<rparr>) \<and>
    (\<forall>evs. load_latest_snapshot cdc no_faults (db\<lparr>db_snapshots := rows, db_events := evs\<rparr>) = Inr (Some snap))"
proof -
  let ?env = "\<lparr>se_format_version = SNAPSHOT_FORMAT_VERSION, se_snapshot = snap\<rparr>"
  obtain p where "snap_to_vec cdc ?env = Inr p" "snap_from_slice cdc p = Inr ?env"
    using assms unfolding codec_ok_def by blast
  then show ?thesis
    by (intro exI [of _ "insert_snapshot_row (as_i64 n) (as_i64 (now_ms clk)) p (db_snapshots db)"])
      (simp add: write_snapshot_def load_latest_snapshot_def serde_try_def select_latest_inserted)
qed


subsection \<open>Loading\<close>

text \<open>Loading is replaying the rows that follow the start.\<close>

lemma load_store_replay:
  assumes cdc: "codec_ok cdc" and js: "journal_ok (old @ js)" and ev: "db_events db = map (entry_row cdc) (old @ js)"
    and start: "(case osnap of Some snap \<Rightarrow> from_snapshot snap | None \<Rightarrow> Inr new_store) = Inr st0"
    and snap: "load_latest_snapshot cdc no_faults db = Inr osnap"
    and n: "0 < next_op_seq st0" "next_op_seq st0 \<le> 2 ^ 63"
    and old: "\<forall>so \<in> set old. so_seq so < next_op_seq st0" and new: "\<forall>so \<in> set js. next_op_seq st0 \<le> so_seq so"
    and replay: "replay_all pf clk js st0 = Ok () rs"
  shows "load_store pf clk cdc no_faults no_faults db = Some (Inr rs)"
proof -
  define n where "n = next_op_seq st0 - 1"
  have nm: "n \<noteq> u64_max" "next_op_seq st0 = n + 1"
    using n(1) by (auto simp: n_def)
  have sub: "saturating_sub (next_op_seq st0) 1 = n"
    using saturating_pred_succ [OF nm(1)] nm(2) by simp
  have "n < next_op_seq st0" using less_succ [OF nm(1)] nm(2) by simp
  then have "n < 2 ^ 63" using n(2) by (rule order.strict_trans2)
  then have "load_events_after cdc no_faults n db = Inr (filter (\<lambda>so. n < so_seq so) (old @ js))"
    by (rule load_events_journal [OF cdc js ev])
  moreover have "filter (\<lambda>so. n < so_seq so) (old @ js) = js"
  proof -
    have "n < so_seq so \<longleftrightarrow> n + 1 \<le> so_seq so" for so by (simp add: succ_le_iff nm(1))
    then have "\<forall>so \<in> set old. \<not> n < so_seq so" "\<forall>so \<in> set js. n < so_seq so"
      using old new nm(2) leD by fastforce+
    then have "filter (\<lambda>so. n < so_seq so) old = []" "filter (\<lambda>so. n < so_seq so) js = js"
      by (simp_all add: filter_empty_conv)
    then show ?thesis by simp
  qed
  ultimately show ?thesis
    using snap start replay by (simp add: load_store_def export_snapshot_def sub)
qed

lemma load_store_replica:
  assumes "codec_ok cdc" and "journal_ok (old @ js)" and "db_events db = map (entry_row cdc) (old @ js)"
    and "(case osnap of Some snap \<Rightarrow> from_snapshot snap | None \<Rightarrow> Inr new_store) = Inr st0"
    and "load_latest_snapshot cdc no_faults db = Inr osnap"
    and rep: "replica st st0" and "0 < next_op_seq st0" "next_op_seq st0 \<le> 2 ^ 63"
    and "\<forall>so \<in> set old. so_seq so < next_op_seq st0" and "\<forall>so \<in> set js. next_op_seq st0 \<le> so_seq so"
    and eff: "run_effect pf st js st'"
  shows "\<exists>rs. load_store pf clk cdc no_faults no_faults db = Some (Inr rs) \<and> replica st' rs"
proof -
  obtain rs where "replay_all pf clk js st0 = Ok () rs" "replica st' rs"
    using eff rep by (auto simp: run_effect_def)
  with load_store_replay [OF assms(1-5,7-10)] show ?thesis by blast
qed


subsection \<open>Opening a database\<close>

lemma read_text_meta:
  "read_u32_meta no_faults key t =
    (case Mapping.lookup t key of
       None \<Rightarrow> (Inr None, t)
     | Some raw \<Rightarrow>
       (case parse_u32 raw of
          Inr n \<Rightarrow> (Inr (Some n), t)
        | Inl e \<Rightarrow> (Inl (PeMessage (''invalid meta value for '' @ key @ '': '' @ raw @ '' ('' @
             parse_int_error_text e @ '')'')), t)))"
  by (simp add: read_u32_meta_def meta_then_def read_meta_def split: option.split sum.split)

lemma write_meta_no_faults [simp]: "write_meta no_faults key v t = (Inr (), Mapping.update key v t)"
  by (simp add: write_meta_def no_faults_def)

lemma meta_then_simps [simp]:
  "m t = (Inl e, t') \<Longrightarrow> meta_then m f t = (Inl e, t')"
  "m t = (Inr x, t') \<Longrightarrow> meta_then m f t = f x t'"
  by (simp_all add: meta_then_def)

lemma meta_keys_distinct [simp]:
  "META_SCHEMA_VERSION \<noteq> META_OP_FORMAT_VERSION" "META_SCHEMA_VERSION \<noteq> META_SNAPSHOT_FORMAT_VERSION"
  "META_SCHEMA_VERSION \<noteq> META_STATION_INSTANCE_ID" "META_OP_FORMAT_VERSION \<noteq> META_SNAPSHOT_FORMAT_VERSION"
  "META_OP_FORMAT_VERSION \<noteq> META_STATION_INSTANCE_ID" "META_SNAPSHOT_FORMAT_VERSION \<noteq> META_STATION_INSTANCE_ID"
  by (simp_all add: META_SCHEMA_VERSION_def META_OP_FORMAT_VERSION_def META_SNAPSHOT_FORMAT_VERSION_def
      META_STATION_INSTANCE_ID_def)

text \<open>A version that is present and supported passes, a newer one is refused.\<close>

lemma ensure_version_found:
  assumes "Mapping.lookup t key = Some (nat_to_string (unat v))"
  shows "ensure_version no_faults key what supported t =
    (if v > supported then Inl (PeMessage (''unsupported '' @ what @ '' version: '' @ nat_to_string (unat v))) else Inr (), t)"
  using assms by (simp add: ensure_version_def read_text_meta parse_u32_to_string)

definition meta_current :: "(string, string) mapping \<Rightarrow> bool" where
  "meta_current t \<longleftrightarrow>
    Mapping.lookup t META_SCHEMA_VERSION = Some (nat_to_string (unat DB_SCHEMA_VERSION)) \<and>
    Mapping.lookup t META_OP_FORMAT_VERSION = Some (nat_to_string (unat (ucast OP_FORMAT_VERSION :: u32))) \<and>
    Mapping.lookup t META_SNAPSHOT_FORMAT_VERSION = Some (nat_to_string (unat (ucast SNAPSHOT_FORMAT_VERSION :: u32))) \<and>
    Mapping.lookup t META_STATION_INSTANCE_ID \<noteq> None"

lemma initialize_current:
  "meta_current t \<Longrightarrow> initialize_or_migrate_meta no_faults t = (Inr (), t)"
  by (auto simp: meta_current_def initialize_or_migrate_meta_def read_text_meta parse_u32_to_string
      ensure_meta_defaults_def ensure_version_found read_meta_def)

lemma initialize_fresh:
  assumes "Mapping.lookup t META_SCHEMA_VERSION = None"
  shows "\<exists>t'. initialize_or_migrate_meta no_faults t = (Inr (), t') \<and> meta_current t'"
  using assms meta_keys_distinct [symmetric]
  by (simp add: initialize_or_migrate_meta_def read_text_meta meta_current_def lookup_update'
      OP_FORMAT_VERSION_def SNAPSHOT_FORMAT_VERSION_def)

lemma init_connection_meta:
  "init_connection no_faults no_faults db =
    (let (out, t) = initialize_or_migrate_meta no_faults (db_meta db) in (out, db\<lparr>db_meta := t\<rparr>))"
  by (simp add: init_connection_def no_faults_def sql_try_def split: prod.split sum.split)

lemma sqlite_open_current: "meta_current (db_meta db) \<Longrightarrow> sqlite_open (Inr db) no_faults no_faults = Inr db"
  by (cases db) (simp add: sqlite_open_def init_connection_meta initialize_current)

lemma sqlite_open_fresh:
  assumes "Mapping.lookup (db_meta db) META_SCHEMA_VERSION = None"
  obtains t where "sqlite_open (Inr db) no_faults no_faults = Inr (db\<lparr>db_meta := t\<rparr>)" "meta_current t"
  using initialize_fresh [OF assms] by (auto simp: sqlite_open_def init_connection_meta)

end
