(* ===== verification/Qso_Sqlite_Properties.thy ===== *)
theory Qso_Sqlite_Properties
  imports Qso_Recovery
begin

section \<open>Properties of the SQLite sink\<close>

text \<open>
  Restart gives the store back, with and without snapshot and compaction; appending is
  atomic and keyed; the version checks of an opened database. Statements about payloads
  assume \<^const>\<open>codec_ok\<close> (derived serde encoders and decoders are inverse); the witnesses
  use a codec whose payloads are syntax trees.
\<close>


subsection \<open>A concrete codec\<close>

datatype tree = TreeOp stored_op_envelope | TreeRaw stored_op | TreeSnapshot snapshot_envelope

definition tree_codec :: "tree codec" where
  "tree_codec = \<lparr>
    op_to_vec = (\<lambda>env. Inr (TreeOp env)),
    op_from_slice = (\<lambda>p. case p of TreeOp env \<Rightarrow> Inr env | _ \<Rightarrow> Inl ''missing field `format_version`''),
    raw_op_from_slice = (\<lambda>p. case p of TreeRaw stored \<Rightarrow> Inr stored | _ \<Rightarrow> Inl ''missing field `seq`''),
    snap_to_vec = (\<lambda>env. Inr (TreeSnapshot env)),
    snap_from_slice = (\<lambda>p. case p of TreeSnapshot env \<Rightarrow> Inr env | _ \<Rightarrow> Inl ''missing field `snapshot`''),
    payload_len = (\<lambda>_. 0)\<rparr>"

lemma tree_codec_ok: "codec_ok tree_codec"
  by (simp add: codec_ok_def tree_codec_def)


subsection \<open>Restart\<close>

lemma run_new_small:
  assumes "length cs + k < 9223372036854775807" "run_cmds pf cs new_store = Some st"
  shows "store_inv st" "room_for k st" "run_effect pf new_store (pending_ops st) st"
    "0 < next_op_seq st" "next_op_seq st < 2 ^ 63"
proof -
  have "length cs + (k + 2 ^ 63) < 18446744073709551615" using assms(1) by simp
  from run_cmds_room [OF store_inv_new room_for_new [OF this], of pf] assms(2)
  have inv: "store_inv st" and room: "room_for (k + 2 ^ 63) st" by auto
  from room show "room_for k st" by (simp add: room_for_def)
  from room have "unat (next_op_seq st) < 2 ^ 63"
    by (simp add: room_for_def unsigned_minus_1_eq_mask mask_eq_exp_minus_1)
  then show "next_op_seq st < 2 ^ 63" by (simp add: word_less_nat_alt)
  obtain js where js: "run_effect pf new_store js st"
    using run_cmds_effect [OF store_inv_new room_for_new, of cs pf] assms by auto
  then have "js = pending_ops st"
    by (simp add: run_effect_def new_store_def default_store_def)
  with js show "run_effect pf new_store (pending_ops st) st" by simp
  from js have "1 \<le> next_op_seq st" by (simp add: run_effect_def new_store_def)
  then show "0 < next_op_seq st" by (simp add: word_le_nat_alt word_less_nat_alt)
qed (use assms run_cmds_room [OF store_inv_new room_for_new, of cs 0 pf] in auto)

lemma seqs_journal_ok:
  "seqs_within lo hi js \<Longrightarrow> hi \<le> 2 ^ 63 \<Longrightarrow> journal_ok js"
  by (auto simp: seqs_within_def journal_ok_def intro: order.strict_trans2)

lemma run_two_journals:
  assumes len: "length cs + length ds < 9223372036854775807"
    and cs: "run_cmds pf cs new_store = Some st" and ds: "run_cmds pf ds st = Some st'"
  obtains js where "pending_ops st' = pending_ops st @ js" "run_effect pf st js st'" "store_inv st'"
    "journal_ok (pending_ops st @ js)" "\<forall>so \<in> set (pending_ops st). so_seq so < next_op_seq st"
    "\<forall>so \<in> set js. next_op_seq st \<le> so_seq so"
proof -
  note st = run_new_small [OF len cs]
  obtain js where js: "run_effect pf st js st'"
    using run_cmds_effect [OF st(1,2), of pf] ds by auto
  have "run_cmds pf (cs @ ds) new_store = Some st'" using cs ds by (simp add: run_cmds_append)
  then have st': "run_effect pf new_store (pending_ops st') st'" "next_op_seq st' < 2 ^ 63"
    using run_new_small [of "cs @ ds" 0 pf st'] len by simp_all
  have eq: "pending_ops st' = pending_ops st @ js" using js by (simp add: run_effect_def)
  have "journal_ok (pending_ops st')"
    using st' by (intro seqs_journal_ok [of "next_op_seq new_store" "next_op_seq st'"]) (simp_all add: run_effect_def)
  with js st(3) eq show ?thesis
    by (intro that [of js]) (simp_all add: run_effect_def seqs_within_def)
qed

text \<open>Restart from the journal alone. If the operations of a run were appended in order, in
  batches cut anywhere, then \<open>load_store\<close> succeeds and returns a store with the same records,
  order, position table, indices and next id.\<close>
theorem journal_restart_recovers_store:
  assumes "codec_ok cdc" and "length cs < 9223372036854775807"
    and "run_cmds pf cs new_store = Some st" and "concat batches = pending_ops st"
  shows "\<exists>rs. load_store pf clk cdc no_faults no_faults (append_batches cdc batches empty_database) = Some (Inr rs) \<and>
    records rs = records st \<and> order rs = order st \<and> pos rs = pos st \<and>
    by_call rs = by_call st \<and> by_contest rs = by_contest st \<and> next_qso_id rs = next_qso_id st"
proof -
  have len: "length ([] :: (int \<times> store_cmd) list) + length cs < 9223372036854775807" using assms(2) by simp
  have pend: "pending_ops new_store = []" "next_op_seq new_store = 1"
    by (simp_all add: new_store_def default_store_def)
  obtain js where js: "pending_ops st = js" "run_effect pf new_store js st" "store_inv st" "journal_ok js"
      "\<forall>so \<in> set js. 1 \<le> so_seq so"
    using run_two_journals [OF len, of pf new_store st] assms(3) by (auto simp: pend)
  let ?db = "append_batches cdc batches empty_database"
  have db: "?db = empty_database\<lparr>db_events := map (entry_row cdc) ([] @ js)\<rparr>"
    using append_batches_journal [OF assms(1), of "[]" batches empty_database] js(1,4) assms(4)
    by (simp add: empty_database_def)
  have "load_latest_snapshot cdc no_faults ?db = Inr None"
    unfolding db by (simp add: load_latest_snapshot_def select_latest_snapshot_def empty_database_def)
  then obtain rs where rs: "load_store pf clk cdc no_faults no_faults ?db = Some (Inr rs)" "replica st rs"
    using load_store_replica [OF assms(1), where old = "[]" and js = js and db = ?db and osnap = None
        and ?st0.0 = new_store and st = new_store and pf = pf and st' = st and clk = clk] js replica_new
    by (auto simp: db pend)
  moreover have "store_wf st" using js(3) by (simp add: store_inv_def)
  ultimately show ?thesis
    using replica_data [OF rs(2)] by (auto simp: replica_def)
qed

theorem journal_restart_recovers_store_witness:
  "\<exists>rs. load_store dev_profile (\<lambda>_. 0) tree_codec no_faults no_faults
      (append_batches tree_codec [pending_ops sample_store] empty_database) = Some (Inr rs) \<and>
    by_call rs = by_call sample_store"
  using journal_restart_recovers_store [OF tree_codec_ok _ sample_store_run, of "[pending_ops sample_store]"]
  by (fastforce simp: sample_cmds_def)

text \<open>C6. Restart after a checkpoint. A snapshot of the store is written, optionally the journal
  is compacted through the snapshot's sequence number, more operations are appended: then
  \<open>load_store\<close> still returns the data of the final store, whether or not events were deleted.\<close>
theorem checkpoint_restart_recovers_store:
  assumes "codec_ok cdc" and "length cs + length ds < 9223372036854775807"
    and "run_cmds pf cs new_store = Some st" and "run_cmds pf ds st = Some st'"
    and "concat batches = pending_ops st" and "pending_ops st @ concat batches' = pending_ops st'"
    and "write_snapshot cdc no_faults now (export_snapshot st) (latest_op_seq st)
          (append_batches cdc batches empty_database) = (wr, db)"
    and "db' = (if compact then snd (compact_through no_faults (latest_op_seq st) db) else db)"
  shows "\<exists>rs. load_store pf clk cdc no_faults no_faults (append_batches cdc batches' db') = Some (Inr rs) \<and>
    records rs = records st' \<and> order rs = order st' \<and> pos rs = pos st' \<and>
    by_call rs = by_call st' \<and> by_contest rs = by_contest st' \<and> next_qso_id rs = next_qso_id st'"
proof -
  obtain js where js: "pending_ops st' = pending_ops st @ js" "run_effect pf st js st'" "store_inv st'"
      "journal_ok (pending_ops st @ js)" "\<forall>so \<in> set (pending_ops st). so_seq so < next_op_seq st"
      "\<forall>so \<in> set js. next_op_seq st \<le> so_seq so"
    by (rule run_two_journals [OF assms(2-4)])
  note st = run_new_small [OF assms(2,3)]
  let ?js1 = "pending_ops st" and ?base = "append_batches cdc batches empty_database"
  define old where "old = (if compact then [] else ?js1)"
  have db0: "?base = empty_database\<lparr>db_events := map (entry_row cdc) ?js1\<rparr>"
    using append_batches_journal [OF assms(1), of "[]" batches empty_database] journal_ok_append [OF js(4)] assms(5)
    by (simp add: empty_database_def)
  obtain rows where db: "db = ?base\<lparr>db_snapshots := rows\<rparr>"
    and snap: "\<And>evs. load_latest_snapshot cdc no_faults (?base\<lparr>db_snapshots := rows, db_events := evs\<rparr>)
      = Inr (Some (export_snapshot st))"
    using write_snapshot_ok [OF assms(1), of now "export_snapshot st" "latest_op_seq st" ?base] assms(7) by auto
  have db': "db' = ?base\<lparr>db_snapshots := rows, db_events := map (entry_row cdc) old\<rparr>"
    using assms(8) compact_journal [where js = ?js1 and st = st and cdc = cdc and db = ?base and rows = rows] journal_ok_append [OF js(4)] js(5) st(4,5) db0
    by (simp add: db old_def)
  let ?db = "append_batches cdc batches' db'"
  have "journal_ok (old @ js)" using js(4) journal_ok_append [OF js(4)] by (simp add: old_def)
  then have final: "?db = ?base\<lparr>db_snapshots := rows, db_events := map (entry_row cdc) (old @ js)\<rparr>"
    using append_batches_journal [OF assms(1), of old batches' db'] assms(6) js(1) by (simp add: db')
  have wf: "store_wf st" "store_wf st'" using st(1) js(3) by (simp_all add: store_inv_def)
  obtain rs0 where rs0: "from_snapshot (export_snapshot st) = Inr rs0" "replica st rs0" "next_op_seq rs0 = next_op_seq st"
    using snapshot_replica [OF wf(1)] by blast
  have "db_events ?db = map (entry_row cdc) (old @ js)"
    by (subst final) simp
  moreover have "load_latest_snapshot cdc no_faults ?db = Inr (Some (export_snapshot st))"
    unfolding final by (rule snap)
  moreover have "\<forall>so \<in> set old. so_seq so < next_op_seq rs0"
    using js(5) rs0(3) by (simp add: old_def)
  ultimately have "\<exists>rs. load_store pf clk cdc no_faults no_faults ?db = Some (Inr rs) \<and> replica st' rs"
    using load_store_replica [OF assms(1) \<open>journal_ok (old @ js)\<close>, where db = ?db and
        osnap = "Some (export_snapshot st)" and ?st0.0 = rs0 and st = st and pf = pf and st' = st' and clk = clk]
      rs0 st(4,5) js(2,6) by (simp add: less_imp_le)
  then show ?thesis
    using replica_data [OF _ wf(2)] by (auto simp: replica_def)
qed

theorem checkpoint_restart_recovers_store_witness:
  "\<exists>st' rs. run_cmds dev_profile [(9, CmdUndo)] sample_store = Some st' \<and>
    load_store dev_profile (\<lambda>_. 0) tree_codec no_faults no_faults
      (append_batches tree_codec [drop (length (pending_ops sample_store)) (pending_ops st')]
        (snd (compact_through no_faults (latest_op_seq sample_store)
          (snd (write_snapshot tree_codec no_faults 0 (export_snapshot sample_store) (latest_op_seq sample_store)
            (append_batches tree_codec [pending_ops sample_store] empty_database)))))) = Some (Inr rs) \<and>
    records rs = records st'"
proof -
  have len: "length sample_cmds + length [(9::int, CmdUndo)] < 9223372036854775807" by (simp add: sample_cmds_def)
  have "room_for (length [(9::int, CmdUndo)]) sample_store" by (simp add: room_for_sample)
  then obtain st' where st': "run_cmds dev_profile [(9, CmdUndo)] sample_store = Some st'"
    using run_cmds_total [OF sample_store_inv] by blast
  obtain js where "pending_ops st' = pending_ops sample_store @ js"
    using run_two_journals [OF len sample_store_run st'] by blast
  then show ?thesis
    using checkpoint_restart_recovers_store [OF tree_codec_ok len sample_store_run st',
        of "[pending_ops sample_store]" "[drop (length (pending_ops sample_store)) (pending_ops st')]" 0
           "fst (write_snapshot tree_codec no_faults 0 (export_snapshot sample_store) (latest_op_seq sample_store)
              (append_batches tree_codec [pending_ops sample_store] empty_database))" _ _ True "\<lambda>_. 0"] st'
    by (auto simp: prod_eq_iff)
qed


subsection \<open>The journal table\<close>

text \<open>C30. An append is atomic and keyed: whatever the engine does, an error leaves the database as
  it was and a success adds one row per operation, in order; a batch with a sequence number
  that is already in the table, or twice in the batch, is always rejected.\<close>
theorem append_is_atomic_and_keyed:
  "(case append_ops cdc flt ops db of
      (Inl e, db') \<Rightarrow> db' = db
    | (Inr seq, db') \<Rightarrow> db' = db\<lparr>db_events := db_events db @ map (entry_row cdc) ops\<rparr> \<and> (ops \<noteq> [] \<longrightarrow> seq = so_seq (last ops))) \<and>
   (\<not> distinct (map so_seq ops) \<or> (\<exists>so \<in> set ops. as_i64 (so_seq so) \<in> ev_seq ` set (db_events db))
      \<longrightarrow> isl (fst (append_ops cdc flt ops db)))"
proof -
  obtain out db' where out: "append_ops cdc flt ops db = (out, db')" by fastforce
  have "isl out" if "\<not> distinct (map so_seq ops) \<or> (\<exists>so \<in> set ops. as_i64 (so_seq so) \<in> ev_seq ` set (db_events db))"
  proof (rule ccontr)
    assume "\<not> isl out"
    then obtain seq where "out = Inr seq" by (cases out) auto
    moreover have "ops \<noteq> []" using that by auto
    ultimately obtain rows where "insert_events cdc flt 0 ops (db_events db) = Inr rows"
      using out by (auto simp: append_ops_def sql_try_def split: option.splits sum.splits if_splits)
    from insert_events_keys [OF this] that show False by auto
  qed
  moreover have "case (out, db') of (Inl e, db') \<Rightarrow> db' = db
    | (Inr seq, db') \<Rightarrow> db' = db\<lparr>db_events := db_events db @ map (entry_row cdc) ops\<rparr> \<and> (ops \<noteq> [] \<longrightarrow> seq = so_seq (last ops))"
    by (rule append_ops_cases [OF out]) (auto split: sum.split)
  ultimately show ?thesis using out by simp
qed

theorem append_is_atomic_and_keyed_witness:
  "isl (fst (append_ops tree_codec no_faults (pending_ops sample_store @ pending_ops sample_store) empty_database))"
proof -
  have "map so_seq (pending_ops sample_store) = [1, 2, 3, 4]" by code_simp
  then have "\<not> distinct (map so_seq (pending_ops sample_store @ pending_ops sample_store))" by simp
  then show ?thesis
    using append_is_atomic_and_keyed [where cdc = tree_codec and flt = no_faults and
      ops = "pending_ops sample_store @ pending_ops sample_store" and db = empty_database]
    by blast
qed

text \<open>What is appended is what is loaded: from a journal table of increasing sequence numbers
  below 2^63, \<open>load_events_after(n)\<close> returns the operations above \<open>n\<close>, in order, with their
  sequence numbers and timestamps.\<close>
theorem load_returns_appended_tail:
  assumes "codec_ok cdc" and "journal_ok (concat batches)" and "n < 2 ^ 63"
  shows "load_events_after cdc no_faults n (append_batches cdc batches empty_database)
    = Inr (filter (\<lambda>so. n < so_seq so) (concat batches))"
  using append_batches_journal [OF assms(1), of "[]" batches empty_database]
    load_events_journal [OF assms(1,2) _ assms(3)] assms(2)
  by (simp add: empty_database_def)

theorem load_returns_appended_tail_witness:
  "load_events_after tree_codec no_faults 2 (append_batches tree_codec [pending_ops sample_store] empty_database)
    = Inr (filter (\<lambda>so. 2 < so_seq so) (pending_ops sample_store)) \<and>
   map so_seq (filter (\<lambda>so. 2 < so_seq so) (pending_ops sample_store)) = [3, 4]"
proof -
  have "length sample_cmds + 0 < 9223372036854775807" by (simp add: sample_cmds_def)
  from run_new_small [OF this sample_store_run] have "journal_ok (pending_ops sample_store)"
    by (auto simp: run_effect_def intro: seqs_journal_ok)
  moreover have "map so_seq (filter (\<lambda>so. 2 < so_seq so) (pending_ops sample_store)) = [3, 4]" by code_simp
  ultimately show ?thesis
    using load_returns_appended_tail [OF tree_codec_ok, of "[pending_ops sample_store]" 2] by simp
qed

text \<open>On an empty journal table \<open>latest_seq\<close> does not return 0: \<open>MAX(seq)\<close> yields one row
  whose column is NULL, reading it as \<open>i64\<close> fails, and \<open>append_ops\<close> of an empty batch fails
  with it. This is the state of a new database and of one whose journal was compacted.\<close>
theorem latest_seq_fails_on_empty_journal:
  assumes "db_events db = []"
  shows "latest_seq no_faults db = Inl (PeSqlite (InvalidColumnType 0 ''MAX(seq)'')) \<and>
    append_ops cdc no_faults [] db = (Inl (PeSqlite (InvalidColumnType 0 ''MAX(seq)'')), db)"
  using assms by (simp add: latest_seq_def append_ops_def select_max_seq_def)

theorem latest_seq_fails_on_empty_journal_witness:
  "latest_seq no_faults (empty_database :: tree database) = Inl (PeSqlite (InvalidColumnType 0 ''MAX(seq)''))"
  using latest_seq_fails_on_empty_journal [of "empty_database :: tree database"] by (simp add: empty_database_def)



subsection \<open>Opening a database\<close>

text \<open>Opening a database without a schema version initialises the version entries and keeps
  every event and snapshot; opening it again succeeds and changes nothing.\<close>
theorem open_initialises_once:
  assumes "Mapping.lookup (db_meta db) META_SCHEMA_VERSION = None"
  shows "\<exists>db'. init_connection no_faults no_faults db = (Inr (), db') \<and> meta_current (db_meta db') \<and>
    db_events db' = db_events db \<and> db_snapshots db' = db_snapshots db \<and>
    init_connection no_faults no_faults db' = (Inr (), db')"
proof -
  obtain t where "initialize_or_migrate_meta no_faults (db_meta db) = (Inr (), t)" "meta_current t"
    using initialize_fresh [OF assms] by blast
  with initialize_current [of t] show ?thesis
    by (simp add: init_connection_meta)
qed

theorem open_initialises_once_witness:
  "\<exists>db'. init_connection no_faults no_faults (empty_database :: tree database) = (Inr (), db') \<and>
    init_connection no_faults no_faults db' = (Inr (), db')"
  using open_initialises_once [of "empty_database :: tree database"] by (auto simp: empty_database_def)

text \<open>C39. A database written by a newer program is refused: a schema version above the supported
  one, or, under the supported schema, an operation format above the supported one, makes
  opening fail and leaves the whole database as it was.\<close>
theorem open_refuses_newer_formats:
  assumes "Mapping.lookup (db_meta db) META_SCHEMA_VERSION = Some (nat_to_string (unat sv))"
    and "sv > DB_SCHEMA_VERSION \<or> sv = DB_SCHEMA_VERSION \<and>
      Mapping.lookup (db_meta db) META_OP_FORMAT_VERSION = Some (nat_to_string (unat fv)) \<and> fv > (ucast OP_FORMAT_VERSION :: u32)"
  shows "\<exists>msg. init_connection no_faults no_faults db = (Inl (PeMessage msg), db)"
proof -
  have same: "db\<lparr>db_meta := db_meta db\<rparr> = db" by (cases db) simp
  have "\<exists>msg. initialize_or_migrate_meta no_faults (db_meta db) = (Inl (PeMessage msg), db_meta db)"
  proof (cases "sv > DB_SCHEMA_VERSION")
    case True
    with assms(1) show ?thesis
      by (auto simp: initialize_or_migrate_meta_def read_text_meta parse_u32_to_string)
  next
    case False
    with assms(2) have "sv = DB_SCHEMA_VERSION" "fv > ucast OP_FORMAT_VERSION"
      and fv: "Mapping.lookup (db_meta db) META_OP_FORMAT_VERSION = Some (nat_to_string (unat fv))" by auto
    with assms(1) ensure_version_found [OF fv, of "''op format''" "ucast OP_FORMAT_VERSION"] show ?thesis
      by (simp add: initialize_or_migrate_meta_def read_text_meta parse_u32_to_string ensure_meta_defaults_def)
  qed
  then show ?thesis
    by (auto simp: init_connection_meta same)
qed

theorem open_refuses_newer_formats_witness:
  "\<exists>msg. init_connection no_faults no_faults
      ((empty_database :: tree database)\<lparr>db_meta := Mapping.update META_SCHEMA_VERSION ''999'' Mapping.empty\<rparr>)
    = (Inl (PeMessage msg), (empty_database :: tree database)\<lparr>db_meta := Mapping.update META_SCHEMA_VERSION ''999'' Mapping.empty\<rparr>)"
proof -
  have "nat_to_string (unat (999 :: u32)) = ''999''" by code_simp
  then show ?thesis
    using open_refuses_newer_formats [of "(empty_database :: tree database)\<lparr>db_meta := Mapping.update META_SCHEMA_VERSION ''999'' Mapping.empty\<rparr>" 999]
    by (auto simp: DB_SCHEMA_VERSION_def)
qed

end
