(* ===== verification/Qso_Runtime_Properties.thy ===== *)
theory Qso_Runtime_Properties
  imports Qso_Runtime_Inv Qso_Sqlite_Properties
begin

section \<open>Properties of the runtime\<close>

text \<open>
  What a client of the runtime can rely on, over every interleaving of loop, worker and
  timer; and two schedules in which it cannot rely on what the documentation says. The
  statements about held operations are for the SQLite sink.
\<close>


subsection \<open>A sample system\<close>

definition sample_fmt :: fmt where
  "sample_fmt = \<lparr>debug_runtime_error = (\<lambda>_. ''runtime error''), debug_persist_error = (\<lambda>_. ''persist error'')\<rparr>"

definition durable_config :: runtime_config where
  "durable_config = default_config\<lparr>cfg_ack_mode := Durable\<rparr>"

text \<open>The engine fails at one call: the commit of an append, or the checkpoint of a flush.\<close>

definition failing_at :: "sql_call \<Rightarrow> sql_faults" where
  "failing_at c = (\<lambda>c'. if c' = c then Some (EngineFailure ''disk I/O error'') else None)"

definition sample_runtime :: "(sql_faults \<times> int) list \<Rightarrow> tree connection runtime" where
  "sample_runtime env = the (spawn_qsolog new_store (Some (empty_database, env)) durable_config)"

lemma sample_spawn:
  "spawn_qsolog new_store (Some (empty_database, env)) durable_config = Some (sample_runtime env)"
  by (simp add: sample_runtime_def spawn_qsolog_def durable_config_def default_config_def)

definition durable_insert :: "label list" where
  "durable_insert = [LCommand 0 (CInsert (sample_draft ''K1A'')), LProgress, LRecv, LRecv, LProgress]"

text \<open>The runs reach what they compute.\<close>

lemma run_from_spawn:
  "rt_run pf fm cfg sink ls rt0 = Some rt \<Longrightarrow> rt_reach pf fm cfg sink rt0 (length ls) rt"
  using rt_run_reach [OF _ rt_reach.start] by fastforce


subsection \<open>Safety\<close>

text \<open>C17. The loop task never panics and every rollback succeeds. Starting from a well-formed store
  with room for one more number than the steps taken, every enabled step of every interleaving
  succeeds and leaves a well-formed store; rolling back a mutation that the store has just
  accepted, and one whose flush the loop waits for, returns \<open>Ok\<close> with a well-formed store. The
  queue capacity must not be 0, otherwise spawning itself panics.\<close>
theorem runtime_never_panics:
  assumes "spawn_qsolog store o_sink cfg = Some rt0" and "store_inv store" and "room_for (Suc n) store"
    and "rt_reach pf fm cfg sink rt0 n rt" and "rt_exec pf fm cfg sink l rt = Some outcome"
  shows "(\<exists>rt'. outcome = Some rt' \<and> store_inv (rt_store rt')) \<and>
    (\<forall>ann cp so. waiting_for (rt_ctl rt) = Some (WaitMutation ann cp so) \<longrightarrow>
      (\<exists>st. rollback_mutation pf cp so (rt_store rt) = Ok () st \<and> store_inv st)) \<and>
    (\<forall>clk cmd ann so st1. run_mutation pf clk cmd (rt_store rt) = Ok (ann, so) st1 \<longrightarrow>
      (\<exists>st. rollback_mutation pf (take_checkpoint (rt_store rt)) so (clear_pending_ops st1) = Ok () st \<and> store_inv st))"
proof -
  have "rt_store_ok (n + 1) rt0" using rt_store_ok_spawn [OF assms(1-2)] assms(3) by simp
  then have ok: "rt_store_ok (Suc 0) rt" using rt_reach_store [OF assms(4)] by simp
  then have st: "store_inv (rt_store rt)" "has_room (rt_store rt)"
    using room_for_Suc by (auto simp: rt_store_ok_def)
  have "\<exists>st. rollback_mutation pf cp so (rt_store rt) = Ok () st \<and> store_inv st"
    if "waiting_for (rt_ctl rt) = Some (WaitMutation ann cp so)" for ann cp so
    using ok that rollback_inv by (fastforce simp: rt_store_ok_def rollbackable_def)
  moreover have "\<exists>st. rollback_mutation pf (take_checkpoint (rt_store rt)) so (clear_pending_ops st1) = Ok () st \<and> store_inv st"
    if "run_mutation pf clk cmd (rt_store rt) = Ok (ann, so) st1" for clk cmd ann so st1
    by (rule run_mutation_cases [OF st, of pf clk cmd]) (use that rollback_inv [OF st(1)] in fastforce)+
  ultimately show ?thesis
    using rt_exec_ok [OF ok assms(5)] by (auto simp: rt_store_ok_def)
qed

theorem runtime_never_panics_witness:
  "\<exists>rt'. rt_exec dev_profile sample_fmt durable_config (sqlite_sink tree_codec) (LCommand 0 CUndo) (sample_runtime [])
      = Some (Some rt') \<and> store_inv (rt_store rt')"
proof -
  have "rt_ctl (sample_runtime []) = Idle"
    by (simp add: sample_runtime_def spawn_qsolog_def durable_config_def default_config_def)
  then obtain outcome where
    "rt_exec dev_profile sample_fmt durable_config (sqlite_sink tree_codec) (LCommand 0 CUndo) (sample_runtime []) = Some outcome"
    by simp
  with runtime_never_panics [OF sample_spawn store_inv_new room_for_new rt_reach.start this] show ?thesis by auto
qed

text \<open>The wait of the loop always ends: in every reachable state in which the loop waits for
  a reply, as many receives of the worker as there are queued messages, and one step of the loop,
  end the wait. Worker and loop cannot deadlock.\<close>
theorem waiting_loop_is_answered:
  assumes "spawn_qsolog store o_sink cfg = Some rt0" and "store_inv store" and "room_for n store"
    and "rt_reach pf fm cfg sink rt0 n rt" and "rt_ctl rt = Awaiting wt" and "rt_worker rt = Some w"
  shows "\<exists>rt'. rt_run pf fm cfg sink (replicate (length (wk_queue w)) LRecv @ [LProgress]) rt = Some rt' \<and>
    (\<forall>wt'. rt_ctl rt' \<noteq> Awaiting wt')"
  using wait_ends [OF protocol_reach [OF assms(4) protocol_spawn [OF assms(1)]], of 0] assms(5,6)
    rt_reach_store [OF assms(4), of 0] rt_store_ok_spawn [OF assms(1,2)] assms(3)
  by simp

theorem waiting_loop_is_answered_witness:
  "\<exists>rt' rt'' w. rt_run dev_profile sample_fmt durable_config (sqlite_sink tree_codec) (take 2 durable_insert) (sample_runtime []) = Some rt' \<and>
    rt_worker rt' = Some w \<and>
    rt_run dev_profile sample_fmt durable_config (sqlite_sink tree_codec) (replicate (length (wk_queue w)) LRecv @ [LProgress]) rt' = Some rt''"
proof -
  let ?run = "rt_run dev_profile sample_fmt durable_config (sqlite_sink tree_codec) (take 2 durable_insert) (sample_runtime [])"
  have "(case ?run of None \<Rightarrow> False | Some rt \<Rightarrow> rt_worker rt \<noteq> None \<and> (case rt_ctl rt of Awaiting wt \<Rightarrow> True | _ \<Rightarrow> False))"
    by code_simp
  then obtain rt wt w where rt: "?run = Some rt" "rt_ctl rt = Awaiting wt" "rt_worker rt = Some w"
    by (auto split: option.splits ctl.splits)
  have "rt_reach dev_profile sample_fmt durable_config (sqlite_sink tree_codec) (sample_runtime []) 2 rt"
    using run_from_spawn [OF rt(1)] by (simp add: durable_insert_def numeral_2_eq_2)
  from waiting_loop_is_answered [OF sample_spawn store_inv_new room_for_new this rt(2,3)] rt(1,3) show ?thesis
    by auto
qed


subsection \<open>Acknowledgment and durability\<close>

text \<open>C8. Durable acknowledgment, with the condition under which it is true. When the loop is about
  to acknowledge a mutation in durable mode, the operation's row is in the SQLite journal, unless
  the worker has reported an append error that the loop has not looked at yet.\<close>
theorem durable_ack_implies_row:
  assumes "spawn_qsolog store o_sink cfg = Some rt0"
    and "rt_reach pf fm cfg (sqlite_sink cdc) rt0 n rt" and "rt_worker rt = Some w"
    and "rt_ctl rt = Awaiting (WaitMutation ann cp so)" and "wk_reply w = Some rep"
    and "\<forall>e. Inl e \<notin> set (wk_durable w)"
  shows "entry_row cdc so \<in> set (db_events (fst (wk_sink w)))"
  using sqlite.durable_reply_held [OF assms(2,1,3,4,5)] assms(6) by (simp add: reported_error_def)

theorem durable_ack_implies_row_witness:
  "\<exists>rt w so. rt_run dev_profile sample_fmt durable_config (sqlite_sink tree_codec) (take 4 durable_insert) (sample_runtime []) = Some rt \<and>
    rt_worker rt = Some w \<and> entry_row tree_codec so \<in> set (db_events (fst (wk_sink w)))"
proof -
  let ?run = "rt_run dev_profile sample_fmt durable_config (sqlite_sink tree_codec) (take 4 durable_insert) (sample_runtime [])"
  have "(case ?run of None \<Rightarrow> False | Some rt \<Rightarrow>
      (case rt_worker rt of None \<Rightarrow> False | Some w \<Rightarrow> wk_reply w \<noteq> None \<and> wk_durable w = [Inr 1]) \<and>
      (case rt_ctl rt of Awaiting (WaitMutation ann cp so) \<Rightarrow> True | _ \<Rightarrow> False))"
    by code_simp
  then obtain rt w rep ann cp so where rt: "?run = Some rt" "rt_worker rt = Some w" "wk_reply w = Some rep"
      "wk_durable w = [Inr 1]" "rt_ctl rt = Awaiting (WaitMutation ann cp so)"
    by (auto split: option.splits ctl.splits wait.splits)
  have "\<forall>e. Inl e \<notin> set (wk_durable w)" by (simp add: rt(4))
  from durable_ack_implies_row [OF sample_spawn run_from_spawn [OF rt(1)] rt(2,5,3) this] rt(1,2) show ?thesis
    by blast
qed

subsection \<open>Where durable mode fails\<close>

text \<open>The operation of an insert, and the state of loop and worker once it is queued.\<close>

definition inserted_op :: "int \<Rightarrow> qso_draft \<Rightarrow> qso_store \<Rightarrow> stored_op" where
  "inserted_op clk d st = \<lparr>so_seq = next_op_seq st, so_ts_ms = now_ms clk,
    so_op = OpInsert (record_of_draft (next_qso_id st) d)\<rparr>"

definition quiet_durable :: "runtime_config \<Rightarrow> 's runtime \<Rightarrow> 's worker \<Rightarrow> bool" where
  "quiet_durable cfg rt w \<longleftrightarrow> cfg_ack_mode cfg = Durable \<and> 0 < cfg_persist_queue_bound cfg \<and>
    (cfg_snapshot_every_ops cfg = 0 \<or> rt_ops_since_snapshot rt + 1 < cfg_snapshot_every_ops cfg) \<and>
    rt_ctl rt = Idle \<and> is_healthy (rt_health rt) \<and> store_inv (rt_store rt) \<and> has_room (rt_store rt) \<and>
    rt_worker rt = Some w \<and> wk_running w \<and> wk_queue w = [] \<and> wk_buf w = []"

definition insert_schedule :: "int \<Rightarrow> qso_draft \<Rightarrow> label list" where
  "insert_schedule clk d = [LCommand clk (CInsert d), LRecv, LProgress, LRecv, LProgress]"

lemma run_insert:
  assumes "store_inv st" "has_room st"
  obtains st1 where "run_mutation pf clk (CInsert d) st = Ok (AnnInsert (next_qso_id st), inserted_op clk d st) st1"
    "run_cmd pf clk (CmdInsert d) st = Ok (inserted_op clk d st) st1"
    "store_get (next_qso_id st) st1 = Some (record_of_draft (next_qso_id st) d)"
proof -
  let ?i = "next_qso_id st" and ?r = "record_of_draft (next_qso_id st) d"
  obtain so st1 where run: "run_cmd pf clk (CmdInsert d) st = Ok so st1" "cmd_effect (CmdInsert d) (OpInsert ?r) so st st1"
      "log_of st1 = log_of st @ [?r]" "so_ts_ms so = now_ms clk"
    using run_cmd_Ok [OF assms _ cmd_insert_applies [OF assms(1)], of "CmdInsert d" d pf clk] by auto
  then have so: "so = inserted_op clk d st" by (cases so) (simp add: inserted_op_def cmd_effect_def)
  from run(1) obtain i where ins: "store_insert pf clk d st = Ok (i, so) st1" by (auto simp: and_then_Ok_iff)
  moreover from this have "i = ?i"
    by (auto simp: store_insert_def and_then_Ok_iff Let_def split: option.splits)
  ultimately have "run_mutation pf clk (CInsert d) st = Ok (AnnInsert ?i, so) st1"
    by (simp add: run_mutation_def)
  moreover have "store_wf st1" using cmd_effect_inv [OF run(2)] by (simp add: store_inv_def)
  then have "store_get ?i st1 = Some ?r"
    using fresh_id [OF assms(1)] log_find_None [of ?i "log_of st"]
    by (simp add: store_get_def wf_lookup run(3) log_find_append) (simp add: log_find_def record_of_draft_def)
  ultimately show thesis using that run(1) so by simp
qed

lemma insert_queued:
  assumes q: "quiet_durable cfg rt w"
  obtains st1 where "run_cmd pf clk (CmdInsert d) (rt_store rt) = Ok (inserted_op clk d (rt_store rt)) st1"
    "store_get (next_qso_id (rt_store rt)) st1 = Some (record_of_draft (next_qso_id (rt_store rt)) d)"
    "handle_command pf fm cfg clk (CInsert d) rt = Some (rt\<lparr>rt_store := clear_pending_ops st1,
      rt_worker := Some (w\<lparr>wk_queue := [MsgOp (inserted_op clk d (rt_store rt))]\<rparr>),
      rt_ctl := Sending MsgFlush (WaitMutation (AnnInsert (next_qso_id (rt_store rt))) (take_checkpoint (rt_store rt))
        (inserted_op clk d (rt_store rt)))\<rparr>)"
proof -
  have st: "store_inv (rt_store rt)" "has_room (rt_store rt)" using q by (simp_all add: quiet_durable_def)
  obtain st1 where run: "run_mutation pf clk (CInsert d) (rt_store rt)
        = Ok (AnnInsert (next_qso_id (rt_store rt)), inserted_op clk d (rt_store rt)) st1"
      "run_cmd pf clk (CmdInsert d) (rt_store rt) = Ok (inserted_op clk d (rt_store rt)) st1"
      "store_get (next_qso_id (rt_store rt)) st1 = Some (record_of_draft (next_qso_id (rt_store rt)) d)"
    by (rule run_insert [OF st])
  with q that show thesis
    by (simp add: quiet_durable_def handle_command_def handle_mutation_def ensure_mutation_allowed_def
        persist_after_mutation_def enqueue_persist_def Let_def)
qed

text \<open>C26. The condition of C8 matters. In durable mode with \<open>flush_on_insert\<close>, as by default, let
  the runtime be idle and healthy with nothing in flight, no automatic checkpoint due, and let the
  next append to SQLite fail and the flush after it succeed. Whatever draft is inserted, there is
  a schedule in which the client is told \<open>Ok\<close> and the event is sent, though the append failed and
  the journal, the buffer and the queue hold what they held before: the worker appends an insert
  as soon as it receives it and drops the failed batch, so the flush that the loop waits for finds
  an empty buffer and succeeds.\<close>
theorem durable_mode_acknowledges_lost_insert:
  assumes "quiet_durable cfg rt w" and "cfg_flush_on_insert cfg"
    and "sink_append_ops (sqlite_sink cdc) [inserted_op clk d (rt_store rt)] (wk_sink w) = (Inl e, c)"
    and "sink_flush (sqlite_sink cdc) c = (Inr (), c')"
  shows "\<exists>rt' w'. rt_run pf fm cfg (sqlite_sink cdc) (insert_schedule clk d) rt = Some rt' \<and>
    rt_responses rt' = rt_responses rt @ [RespId (Inr (next_qso_id (rt_store rt)))] \<and>
    rt_events rt' = rt_events rt @ [EvInserted (next_qso_id (rt_store rt))] \<and>
    store_get (next_qso_id (rt_store rt)) (rt_store rt') = Some (record_of_draft (next_qso_id (rt_store rt)) d) \<and>
    rt_worker rt' = Some w' \<and> mset (db_events (fst (wk_sink w'))) = mset (db_events (fst (wk_sink w))) \<and>
    wk_buf w' = [] \<and> wk_queue w' = []"
proof -
  obtain st1 where cmd: "store_get (next_qso_id (rt_store rt)) st1 = Some (record_of_draft (next_qso_id (rt_store rt)) d)"
    "handle_command pf fm cfg clk (CInsert d) rt = Some (rt\<lparr>rt_store := clear_pending_ops st1,
      rt_worker := Some (w\<lparr>wk_queue := [MsgOp (inserted_op clk d (rt_store rt))]\<rparr>),
      rt_ctl := Sending MsgFlush (WaitMutation (AnnInsert (next_qso_id (rt_store rt))) (take_checkpoint (rt_store rt))
        (inserted_op clk d (rt_store rt)))\<rparr>)"
    by (rule insert_queued [OF assms(1)])
  have "mset (db_events (fst c')) = mset (db_events (fst (wk_sink w)))"
    using sqlite.append_err [OF assms(3)] sqlite.flush_held [OF assms(4)] by simp
  with assms cmd show ?thesis
    by (simp add: insert_schedule_def quiet_durable_def map_worker_def worker_recv_def loop_progress_def flush_buf_def
        append_and_flush_def mutation_accepted_def maybe_auto_checkpoint_def report_def Let_def inserted_op_def
        respond_def emit_def store_get_def clear_pending_ops_def)
qed

lemma sample_quiet:
  "quiet_durable durable_config (sample_runtime env) (new_worker (empty_database, env))"
  "quiet_durable (durable_config\<lparr>cfg_flush_on_insert := False\<rparr>) (sample_runtime env) (new_worker (empty_database, env))"
proof -
  have "has_room new_store" by (simp add: has_room_def) (simp add: new_store_def)
  then show "quiet_durable durable_config (sample_runtime env) (new_worker (empty_database, env))"
    "quiet_durable (durable_config\<lparr>cfg_flush_on_insert := False\<rparr>) (sample_runtime env) (new_worker (empty_database, env))"
    by (simp_all add: quiet_durable_def sample_runtime_def spawn_qsolog_def durable_config_def default_config_def
        default_persistence_state_def new_worker_def)
qed

lemma sample_runtime_sel:
  "rt_store (sample_runtime env) = new_store" "rt_responses (sample_runtime env) = []" "rt_events (sample_runtime env) = []"
  by (simp_all add: sample_runtime_def spawn_qsolog_def durable_config_def default_config_def)

theorem durable_mode_acknowledges_lost_insert_witness:
  "\<exists>(rt' :: tree connection runtime) w'. rt_run dev_profile sample_fmt durable_config (sqlite_sink tree_codec)
      (insert_schedule 0 (sample_draft ''K1A'')) (sample_runtime [(failing_at SqlCommit, 0)]) = Some rt' \<and>
    rt_responses rt' = [RespId (Inr 1)] \<and> rt_worker rt' = Some w' \<and> db_events (fst (wk_sink w')) = []"
proof -
  let ?env = "[(failing_at SqlCommit, 0)]"
  let ?so = "inserted_op 0 (sample_draft ''K1A'') new_store"
  have "(case sink_append_ops (sqlite_sink tree_codec) [?so] (empty_database, ?env) of
      (Inl e, c) \<Rightarrow> (case sink_flush (sqlite_sink tree_codec) c of (Inr _, _) \<Rightarrow> True | _ \<Rightarrow> False) | _ \<Rightarrow> False)"
    by code_simp
  then obtain e c c' where io: "sink_append_ops (sqlite_sink tree_codec) [?so] (empty_database, ?env) = (Inl e, c)"
      "sink_flush (sqlite_sink tree_codec) c = (Inr (), c')"
    by (auto split: prod.splits sum.splits)
  have sel: "next_qso_id new_store = 1" "wk_sink (new_worker (empty_database, ?env)) = (empty_database, ?env)"
    "cfg_flush_on_insert durable_config" "db_events empty_database = []"
    by (simp_all add: new_store_def default_store_def new_worker_def durable_config_def default_config_def empty_database_def)
  have "sink_append_ops (sqlite_sink tree_codec) [inserted_op 0 (sample_draft ''K1A'') (rt_store (sample_runtime ?env))]
      (wk_sink (new_worker (empty_database, ?env))) = (Inl e, c)"
    by (simp only: sample_runtime_sel sel io)
  from durable_mode_acknowledges_lost_insert [OF sample_quiet(1) sel(3) this io(2), of dev_profile sample_fmt]
  show ?thesis by (auto simp: sample_runtime_sel sel)
qed

text \<open>C27. The opposite divergence. In durable mode without \<open>flush_on_insert\<close> and with batches of more
  than one, in the same situation, let the append succeed and the flush after it fail. Whatever
  draft is inserted, the client gets the error and the store is rolled back, but the row of the
  operation stays in the journal, under the sequence number that the store gives to the next
  operation.\<close>
theorem rejected_insert_stays_in_journal:
  assumes "quiet_durable cfg rt w" and "\<not> cfg_flush_on_insert cfg" and "1 < cfg_batch_max_ops cfg"
    and "sink_append_ops (sqlite_sink cdc) [inserted_op clk d (rt_store rt)] (wk_sink w) = (Inr seq, c)"
    and "sink_flush (sqlite_sink cdc) c = (Inl e, c')"
  shows "\<exists>rt' w'. rt_run pf fm cfg (sqlite_sink cdc) (insert_schedule clk d) rt = Some rt' \<and>
    rt_responses rt' = rt_responses rt @ [RespId (Inl (RtPersist e))] \<and>
    rt_store rt' = (rt_store rt)\<lparr>redo := [], pending_ops := []\<rparr> \<and>
    rt_worker rt' = Some w' \<and>
    mset (db_events (fst (wk_sink w'))) =
      add_mset (entry_row cdc (inserted_op clk d (rt_store rt))) (mset (db_events (fst (wk_sink w)))) \<and>
    so_seq (inserted_op clk d (rt_store rt)) = next_op_seq (rt_store rt')"
proof -
  obtain st1 where run: "run_cmd pf clk (CmdInsert d) (rt_store rt) = Ok (inserted_op clk d (rt_store rt)) st1"
    and cmd: "handle_command pf fm cfg clk (CInsert d) rt = Some (rt\<lparr>rt_store := clear_pending_ops st1,
      rt_worker := Some (w\<lparr>wk_queue := [MsgOp (inserted_op clk d (rt_store rt))]\<rparr>),
      rt_ctl := Sending MsgFlush (WaitMutation (AnnInsert (next_qso_id (rt_store rt))) (take_checkpoint (rt_store rt))
        (inserted_op clk d (rt_store rt)))\<rparr>)"
    by (rule insert_queued [OF assms(1)])
  have st: "store_inv (rt_store rt)" "has_room (rt_store rt)" using assms(1) by (simp_all add: quiet_durable_def)
  note rolled_back = rollback_plain_cmd [OF st _ _ run, simplified]
  have "mset (db_events (fst c')) =
      add_mset (entry_row cdc (inserted_op clk d (rt_store rt))) (mset (db_events (fst (wk_sink w))))"
    using sqlite.append_ok [OF assms(4)] sqlite.flush_held [OF assms(5)] by simp
  with assms cmd rolled_back show ?thesis
    by (simp add: insert_schedule_def quiet_durable_def map_worker_def worker_recv_def loop_progress_def flush_buf_def
        append_and_flush_def mutation_rejected_def mark_persist_unhealthy_def report_def Let_def respond_def emit_def)
      (simp add: inserted_op_def)
qed

theorem rejected_insert_stays_in_journal_witness:
  "\<exists>(rt' :: tree connection runtime) w'. rt_run dev_profile sample_fmt (durable_config\<lparr>cfg_flush_on_insert := False\<rparr>)
      (sqlite_sink tree_codec) (insert_schedule 0 (sample_draft ''K1A''))
      (sample_runtime [(no_faults, 0), (failing_at SqlBatch, 0)]) = Some rt' \<and>
    next_op_seq (rt_store rt') = 1 \<and> rt_worker rt' = Some w' \<and> size (mset (db_events (fst (wk_sink w')))) = 1"
proof -
  let ?env = "[(no_faults, 0), (failing_at SqlBatch, 0)] :: (sql_faults \<times> int) list"
  let ?so = "inserted_op 0 (sample_draft ''K1A'') new_store"
  have "(case sink_append_ops (sqlite_sink tree_codec) [?so] (empty_database, ?env) of
      (Inr _, c) \<Rightarrow> (case sink_flush (sqlite_sink tree_codec) c of (Inl _, _) \<Rightarrow> True | _ \<Rightarrow> False) | _ \<Rightarrow> False)"
    by code_simp
  then obtain seq e c c' where io: "sink_append_ops (sqlite_sink tree_codec) [?so] (empty_database, ?env) = (Inr seq, c)"
      "sink_flush (sqlite_sink tree_codec) c = (Inl e, c')"
    by (auto split: prod.splits sum.splits)
  have sel: "next_op_seq new_store = 1" "wk_sink (new_worker (empty_database, ?env)) = (empty_database, ?env)"
    "\<not> cfg_flush_on_insert (durable_config\<lparr>cfg_flush_on_insert := False\<rparr>)"
    "1 < cfg_batch_max_ops (durable_config\<lparr>cfg_flush_on_insert := False\<rparr>)" "db_events empty_database = []"
    by (simp_all add: new_store_def default_store_def new_worker_def durable_config_def default_config_def empty_database_def)
  have "sink_append_ops (sqlite_sink tree_codec) [inserted_op 0 (sample_draft ''K1A'') (rt_store (sample_runtime ?env))]
      (wk_sink (new_worker (empty_database, ?env))) = (Inr seq, c)"
    by (simp only: sample_runtime_sel sel io)
  from rejected_insert_stays_in_journal [OF sample_quiet(2) sel(3,4) this io(2), of dev_profile sample_fmt]
  obtain rt' w' where rt': "rt_run dev_profile sample_fmt (durable_config\<lparr>cfg_flush_on_insert := False\<rparr>) (sqlite_sink tree_codec)
      (insert_schedule 0 (sample_draft ''K1A'')) (sample_runtime ?env) = Some rt'"
    "rt_store rt' = new_store\<lparr>redo := [], pending_ops := []\<rparr>" "rt_worker rt' = Some w'"
    "mset (db_events (fst (wk_sink w'))) = add_mset (entry_row tree_codec ?so) (mset (db_events (fst (wk_sink (new_worker (empty_database, ?env))))))"
    unfolding sample_runtime_sel by blast
  from rt'(2,4) have "next_op_seq (rt_store rt') = 1" "size (mset (db_events (fst (wk_sink w')))) = 1"
    by (simp_all add: sel)
  with rt'(1,3) show ?thesis by blast
qed


subsection \<open>What the worker can lose\<close>

text \<open>C25. Receiving a message keeps every operation that is held by the journal, buffered or queued,
  with two exceptions. The worker loses at most the batch it tried to append (the buffer, with the
  operation received), and then this very message makes it report an error to the loop; and a
  compacting checkpoint that answers \<open>Ok\<close>, so whose snapshot has been written, removes rows up to
  the sequence number of its snapshot.\<close>
theorem worker_accounts_for_operations:
  assumes "worker_recv fm cfg (sqlite_sink cdc) w = Some w'" and "wk_queue w = msg # rest"
  shows "(let rows = accounted (\<lambda>c. mset (db_events (fst c))) (entry_row cdc) in
    rows w' = rows w \<or>
    (\<exists>reports e. wk_durable w' = wk_durable w @ reports \<and> Inl e \<in> set reports) \<and> rows w' \<subseteq># rows w \<and>
      rows w \<subseteq># rows w' + image_mset (entry_row cdc) (mset (wk_buf w @ queued_ops [msg])) \<or>
    (\<exists>snap n gone. msg = MsgCheckpoint snap n True \<and> wk_reply w' = Some (ReplyCheckpoint (Inr ())) \<and>
      rows w = rows w' + gone \<and> (\<forall>row \<in># gone. ev_seq row \<le> as_i64 n)))"
proof -
  have w': "w' = worker_handle fm cfg (sqlite_sink cdc) msg (w\<lparr>wk_queue := rest\<rparr>)"
    using assms by (auto simp: worker_recv_def split: if_splits)
  show ?thesis
  proof (cases "compacting msg")
    case True
    then obtain snap n where msg: "msg = MsgCheckpoint snap n True" by (cases msg) simp_all
    then have "queued_ops [msg] = []" by simp
    with sqlite.compacting_accounts [of w snap n rest w' fm cfg cdc] assms(2) w' msg show ?thesis
      unfolding Let_def by (metis accounts_cases append_Nil2)
  next
    case False
    from accounts_cases [OF sqlite.worker_handle_accounts [OF False assms(2), of cdc fm cfg]] w' show ?thesis
      unfolding Let_def by blast
  qed
qed

text \<open>A worker with a buffered operation that receives an insert and appends both.\<close>

definition loaded_worker :: "tree connection worker" where
  "loaded_worker = (let so = inserted_op 0 (sample_draft ''K1A'') new_store in
    (new_worker (empty_database, []))\<lparr>wk_buf := [so], wk_queue := [MsgOp (so\<lparr>so_seq := 2\<rparr>)]\<rparr>)"

theorem worker_accounts_for_operations_witness:
  "\<exists>w'. worker_recv sample_fmt durable_config (sqlite_sink tree_codec) loaded_worker = Some w' \<and>
    size (accounted (\<lambda>c. mset (db_events (fst c))) (entry_row tree_codec) loaded_worker) = 2 \<and>
    accounted (\<lambda>c. mset (db_events (fst c))) (entry_row tree_codec) w' =
    accounted (\<lambda>c. mset (db_events (fst c))) (entry_row tree_codec) loaded_worker"
proof -
  let ?so = "inserted_op 0 (sample_draft ''K1A'') new_store"
  have "(case worker_recv sample_fmt durable_config (sqlite_sink tree_codec) loaded_worker of
      None \<Rightarrow> False | Some w' \<Rightarrow> wk_durable w' = [Inr 2])"
    by code_simp
  then obtain w' where w': "worker_recv sample_fmt durable_config (sqlite_sink tree_codec) loaded_worker = Some w'"
      "wk_durable w' = [Inr 2]"
    by (auto split: option.splits)
  have q: "wk_queue loaded_worker = [MsgOp (?so\<lparr>so_seq := 2\<rparr>)]" "wk_durable loaded_worker = []"
    "size (accounted (\<lambda>c. mset (db_events (fst c))) (entry_row tree_codec) loaded_worker) = 2"
    by (simp_all add: loaded_worker_def Let_def new_worker_def accounted_def empty_database_def)
  from worker_accounts_for_operations [OF w'(1) q(1)] w' q show ?thesis by (auto simp: Let_def)
qed


subsection \<open>Rejected mutations\<close>

text \<open>C29. A full persistence queue rejects an insert, a patch or a void and leaves no trace of it: when
  the store accepted the command, the client gets \<open>PersistQueueFull\<close>, the store is the
  one before the command with an empty redo stack, queue and worker are untouched, and an error
  event tells the last durable sequence number.\<close>
theorem full_queue_rejects_and_restores:
  assumes "store_inv (rt_store rt)" and "has_room (rt_store rt)"
    and "rt_worker rt = Some w" and "wk_running w" and "cfg_persist_queue_bound cfg \<le> length (wk_queue w)"
    and "ensure_mutation_allowed (cfg_ack_mode cfg) (rt_health rt) = Inr ()"
    and "cmd = CInsert d \<or> cmd = CPatch i p \<or> cmd = CVoid i"
    and "run_mutation pf clk cmd (rt_store rt) = Ok (ann, so) st1"
  shows "\<exists>rt'. handle_command pf fm cfg clk cmd rt = Some rt' \<and>
    rt_responses rt' = rt_responses rt @ [announce_error ann PersistQueueFull] \<and>
    rt_store rt' = (rt_store rt)\<lparr>redo := [], pending_ops := []\<rparr> \<and> rt_worker rt' = Some w \<and> rt_ctl rt' = Idle \<and>
    rt_events rt' = rt_events rt @
      [EvPersistenceError (debug_runtime_error fm PersistQueueFull) (last_durable_seq (rt_health rt))]"
proof -
  have cmd: "cmd_of cmd \<noteq> CmdUndo" "cmd_of cmd \<noteq> CmdRedo" using assms(7) by auto
  have "run_cmd pf clk (cmd_of cmd) (rt_store rt) = Ok so st1"
    using assms(8) by (simp add: run_mutation_cmd)
  from rollback_plain_cmd [OF assms(1,2) cmd this]
  have "rollback_mutation pf (take_checkpoint (rt_store rt)) so (clear_pending_ops st1)
      = Ok () ((rt_store rt)\<lparr>redo := [], pending_ops := []\<rparr>)" .
  moreover have "handle_command pf fm cfg clk cmd rt = handle_mutation pf fm cfg clk cmd rt"
    using assms(7) by (auto simp: handle_command_def)
  ultimately show ?thesis
    using assms(3-6,8)
    by (simp add: handle_mutation_def persist_after_mutation_def enqueue_persist_def mutation_rejected_def
        mark_persist_unhealthy_def Let_def)
qed

theorem full_queue_rejects_and_restores_witness:
  "\<exists>rt'. handle_command dev_profile sample_fmt (default_config\<lparr>cfg_persist_queue_bound := 1\<rparr>) 0 (CInsert (sample_draft ''K1A''))
      ((sample_runtime [])\<lparr>rt_worker := Some ((new_worker (empty_database, []))\<lparr>wk_queue := [MsgFlush]\<rparr>)\<rparr>) = Some rt' \<and>
    rt_responses rt' = [RespId (Inl PersistQueueFull)] \<and> rt_store rt' = new_store"
proof -
  let ?rt = "(sample_runtime [])\<lparr>rt_worker := Some ((new_worker (empty_database, []))\<lparr>wk_queue := [MsgFlush]\<rparr>)\<rparr>"
  have st: "rt_store (sample_runtime []) = new_store" "rt_responses (sample_runtime []) = []"
    by (simp_all add: sample_runtime_def spawn_qsolog_def durable_config_def default_config_def)
  have "store_inv (rt_store ?rt)" by (simp add: st)
  moreover have "has_room (rt_store ?rt)"
    by (simp add: st has_room_def) (simp add: new_store_def)
  moreover have "(case run_mutation dev_profile 0 (CInsert (sample_draft ''K1A'')) new_store of
      Ok (ann, so) st1 \<Rightarrow> ann = AnnInsert 1 | _ \<Rightarrow> False)" by code_simp
  then obtain so st1 where "run_mutation dev_profile 0 (CInsert (sample_draft ''K1A'')) (rt_store ?rt) = Ok (AnnInsert 1, so) st1"
    by (auto simp: st split: result.splits)
  moreover have "new_store\<lparr>redo := [], pending_ops := []\<rparr> = new_store"
    by (simp add: new_store_def default_store_def)
  ultimately show ?thesis
    using full_queue_rejects_and_restores [of ?rt _ "default_config\<lparr>cfg_persist_queue_bound := 1\<rparr>"
        "CInsert (sample_draft ''K1A'')" "sample_draft ''K1A''" _ _ dev_profile 0 "AnnInsert 1" so st1 sample_fmt]
    by (auto simp: st new_worker_def default_config_def ensure_mutation_allowed_def)
qed

text \<open>In durable mode an unhealthy persistence rejects every mutation before it touches the
  store: the last error is returned and nothing else changes.\<close>
theorem unhealthy_durable_rejects_mutations:
  assumes "cfg_ack_mode cfg = Durable" and "\<not> is_healthy (rt_health rt)" and "last_error (rt_health rt) = Some msg"
    and "cmd = CInsert d \<or> cmd = CPatch i p \<or> cmd = CVoid i \<or> cmd = CUndo \<or> cmd = CRedo"
  shows "handle_command pf fm cfg clk cmd rt = Some (respond (command_error cmd (PersistenceUnhealthy msg)) rt)"
  using assms by (auto simp: handle_command_def handle_mutation_def ensure_mutation_allowed_def)

theorem unhealthy_durable_rejects_mutations_witness:
  "handle_command dev_profile sample_fmt durable_config 0 CUndo
      (mark_persist_unhealthy ''down'' (sample_runtime []))
    = Some (respond (RespUnit (Inl (PersistenceUnhealthy ''down''))) (mark_persist_unhealthy ''down'' (sample_runtime [])))"
  using unhealthy_durable_rejects_mutations [of durable_config "mark_persist_unhealthy ''down'' (sample_runtime [])" "''down''" CUndo]
  by (simp add: durable_config_def mark_persist_unhealthy_def)

end
