(* ===== verification/Qso_Client_Properties.thy ===== *)
theory Qso_Client_Properties
  imports Qso_Acks Qso_Runtime_Properties
begin

section \<open>Properties of the client side\<close>

text \<open>
  What the methods of \<open>QsoLogHandle\<close> promise their callers, for any number of concurrent calls
  from any number of clones, over every interleaving with loop, worker and timer.
\<close>


subsection \<open>A sample run\<close>

definition sample_system :: "tree connection system" where
  "sample_system = \<lparr>sy_rt = sample_runtime [], sy_handles = 1, sy_queue = [], sy_serving = None, sy_calls = []\<rparr>"

lemma sample_system_spawn:
  "spawn_system new_store (Some (empty_database, [])) durable_config = Some sample_system"
  by (simp add: spawn_system_def sample_spawn sample_system_def)

definition sample_exec :: "event list \<Rightarrow> tree connection system option" where
  "sample_exec evs = sy_run dev_profile sample_fmt durable_config (sqlite_sink tree_codec) evs sample_system"

lemma sample_reach:
  "sample_exec evs = Some sy \<Longrightarrow>
    sy_reach dev_profile sample_fmt durable_config (sqlite_sink tree_codec) sample_system sy"
  unfolding sample_exec_def by (rule sy_run_reach [OF _ sy_reach.start])

text \<open>Two clients: one logs a contact and its call returns, the other has just asked for a
  shutdown, which is on the channel.\<close>

definition two_clients :: "event list" where
  "two_clients = [ECall 0 (CInsert (sample_draft ''K1A'')), ECall 0 CShutdown, ESend 0, ETake, ESend 1] @
    map EStep [LProgress, LRecv, LRecv, LProgress]"

lemma two_clients_run:
  obtains sy where "sample_exec two_clients = Some sy"
    "sy_calls sy = [CallReturned (CInsert (sample_draft ''K1A'')) (Some (GotId (Inr 1))), CallWaiting CShutdown]"
proof -
  have "(case sample_exec two_clients of None \<Rightarrow> False
      | Some sy \<Rightarrow> sy_calls sy = [CallReturned (CInsert (sample_draft ''K1A'')) (Some (GotId (Inr 1))), CallWaiting CShutdown])"
    by code_simp
  with that show thesis by (auto split: option.splits)
qed


subsection \<open>Calls\<close>

text \<open>C13. Every call can return: in each state that clients, loop, worker and timer can reach, some
  further steps of loop and worker (and the send of the call, if it has none yet) end any given
  call that its client did not abandon with a result, without any client giving up. There is no
  deadlock among full channels, one-shots, the loop and the worker; a shutdown, or even a panic of
  the loop, also ends the calls that wait.\<close>
theorem every_call_can_return:
  assumes "spawn_system store o_sink cfg = Some sy0" and "sy_reach pf fm cfg sink sy0 sy"
    and "k < length (sy_calls sy)" and "\<forall>cmd. sy_calls sy ! k \<noteq> CallAbandoned cmd"
  shows "\<exists>evs sy' cmd res. sy_run pf fm cfg sink evs sy = Some sy' \<and> (\<forall>n. EAbandon n \<notin> set evs) \<and>
    sy_calls sy' ! k = CallReturned cmd (Some res)"
proof -
  have ok: "sy_ok cfg sy" by (rule sy_reach_ok [OF assms(2,1)])
  have "\<not> gone (sy_calls sy ! k)" using assms(4) by (cases "sy_calls sy ! k") auto
  then obtain evs sy' where run: "sy_run pf fm cfg sink evs sy = Some sy'" "patient evs" and ret: "returned (sy_calls sy' ! k)"
    using call_can_return [OF ok assms(3)] by blast
  have "k < length (sy_calls sy')" using sy_run_go_on [OF run(1)] assms(3) by (simp add: calls_go_on_def)
  then have "well_returned (sy_calls sy' ! k)"
    using sy_run_ok [OF run(1) ok] by (simp add: sy_ok_def sy_inv_def calls_ok_def list_all_length)
  with ret run show ?thesis by (cases "sy_calls sy' ! k") (auto simp: patient_def)
qed

theorem every_call_can_return_witness:
  "\<exists>sy evs sy' cmd res. sample_exec two_clients = Some sy \<and> sy_calls sy ! 1 = CallWaiting CShutdown \<and>
    sy_run dev_profile sample_fmt durable_config (sqlite_sink tree_codec) evs sy = Some sy' \<and>
    sy_calls sy' ! 1 = CallReturned cmd (Some res)"
proof -
  obtain sy where sy: "sample_exec two_clients = Some sy"
    "sy_calls sy = [CallReturned (CInsert (sample_draft ''K1A'')) (Some (GotId (Inr 1))), CallWaiting CShutdown]"
    by (rule two_clients_run)
  then have "1 < length (sy_calls sy)" "\<forall>cmd. sy_calls sy ! 1 \<noteq> CallAbandoned cmd" by simp_all
  from every_call_can_return [OF sample_system_spawn sample_reach [OF sy(1)] this] sy show ?thesis by fastforce
qed

text \<open>A call returns a result of its method's type: an insert an id or an error, a query records or
  an error, a flush a sequence number or an error. The loop answers every command on the one-shot
  channel it came with, whichever of its branches handles it, directly, after the worker's reply,
  after an automatic checkpoint, or never, when the channel is closed. The source has this from the
  types of its one-shot senders; the model has one type \<open>response\<close> for all of them.\<close>
lemma calls_return_their_type:
  assumes "spawn_system store o_sink cfg = Some sy0" and "sy_reach pf fm cfg sink sy0 sy"
    and "CallReturned cmd r \<in> set (sy_calls sy)"
  shows "\<exists>res. r = Some res \<and> result_fits cmd res"
  using sy_reach_inv [OF assms(2,1)] assms(3) by (auto simp: sy_inv_def calls_ok_def list_all_iff)

text \<open>C24. A call that waits has exactly one sender, on the command channel or in the hands of the loop;
  every sender there is the only one of its call, which waits or was abandoned by its client; when
  the loop has ended, by shutdown, by losing its last handle or by a panic, no call waits any more.\<close>
theorem waiting_calls_have_one_sender:
  assumes "spawn_system store o_sink cfg = Some sy0" and "sy_reach pf fm cfg sink sy0 sy"
  shows "((n, cmd) \<in> waits (sy_calls sy) \<longrightarrow> count (mset (held sy)) (n, cmd) = 1) \<and>
    (count (mset (held sy)) (n, cmd) \<noteq> 0 \<longrightarrow>
      count (mset (held sy)) (n, cmd) = 1 \<and> (n, cmd) \<in> waits (sy_calls sy) \<union> abandoned (sy_calls sy)) \<and>
    (rt_ctl (sy_rt sy) = Stopped \<longrightarrow> waits (sy_calls sy) = {})"
proof -
  have inv: "sy_inv sy" by (rule sy_reach_inv [OF assms(2,1)])
  then have w: "waits (sy_calls sy) \<subseteq> set (held sy)" "set (held sy) \<subseteq> waits (sy_calls sy) \<union> abandoned (sy_calls sy)"
    and d: "distinct (held sy)"
    by (auto simp: sy_inv_def calls_ok_def distinct_map)
  have "held sy = []" if "rt_ctl (sy_rt sy) = Stopped"
    using inv that serves_not by (auto simp: sy_inv_def held_def split: option.splits)
  then have stopped: "rt_ctl (sy_rt sy) = Stopped \<longrightarrow> waits (sy_calls sy) = {}" using w(1) by auto
  have once: "count (mset (held sy)) (n, cmd) = (if (n, cmd) \<in> set (held sy) then 1 else 0)"
    using d unfolding distinct_count_atmost_1 by blast
  have "(n, cmd) \<in> waits (sy_calls sy) \<Longrightarrow> (n, cmd) \<in> set (held sy)"
    "(n, cmd) \<in> set (held sy) \<Longrightarrow> (n, cmd) \<in> waits (sy_calls sy) \<union> abandoned (sy_calls sy)"
    using w by blast+
  with stopped show ?thesis unfolding once by simp
qed

theorem waiting_calls_have_one_sender_witness:
  "\<exists>sy. sample_exec two_clients = Some sy \<and> count (mset (held sy)) (1, CShutdown) = 1"
proof -
  obtain sy where sy: "sample_exec two_clients = Some sy"
    "sy_calls sy = [CallReturned (CInsert (sample_draft ''K1A'')) (Some (GotId (Inr 1))), CallWaiting CShutdown]"
    by (rule two_clients_run)
  then have "(1, CShutdown) \<in> waits (sy_calls sy)" by (simp add: calls_at_def)
  with waiting_calls_have_one_sender [OF sample_system_spawn sample_reach [OF sy(1)], of 1 CShutdown] sy(1)
  show ?thesis by blast
qed


text \<open>C15. An insert that returned an id to any client stays: in every later state the store has a
  record under that id, and no other call was or will be given the same id, although the ids of
  rejected inserts are taken back by rollbacks and used again. The store must be well-formed and
  have room for as many numbers as there are events.\<close>
theorem acknowledged_inserts_are_kept:
  assumes "spawn_system store o_sink cfg = Some sy0" and "store_inv store" and "room_for (length evs) store"
    and "sy_run pf fm cfg sink evs sy0 = Some sy"
  shows "distinct (returned_ids sy) \<and>
    (\<forall>i \<in> set (returned_ids sy). \<exists>r. store_get i (rt_store (sy_rt sy)) = Some r \<and> qr_id r = i)"
proof -
  have acks: "sy_acks 0 sy" using sy_run_acks [OF assms(4)] spawn_acks [OF assms(1-3)] by simp
  then have "store_wf (rt_store (sy_rt sy))" by (simp add: sy_acks_def rt_store_ok_def store_inv_def)
  with returned_ids_kept [OF acks] wf_find show ?thesis
    unfolding store_get_def by (metis subsetD)
qed

theorem acknowledged_inserts_are_kept_witness:
  "\<exists>sy r. sample_exec two_clients = Some sy \<and> returned_ids sy = [1] \<and>
    store_get 1 (rt_store (sy_rt sy)) = Some r \<and> qr_id r = 1"
proof -
  obtain sy where sy: "sample_exec two_clients = Some sy"
    "sy_calls sy = [CallReturned (CInsert (sample_draft ''K1A'')) (Some (GotId (Inr 1))), CallWaiting CShutdown]"
    by (rule two_clients_run)
  have "room_for (length two_clients) new_store" by (rule room_for_new) (simp add: two_clients_def)
  from acknowledged_inserts_are_kept [OF sample_system_spawn store_inv_new this sy(1) [unfolded sample_exec_def]] sy
  show ?thesis by (auto simp: returned_ids_def)
qed


subsection \<open>Bounds\<close>

text \<open>C22. Memory stays bounded: the command channel never holds more than its 256 commands, the queue
  of the worker never more than \<open>persist_queue_bound\<close> messages, although operations are put on it
  without waiting and control messages with waiting, and between two messages the worker's buffer
  holds fewer than \<open>batch_max_ops\<close> operations (none when that is 0), whether or not its appends
  succeed.\<close>
theorem queues_stay_bounded:
  assumes "spawn_system store o_sink cfg = Some sy0" and "sy_reach pf fm cfg sink sy0 sy"
  shows "length (sy_queue sy) \<le> 256 \<and>
    (case rt_worker (sy_rt sy) of
       None \<Rightarrow> True
     | Some w \<Rightarrow> length (wk_queue w) \<le> cfg_persist_queue_bound cfg \<and>
         length (wk_buf w) < max 1 (cfg_batch_max_ops cfg))"
  using sy_reach_ok [OF assms(2,1)]
  by (auto simp: sy_ok_def sy_inv_def calls_ok_def CMD_CHANNEL_CAPACITY_def rt_bounded_def worker_bounded_def
      split: option.split)

theorem queues_stay_bounded_witness:
  "\<exists>sy w. sample_exec (two_clients @ [ETake, EStep LProgress]) = Some sy \<and> rt_worker (sy_rt sy) = Some w \<and>
    wk_queue w = [MsgShutdown] \<and> length (wk_queue w) \<le> 64 \<and> length (wk_buf w) < 32"
proof -
  have "(case sample_exec (two_clients @ [ETake, EStep LProgress]) of None \<Rightarrow> False
      | Some sy \<Rightarrow> (case rt_worker (sy_rt sy) of None \<Rightarrow> False | Some w \<Rightarrow> wk_queue w = [MsgShutdown]))"
    by code_simp
  then obtain sy w where sy: "sample_exec (two_clients @ [ETake, EStep LProgress]) = Some sy"
      "rt_worker (sy_rt sy) = Some w" "wk_queue w = [MsgShutdown]"
    by (auto split: option.splits)
  from queues_stay_bounded [OF sample_system_spawn sample_reach [OF sy(1)]] sy show ?thesis
    by (auto simp: durable_config_def default_config_def)
qed

end
