(* ===== verification/Qso_Events.thy ===== *)
theory Qso_Events
  imports Qso_Acks "HOL-Library.Sublist"
begin

section \<open>The event stream (runtime/events.rs, QsoLogHandle::subscribe)\<close>

text \<open>
  Events go to a broadcast channel of 1024 places; \<open>subscribe\<close> gives a receiver of the events
  sent from then on. The channel is closed when every handle is dropped and the loop has
  ended. The receivers are put around the clients of \<^verbatim>\<open>Qso_Client\<close>; the \<open>recv\<close> of the
  channel is a parameter with the documented behaviour of a broadcast channel.
\<close>


subsection \<open>Receivers\<close>

datatype received = Got qso_event | Lagged nat | ClosedStream

definition EVENTS_CAPACITY :: nat where
  "EVENTS_CAPACITY = 1024"

text \<open>\<open>rcv_start\<close> is how many events had been sent when the receiver was made, \<open>rcv_next\<close> the
  position of the next one it will get, \<open>rcv_got\<close> what its calls of \<open>recv\<close> have returned.\<close>

record receiver =
  rcv_start :: nat
  rcv_next :: nat
  rcv_got :: "received list"

record 's hub =
  hub_sy :: "'s system"
  hub_subs :: "receiver list"

definition events_of :: "'s system \<Rightarrow> qso_event list" where
  "events_of sy = rt_events (sy_rt sy)"

definition stream_closed :: "'s system \<Rightarrow> bool" where
  "stream_closed sy \<longleftrightarrow> sy_handles sy = 0 \<and> rt_ctl (sy_rt sy) = Stopped"

definition subscribe :: "'s hub \<Rightarrow> 's hub option" where
  "subscribe h =
    (if 0 < sy_handles (hub_sy h)
     then (let n = length (events_of (hub_sy h))
           in Some (h\<lparr>hub_subs := hub_subs h @ [\<lparr>rcv_start = n, rcv_next = n, rcv_got = []\<rparr>]\<rparr>))
     else None)"

text \<open>\<open>recv n es closed\<close>: what the channel gives a receiver at position \<open>n\<close> when \<open>es\<close> is all that was
  sent, and where the receiver is then; \<open>None\<close>: it waits.\<close>

type_synonym recv = "nat \<Rightarrow> qso_event list \<Rightarrow> bool \<Rightarrow> (received \<times> nat) option"

definition receive :: "recv \<Rightarrow> 's system \<Rightarrow> receiver \<Rightarrow> receiver option" where
  "receive recv sy r =
    map_option (\<lambda>(res, n). r\<lparr>rcv_next := n, rcv_got := rcv_got r @ [res]\<rparr>)
      (recv (rcv_next r) (events_of sy) (stream_closed sy))"

datatype hub_event = HSystem event | HSubscribe | HReceive nat

fun hub_exec :: "profile \<Rightarrow> fmt \<Rightarrow> runtime_config \<Rightarrow> 's op_sink \<Rightarrow> recv \<Rightarrow> hub_event \<Rightarrow> 's hub \<Rightarrow> 's hub option" where
  "hub_exec pf fm cfg sink recv (HSystem ev) h =
    map_option (\<lambda>sy. h\<lparr>hub_sy := sy\<rparr>) (sy_exec pf fm cfg sink ev (hub_sy h))"
| "hub_exec pf fm cfg sink recv HSubscribe h = subscribe h"
| "hub_exec pf fm cfg sink recv (HReceive k) h =
    (if k < length (hub_subs h)
     then map_option (\<lambda>r. h\<lparr>hub_subs := (hub_subs h)[k := r]\<rparr>) (receive recv (hub_sy h) (hub_subs h ! k))
     else None)"

fun hub_run :: "profile \<Rightarrow> fmt \<Rightarrow> runtime_config \<Rightarrow> 's op_sink \<Rightarrow> recv \<Rightarrow> hub_event list \<Rightarrow> 's hub \<Rightarrow> 's hub option" where
  "hub_run pf fm cfg sink recv [] h = Some h"
| "hub_run pf fm cfg sink recv (ev # evs) h =
    (case hub_exec pf fm cfg sink recv ev h of None \<Rightarrow> None | Some h' \<Rightarrow> hub_run pf fm cfg sink recv evs h')"

definition spawn_hub :: "qso_store \<Rightarrow> 's option \<Rightarrow> runtime_config \<Rightarrow> 's hub option" where
  "spawn_hub store o_sink cfg = map_option (\<lambda>sy. \<lparr>hub_sy = sy, hub_subs = []\<rparr>) (spawn_system store o_sink cfg)"


subsection \<open>Events are only added, and none after the end of the loop\<close>

definition events_grow :: "'s runtime \<Rightarrow> 's runtime \<Rightarrow> bool" where
  "events_grow rt rt' \<longleftrightarrow> prefix (rt_events rt) (rt_events rt') \<and>
    (rt_ctl rt = Stopped \<longrightarrow> rt_ctl rt' = Stopped \<and> rt_events rt' = rt_events rt)"

lemma mark_events [simp]:
  "rt_events (mark_persist_unhealthy m rt) = rt_events rt @ [EvPersistenceError m (last_durable_seq (rt_health rt))]"
  by (simp add: mark_persist_unhealthy_def)

lemma accepted_events: "rt_events (mutation_accepted cfg ann rt) = rt_events rt @ [announce_event ann]"
  by (auto simp: mutation_accepted_def maybe_auto_checkpoint_def Let_def split: announce.split)

lemma rejected_events: "mutation_rejected pf ann cp so e rt = Some rt' \<Longrightarrow> rt_events rt' = rt_events rt"
  by (auto simp: mutation_rejected_def split: result.splits)

lemma persist_after_events:
  "persist_after_mutation pf fm cfg ann cp so rt = Some rt' \<Longrightarrow> prefix (rt_events rt) (rt_events rt')"
  by (auto simp: persist_after_mutation_def Let_def accepted_events split: option.splits sum.splits if_splits
      dest!: rejected_events)

lemma handle_mutation_events:
  "handle_mutation pf fm cfg clk cmd rt = Some rt' \<Longrightarrow> prefix (rt_events rt) (rt_events rt')"
  by (auto simp: handle_mutation_def Let_def split: sum.splits result.splits dest!: persist_after_events)

lemma handle_command_events:
  assumes "handle_command pf fm cfg clk cmd rt = Some rt'"
  shows "prefix (rt_events rt) (rt_events rt')"
proof (cases "handle_mutation pf fm cfg clk cmd rt = Some rt'")
  case False
  with assms show ?thesis by (cases cmd) (auto simp: handle_command_def split: option.splits)
qed (rule handle_mutation_events)

lemma resume_events: "resume pf fm cfg wt rep rt = Some rt' \<Longrightarrow> prefix (rt_events rt) (rt_events rt')"
  by (cases "(pf, fm, cfg, wt, rep, rt)" rule: resume.cases) (auto simp: accepted_events dest!: rejected_events)

lemma progress_events:
  assumes "loop_progress pf fm cfg rt = Some (Some rt')"
  shows "prefix (rt_events rt) (rt_events rt')"
proof -
  obtain w where w: "rt_worker rt = Some w"
    using assms by (auto simp: loop_progress_def split: option.splits)
  show ?thesis
  proof (cases "rt_ctl rt")
    case (Sending m wt)
    have "send_failed pf fm cfg wt rt = Some rt' \<Longrightarrow> ?thesis"
      by (cases wt) (auto simp del: resume.simps dest!: resume_events)
    with assms w Sending show ?thesis
      by (auto simp: loop_progress_def split: if_splits)
  next
    case (Awaiting wt)
    with assms w show ?thesis
      by (auto simp: loop_progress_def simp del: resume.simps split: option.splits if_splits dest!: resume_events)
  qed (use assms in \<open>simp_all add: idle_no_progress\<close>)
qed

lemma rt_exec_events:
  assumes "rt_exec pf fm cfg sink l rt = Some (Some rt')"
  shows "events_grow rt rt'"
proof (cases l)
  case (LCommand clk cmd)
  with assms show ?thesis
    by (auto simp: events_grow_def split: if_splits dest!: handle_command_events)
next
  case LProgress
  with assms show ?thesis
    by (auto simp: events_grow_def idle_no_progress dest: progress_events)
next
  case LDurable
  then obtain w msg rest where "rt_ctl rt = Idle"
      "rt' = handle_durable fm msg (rt\<lparr>rt_worker := Some (w\<lparr>wk_durable := rest\<rparr>)\<rparr>)"
    using assms by (auto elim!: loop_durable_cases)
  then show ?thesis by (auto simp: events_grow_def handle_durable_def split: sum.split)
qed (use assms in \<open>auto simp: events_grow_def map_worker_def split: option.splits if_splits\<close>)

lemma events_grow_refl: "events_grow rt rt"
  by (simp add: events_grow_def)

lemma sy_exec_events:
  assumes "sy_exec pf fm cfg sink ev sy = Some sy'"
  shows "events_grow (sy_rt sy) (sy_rt sy')"
  using assms
  by (cases rule: sy_exec_rt) (auto simp: events_grow_refl rt_exec_events, simp add: events_grow_def)

text \<open>Once closed, the stream stays closed: there is no handle left to make a new one.\<close>

lemma settle_handles [simp]: "sy_handles (settle o_rt sy) = sy_handles sy"
  by (auto simp: settle_def close_channel_def deliver_def split: option.split)

lemma closed_stays:
  assumes "sy_exec pf fm cfg sink ev sy = Some sy'" "stream_closed sy"
  shows "stream_closed sy' \<and> events_of sy' = events_of sy"
proof -
  have "rt_ctl (sy_rt sy') = Stopped \<and> events_of sy' = events_of sy"
    using sy_exec_events [OF assms(1)] assms(2) by (simp add: events_grow_def stream_closed_def events_of_def)
  moreover have "sy_handles sy' = 0"
    using assms
    by (cases ev) (auto simp: stream_closed_def split: if_splits option.splits list.splits call.splits
        simp del: rt_exec.simps)
  ultimately show ?thesis by (simp add: stream_closed_def)
qed


subsection \<open>What a receiver gets\<close>

text \<open>Reading a receiver's results off the events sent: what is left, if they agree.\<close>

fun consume :: "received list \<Rightarrow> qso_event list \<Rightarrow> qso_event list option" where
  "consume [] es = Some es"
| "consume (Got e # rs) es = (case es of x # xs \<Rightarrow> if x = e then consume rs xs else None | [] \<Rightarrow> None)"
| "consume (Lagged n # rs) es = (if 0 < n \<and> n \<le> length es then consume rs (drop n es) else None)"
| "consume (ClosedStream # rs) es = (if es = [] then consume rs es else None)"

lemma consume_append:
  "consume (rs @ rs') es = (case consume rs es of None \<Rightarrow> None | Some es' \<Rightarrow> consume rs' es')"
  by (induction rs es rule: consume.induct) (simp_all split: list.split)

text \<open>Events sent later stay unread, unless the stream was already closed.\<close>

lemma consume_more:
  "consume rs es = Some left \<Longrightarrow> ClosedStream \<notin> set rs \<or> later = [] \<Longrightarrow> consume rs (es @ later) = Some (left @ later)"
  by (induction rs es rule: consume.induct) (auto split: list.splits if_splits)

definition receiver_ok :: "'s system \<Rightarrow> receiver \<Rightarrow> bool" where
  "receiver_ok sy r \<longleftrightarrow> rcv_next r \<le> length (events_of sy) \<and>
    consume (rcv_got r) (drop (rcv_start r) (events_of sy)) = Some (drop (rcv_next r) (events_of sy)) \<and>
    (ClosedStream \<in> set (rcv_got r) \<longrightarrow> stream_closed sy) \<and> rcv_start r \<le> rcv_next r"

lemma receiver_ok_step:
  assumes ok: "receiver_ok sy r" and run: "sy_exec pf fm cfg sink ev sy = Some sy'"
  shows "receiver_ok sy' r"
proof (cases "ClosedStream \<in> set (rcv_got r)")
  case True
  then have "stream_closed sy" using ok by (simp add: receiver_ok_def)
  from closed_stays [OF run this] ok show ?thesis by (simp add: receiver_ok_def)
next
  case False
  obtain later where later: "events_of sy' = events_of sy @ later"
    using sy_exec_events [OF run] by (auto simp: events_grow_def events_of_def prefix_def)
  have le: "rcv_next r \<le> length (events_of sy)" "rcv_start r \<le> length (events_of sy)"
    using ok by (simp_all add: receiver_ok_def)
  have "consume (rcv_got r) (drop (rcv_start r) (events_of sy) @ later) = Some (drop (rcv_next r) (events_of sy) @ later)"
    using consume_more False ok by (simp add: receiver_ok_def)
  with ok False le show ?thesis by (simp add: receiver_ok_def later)
qed

definition hub_ok :: "'s hub \<Rightarrow> bool" where
  "hub_ok h \<longleftrightarrow> list_all (receiver_ok (hub_sy h)) (hub_subs h)"

text \<open>What a broadcast channel promises a receiver: the events in order, none twice; a receiver that is
  further behind than the capacity is told how many events it has missed; the end of the stream
  after the last event.\<close>

locale broadcast =
  fixes recv :: recv
  assumes recv_got: "recv n es closed = Some (Got e, n') \<Longrightarrow> n < length es \<and> e = es ! n \<and> n' = n + 1"
    and recv_lagged: "recv n es closed = Some (Lagged m, n') \<Longrightarrow>
      0 < m \<and> n' = n + m \<and> n' \<le> length es \<and> EVENTS_CAPACITY < length es - n"
    and recv_closed: "recv n es closed = Some (ClosedStream, n') \<Longrightarrow> closed \<and> length es \<le> n \<and> n' = n"
begin

lemma receive_ok:
  assumes ok: "receiver_ok sy r" and run: "receive recv sy r = Some r'"
  shows "receiver_ok sy r'"
proof -
  obtain res n where res: "recv (rcv_next r) (events_of sy) (stream_closed sy) = Some (res, n)"
    and r': "r' = r\<lparr>rcv_next := n, rcv_got := rcv_got r @ [res]\<rparr>"
    using run by (auto simp: receive_def)
  show ?thesis
  proof (cases res)
    case (Got e)
    with recv_got [OF res [unfolded Got]] ok show ?thesis
      by (auto simp: r' receiver_ok_def consume_append Cons_nth_drop_Suc [symmetric])
  next
    case (Lagged m)
    with recv_lagged [OF res [unfolded Lagged]] ok show ?thesis
      by (auto simp: r' receiver_ok_def consume_append add.commute)
  next
    case ClosedStream
    with recv_closed [OF res [unfolded ClosedStream]] ok show ?thesis
      by (auto simp: r' receiver_ok_def consume_append)
  qed
qed

lemma hub_exec_ok:
  assumes ok: "hub_ok h" and run: "hub_exec pf fm cfg sink recv ev h = Some h'"
  shows "hub_ok h'"
proof (cases ev)
  case (HSystem e)
  then obtain sy where sy: "sy_exec pf fm cfg sink e (hub_sy h) = Some sy" "h' = h\<lparr>hub_sy := sy\<rparr>"
    using run by auto
  from receiver_ok_step [OF _ sy(1)] ok show ?thesis by (simp add: hub_ok_def sy(2) list_all_iff)
next
  case HSubscribe
  with assms show ?thesis
    by (auto simp: hub_ok_def subscribe_def receiver_ok_def Let_def split: if_splits)
next
  case (HReceive k)
  with run obtain r where r: "k < length (hub_subs h)" "receive recv (hub_sy h) (hub_subs h ! k) = Some r"
    and h': "h' = h\<lparr>hub_subs := (hub_subs h)[k := r]\<rparr>"
    by (auto split: if_splits)
  have "receiver_ok (hub_sy h) r"
    using ok r by (intro receive_ok [OF _ r(2)]) (simp add: hub_ok_def list_all_length)
  with ok show ?thesis by (simp add: hub_ok_def h' list_all_update)
qed

lemma hub_run_ok: "hub_run pf fm cfg sink recv evs h = Some h' \<Longrightarrow> hub_ok h \<Longrightarrow> hub_ok h'"
  by (induction evs arbitrary: h) (auto split: option.splits intro: hub_exec_ok)

end

text \<open>The channel itself, by its documentation: it keeps the last 1024 events.\<close>

definition broadcast_recv :: recv where
  "broadcast_recv n es closed =
    (let tail = length es; oldest = tail - EVENTS_CAPACITY in
     if n < oldest then Some (Lagged (oldest - n), oldest)
     else if n < tail then Some (Got (es ! n), n + 1)
     else if closed then Some (ClosedStream, n)
     else None)"

interpretation bc: broadcast broadcast_recv
  by unfold_locales (auto simp: broadcast_recv_def Let_def split: if_splits)

lemma spawn_hub_ok: "spawn_hub store o_sink cfg = Some h \<Longrightarrow> hub_ok h"
  by (auto simp: spawn_hub_def hub_ok_def)


subsection \<open>Inserts and the order of the store\<close>

fun inserted_event :: "qso_event \<Rightarrow> qso_id option" where
  "inserted_event (EvInserted i) = Some i"
| "inserted_event _ = None"

definition event_ids :: "'s runtime \<Rightarrow> qso_id list" where
  "event_ids rt = filter_map inserted_event (rt_events rt)"

definition announced :: "announce \<Rightarrow> qso_id list" where
  "announced ann = filter_map inserted_event [announce_event ann]"

definition op_ids :: "stored_op \<Rightarrow> qso_id list" where
  "op_ids so = (case inserted_id (so_op so) of None \<Rightarrow> [] | Some i \<Rightarrow> [i])"

text \<open>The order is that of the events, after what was there at the start; the insert that the loop
  waits for is the last one, and not announced yet.\<close>

definition in_step :: "qso_id list \<Rightarrow> 's runtime \<Rightarrow> bool" where
  "in_step old rt \<longleftrightarrow> order (rt_store rt) = old @ event_ids rt"

definition in_step_but :: "qso_id list \<Rightarrow> announce \<Rightarrow> stored_op \<Rightarrow> 's runtime \<Rightarrow> bool" where
  "in_step_but old ann so rt \<longleftrightarrow> order (rt_store rt) = old @ event_ids rt @ op_ids so \<and> announced ann = op_ids so"

definition events_ok :: "qso_id list \<Rightarrow> 's runtime \<Rightarrow> bool" where
  "events_ok old rt \<longleftrightarrow>
    (case waiting_for (rt_ctl rt) of
       Some (WaitMutation ann cp so) \<Rightarrow> in_step_but old ann so rt
     | _ \<Rightarrow> in_step old rt)"

lemma log_apply_adds:
  "log_apply op L = Some L' \<Longrightarrow>
    map qr_id L' = map qr_id L @ (case inserted_id op of None \<Rightarrow> [] | Some i \<Rightarrow> [i])"
  by (cases op) (auto simp: map_id_update split: if_splits)

lemma log_rollback_order: "log_apply op L = Some L' \<Longrightarrow> map qr_id (log_rollback (log_emit op L) L') = map qr_id L"
  by (cases op) (auto simp: map_id_update log_remove_insert split: if_splits)

lemma effect_adds:
  assumes "store_inv st" "cmd_effect cmd op so st st1"
  shows "order st1 = order st @ op_ids so"
proof -
  have wf: "map qr_id (log_of st) = order st" "map qr_id (log_of st1) = order st1"
    using assms by (simp_all add: cmd_effect_def store_inv_def wf_order_ids)
  have "log_apply op (log_of st) = Some (log_of st1)" "so_op so = log_emit op (log_of st)"
    using assms(2) by (simp_all add: cmd_effect_def)
  then have "map qr_id (log_of st1) = map qr_id (log_of st) @ op_ids so"
    using log_apply_adds by (simp add: op_ids_def inserted_emit)
  with wf show ?thesis by simp
qed

lemma clear_pending_order [simp]: "order (clear_pending_ops st) = order st"
  by (simp add: clear_pending_ops_def)

lemma rollback_order:
  assumes rb: "rollbackable cp so st" and run: "rollback_mutation pf cp so st = Ok u st'"
    and ord: "order st = ord @ op_ids so"
  shows "order st' = ord"
proof -
  obtain st0 st1 cmd op where *: "store_inv st0" "cmd_effect cmd op so st0 st1" "st = clear_pending_ops st1"
    using rb by (auto simp: rollbackable_def)
  have ord0: "order st0 = ord" using effect_adds [OF *(1,2)] ord *(3) by simp
  have wf: "store_wf st0" "store_wf st" and log: "log_of st = log_of st1"
    using * by (auto simp: cmd_effect_def store_inv_def clear_pending_ops_def)
  have ap: "log_apply op (log_of st0) = Some (log_of st)" and so: "so_op so = log_emit op (log_of st0)"
    using *(2) log by (simp_all add: cmd_effect_def)
  have "op_target (so_op so) \<in> set (order st)"
    using op_target_in [OF ap] wf_log_ids [OF wf(2)] by (simp add: so)
  from rollback_mutation_ok [OF wf(2) this, of pf cp] run obtain st2 where st2:
    "order st' = order st2" "store_wf st2" "log_of st2 = log_rollback (so_op so) (log_of st)" by auto
  have "map qr_id (log_rollback (so_op so) (log_of st)) = map qr_id (log_of st0)"
    using log_rollback_order [OF ap] by (simp add: so)
  with st2 wf_order_ids [OF st2(2)] wf_order_ids [OF wf(1)] ord0 show ?thesis by simp
qed

lemma same_log_order: "store_inv st \<Longrightarrow> store_inv st' \<Longrightarrow> log_of st' = log_of st \<Longrightarrow> order st' = order st"
  using wf_order_ids [of st] wf_order_ids [of st'] by (simp add: store_inv_def)

lemma run_mutation_announced:
  assumes inv: "store_inv st" and run: "run_mutation pf clk cmd st = Ok (ann, so) st1"
    and eff: "cmd_effect (cmd_of cmd) op so st st1" "cmd_op (cmd_of cmd) st = Some op"
  shows "announced ann = op_ids so"
proof (cases "\<exists>i. ann = AnnInsert i")
  case True
  then obtain i where "ann = AnnInsert i" ..
  with run_mutation_announces [OF inv _ eff] run show ?thesis by (simp add: announced_def op_ids_def)
next
  case False
  then have "\<nexists>d. cmd_of cmd = CmdInsert d"
    using run by (cases cmd) (auto simp: run_mutation_def and_then_Ok_iff)
  then have "inserted_id op = None"
    using cmd_op_insert [OF inv, of "cmd_of cmd"] eff(2) by (cases op) auto
  moreover have "inserted_id (so_op so) = inserted_id op" using eff(1) by (simp add: cmd_effect_def inserted_emit)
  moreover have "announced ann = []" using False by (cases ann) (auto simp: announced_def)
  ultimately show ?thesis by (simp add: op_ids_def)
qed


subsection \<open>The loop keeps events and store in step\<close>

lemma in_step_cong:
  assumes "event_ids rt' = event_ids rt" "order (rt_store rt') = order (rt_store rt)"
  shows "in_step old rt' = in_step old rt" "in_step_but old ann so rt' = in_step_but old ann so rt"
  using assms by (simp_all add: in_step_def in_step_but_def)

lemma events_ok_cong:
  assumes "event_ids rt' = event_ids rt" "order (rt_store rt') = order (rt_store rt)"
    "waiting_for (rt_ctl rt') = waiting_for (rt_ctl rt)"
  shows "events_ok old rt' = events_ok old rt"
  unfolding events_ok_def in_step_def in_step_but_def assms ..

lemma event_ids_emit: "event_ids (emit ev rt) = event_ids rt @ filter_map inserted_event [ev]"
  by (simp add: event_ids_def)

lemma event_ids_mark [simp]: "event_ids (mark_persist_unhealthy m rt) = event_ids rt"
  by (simp add: event_ids_def)

lemma events_ok_no_mutation:
  "\<nexists>ann cp so. waiting_for (rt_ctl rt) = Some (WaitMutation ann cp so) \<Longrightarrow> events_ok old rt = in_step old rt"
  by (auto simp: events_ok_def split: option.split wait.split)

lemma events_ok_stop: "in_step old rt \<Longrightarrow> events_ok old (rt\<lparr>rt_ctl := Stopped\<rparr>)"
  by (simp add: events_ok_def in_step_def event_ids_def)

lemma events_ok_respond: "in_step old rt \<Longrightarrow> events_ok old (respond resp rt)"
  by (simp add: events_ok_def in_step_def event_ids_def)

lemma accepted_in_step:
  assumes "in_step_but old ann so rt"
  shows "events_ok old (mutation_accepted cfg ann rt)"
proof -
  have "order (rt_store (mutation_accepted cfg ann rt)) = order (rt_store rt)"
    by (rule accepted_shape [of rt cfg ann]) auto
  moreover have "event_ids (mutation_accepted cfg ann rt) = event_ids rt @ announced ann"
    by (simp add: event_ids_def announced_def accepted_events)
  ultimately have "in_step old (mutation_accepted cfg ann rt)"
    using assms by (simp add: in_step_def in_step_but_def)
  moreover have "\<nexists>ann' cp so. waiting_for (rt_ctl (mutation_accepted cfg ann rt)) = Some (WaitMutation ann' cp so)"
    by (rule accepted_shape [of rt cfg ann]) auto
  ultimately show ?thesis using events_ok_no_mutation [of "mutation_accepted cfg ann rt" old] by blast
qed

lemma rejected_in_step:
  assumes step: "in_step_but old ann so rt" and rb: "rollbackable cp so (rt_store rt)"
    and run: "mutation_rejected pf ann' cp so e rt = Some rt'"
  shows "events_ok old rt'"
proof -
  have "\<exists>u st. rollback_mutation pf cp so (rt_store rt) = Ok u st"
    using rb rollback_inv by (fastforce simp: rollbackable_def)
  then obtain u st where st: "rollback_mutation pf cp so (rt_store rt) = Ok u st" by blast
  then have rt': "rt' = respond (announce_error ann' e) (rt\<lparr>rt_store := st\<rparr>)"
    using run by (simp add: mutation_rejected_def)
  have "order st = old @ event_ids rt"
    using rollback_order [OF rb st] step by (simp add: in_step_but_def)
  then show ?thesis by (simp add: rt' events_ok_respond in_step_def event_ids_def)
qed

lemma persist_after_in_step:
  assumes step: "in_step_but old ann so rt" and rb: "rollbackable cp so (rt_store rt)"
    and run: "persist_after_mutation pf fm cfg ann cp so rt = Some rt'"
  shows "events_ok old rt'"
proof -
  have same: "in_step_but old ann so rt1"
    if "event_ids rt1 = event_ids rt" "rt_store rt1 = rt_store rt" for rt1 :: "'a runtime"
    using step that in_step_cong [of rt1 rt] by simp
  show ?thesis
  proof (cases "rt_worker rt")
    case None
    with run step show ?thesis by (auto simp: persist_after_mutation_def intro: accepted_in_step)
  next
    case (Some w)
    show ?thesis
    proof (cases "enqueue_persist cfg so w")
      case (Inl e)
      let ?rt1 = "mark_persist_unhealthy (debug_runtime_error fm e) rt"
      have "mutation_rejected pf ann cp so e ?rt1 = Some rt'"
        using run Some Inl by (simp add: persist_after_mutation_def)
      with same [of ?rt1] rb show ?thesis by (auto intro: rejected_in_step)
    next
      case (Inr w1)
      let ?rt1 = "rt\<lparr>rt_worker := Some w1\<rparr>"
      let ?rt2 = "if is_healthy (rt_health ?rt1) then ?rt1 else emit (EvNotDurableWarning (latest_op_seq (rt_store ?rt1))) ?rt1"
      have "cfg_ack_mode cfg = Durable \<Longrightarrow> rt' = ?rt1\<lparr>rt_ctl := Sending MsgFlush (WaitMutation ann cp so)\<rparr>"
        and "cfg_ack_mode cfg \<noteq> Durable \<Longrightarrow> rt' = mutation_accepted cfg ann ?rt2"
        using run Some Inr by (simp_all only: persist_after_mutation_def Let_def option.case sum.case option.inject if_True if_False simp_thms)
      moreover have "events_ok old (?rt1\<lparr>rt_ctl := Sending MsgFlush (WaitMutation ann cp so)\<rparr>)"
        using same by (simp add: events_ok_def event_ids_def)
      moreover have "events_ok old (mutation_accepted cfg ann ?rt2)"
        by (intro accepted_in_step [of _ _ so] same) (simp_all add: event_ids_def)
      ultimately show ?thesis by (cases "cfg_ack_mode cfg = Durable") simp_all
    qed
  qed
qed

lemma mutation_in_step:
  assumes ok: "in_step old rt" and st: "rt_store_ok (Suc k) rt" and run: "handle_mutation pf fm cfg clk cmd rt = Some rt'"
  shows "events_ok old rt'"
proof (cases "ensure_mutation_allowed (cfg_ack_mode cfg) (rt_health rt)")
  case (Inl e)
  with run ok show ?thesis by (auto simp: handle_mutation_def intro: events_ok_respond)
next
  case (Inr u)
  have inv: "store_inv (rt_store rt)" and hr: "has_room (rt_store rt)"
    using st room_for_Suc by (auto simp: rt_store_ok_def)
  from run_mutation_cases [OF inv hr, of pf clk cmd] show ?thesis
  proof cases
    case (1 ann so st1 op)
    let ?rt1 = "rt\<lparr>rt_store := clear_pending_ops st1\<rparr>"
    have "in_step_but old ann so ?rt1"
      using ok effect_adds [OF inv 1(3)] run_mutation_announced [OF inv 1(1,3,2)]
      by (simp add: in_step_def in_step_but_def event_ids_def)
    moreover have "rollbackable (take_checkpoint (rt_store rt)) so (clear_pending_ops st1)"
      using mutation_rollbackable [OF inv hr 1(3)] .
    ultimately show ?thesis
      using persist_after_in_step [of old ann so ?rt1] run Inr 1(1) by (simp add: handle_mutation_def Let_def)
  next
    case (2 e st1)
    then have "order st1 = order (rt_store rt)"
      using same_log_order [OF inv, of st1] by (simp add: cmd_failure_def)
    then have "in_step old (rt\<lparr>rt_store := st1\<rparr>)" using ok by (simp add: in_step_def event_ids_def)
    with 2 Inr run show ?thesis by (auto simp: handle_mutation_def Let_def intro: events_ok_respond)
  qed
qed

lemma command_in_step:
  assumes ok: "in_step old rt" and st: "rt_store_ok (Suc k) rt" and run: "handle_command pf fm cfg clk cmd rt = Some rt'"
  shows "events_ok old rt'"
proof (cases "handle_mutation pf fm cfg clk cmd rt = Some rt'")
  case True
  with ok st show ?thesis by (rule mutation_in_step)
next
  case False
  have wait: "events_ok old (rt\<lparr>rt_ctl := Sending m wt\<rparr>)" if "wt \<in> {WaitFlush, WaitCheckpoint, WaitShutdown}" for m wt
    using that ok by (auto simp: events_ok_def in_step_def event_ids_def)
  have stop: "events_ok old ((respond r rt)\<lparr>rt_ctl := Stopped\<rparr>)" for r
    using ok in_step_cong [of "respond r rt" rt] by (auto simp: event_ids_def intro: events_ok_stop)
  show ?thesis
    using run False ok
    by (cases cmd) (auto simp: handle_command_def intro: wait stop events_ok_respond split: option.splits)
qed

lemma resume_in_step:
  assumes run: "resume pf fm cfg wt rep rt = Some rt'"
    and mut: "\<And>ann cp so. wt = WaitMutation ann cp so \<Longrightarrow>
      in_step_but old ann so rt \<and> rollbackable cp so (rt_store rt)"
    and other: "\<nexists>ann cp so. wt = WaitMutation ann cp so \<Longrightarrow> in_step old rt"
  shows "events_ok old rt'"
proof (cases "\<exists>ann cp so. wt = WaitMutation ann cp so")
  case True
  then obtain ann cp so where wt: "wt = WaitMutation ann cp so" by blast
  have "events_ok old rt'" if "mutation_rejected pf ann cp so e (mark_persist_unhealthy m rt) = Some rt'" for e m
    using rejected_in_step [OF _ _ that, of old ann] mut [OF wt] in_step_cong(2) [of "mark_persist_unhealthy m rt" rt]
    by simp
  moreover have "events_ok old (mutation_accepted cfg ann rt)"
    using mut [OF wt] by (blast intro: accepted_in_step)
  ultimately show ?thesis
    using run wt by (cases "(pf, fm, cfg, wt, rep, rt)" rule: resume.cases) auto
next
  case False
  then have step: "in_step old rt" by (rule other)
  then have "in_step old (rt\<lparr>rt_ops_since_snapshot := 0\<rparr>)" "in_step old (respond r rt)" for r
    by (simp_all add: in_step_def event_ids_def)
  with step show ?thesis
    using run False by (cases "(pf, fm, cfg, wt, rep, rt)" rule: resume.cases) (auto intro: events_ok_respond events_ok_stop)
qed

lemma progress_in_step:
  assumes run: "loop_progress pf fm cfg rt = Some (Some rt')" and ok: "events_ok old rt" and st: "rt_store_ok k rt"
  shows "events_ok old rt'"
proof -
  obtain w where w: "rt_worker rt = Some w"
    using run by (auto simp: loop_progress_def split: option.splits)
  obtain wt where wt: "waiting_for (rt_ctl rt) = Some wt"
    using run w by (cases "rt_ctl rt") (auto simp: loop_progress_def)
  have rb: "\<And>ann cp so. wt = WaitMutation ann cp so \<Longrightarrow> rollbackable cp so (rt_store rt)"
    using st wt by (auto simp: rt_store_ok_def)
  have mut: "\<And>ann cp so. wt = WaitMutation ann cp so \<Longrightarrow> in_step_but old ann so rt"
    and other: "\<nexists>ann cp so. wt = WaitMutation ann cp so \<Longrightarrow> in_step old rt"
    using ok wt by (auto simp: events_ok_def split: wait.splits)
  have res: "events_ok old rt'" if "resume pf fm cfg wt rep rt1 = Some rt'"
    "event_ids rt1 = event_ids rt" "rt_store rt1 = rt_store rt" for rep rt1
    using that(2,3) mut other rb in_step_cong [of rt1 rt] by (intro resume_in_step [OF that(1)]) simp_all
  have stay: "events_ok old rt'"
    if "event_ids rt' = event_ids rt" "rt_store rt' = rt_store rt" "waiting_for (rt_ctl rt') = Some wt"
    using that ok wt events_ok_cong [of rt' rt] by simp
  show ?thesis
  proof (cases "rt_ctl rt")
    case (Sending m wt')
    then have wt': "wt' = wt" using wt by simp
    show ?thesis
    proof (cases "wk_running w")
      case True
      with run w Sending wt' stay show ?thesis
        by (auto simp: loop_progress_def event_ids_def split: if_splits)
    next
      case False
      then have "send_failed pf fm cfg wt rt = Some rt'"
        using run w Sending wt' by (simp add: loop_progress_def)
      with res [of None rt] other show ?thesis by (cases wt) (auto intro: events_ok_respond)
    qed
  next
    case (Awaiting wt')
    then have wt': "wt' = wt" using wt by simp
    show ?thesis
      using run w Awaiting wt'
      by (auto simp: loop_progress_def event_ids_def simp del: resume.simps split: option.splits if_splits intro: res)
  qed (use wt in simp_all)
qed

lemma durable_event_ids [simp]: "event_ids (handle_durable fm msg rt) = event_ids rt"
  by (cases msg) (simp_all add: handle_durable_def event_ids_def)

lemma rt_exec_in_step:
  assumes run: "rt_exec pf fm cfg sink l rt = Some (Some rt')" and ok: "events_ok old rt" and st: "rt_store_ok (Suc k) rt"
  shows "events_ok old rt'"
proof -
  consider (command) clk cmd where "l = LCommand clk cmd" | (progress) "l = LProgress" | (drop) "l = LDrop"
    | (quiet) "\<not> client_label l" "l \<noteq> LProgress"
    by (cases l) auto
  then show ?thesis
  proof cases
    case command
    with run have "handle_command pf fm cfg clk cmd rt = Some rt'" "in_step old rt"
      using ok by (auto simp: events_ok_def split: if_splits)
    with st show ?thesis by (auto intro: command_in_step)
  next
    case progress
    with run ok st show ?thesis by (auto intro: progress_in_step)
  next
    case drop
    with run ok show ?thesis by (auto simp: events_ok_def [of _ rt] split: if_splits intro: events_ok_stop)
  next
    case quiet
    then have "rt_ctl rt' = rt_ctl rt" using quiet_step [OF run] by blast
    moreover have "rt_store rt' = rt_store rt \<and> event_ids rt' = event_ids rt"
      using run quiet
      by (cases l) (auto simp: map_worker_def handle_durable_sel event_ids_def [of "_\<lparr>rt_worker := _\<rparr>"] event_ids_def [of rt]
          split: option.splits if_splits elim!: loop_durable_cases)
    ultimately show ?thesis
      using ok events_ok_cong [of rt' rt] by simp
  qed
qed


subsection \<open>Clients and receivers\<close>

definition sy_in_step :: "qso_id list \<Rightarrow> nat \<Rightarrow> 's system \<Rightarrow> bool" where
  "sy_in_step old k sy \<longleftrightarrow> rt_store_ok k (sy_rt sy) \<and> events_ok old (sy_rt sy)"

lemma sy_exec_in_step:
  assumes ok: "sy_in_step old (Suc k) sy" and run: "sy_exec pf fm cfg sink ev sy = Some sy'"
  shows "sy_in_step old k sy'"
  using run
proof (cases rule: sy_exec_shape)
  case 1
  with ok show ?thesis by (simp add: sy_in_step_def rt_store_ok_weaken)
next
  case (2 l o_rt sy1)
  have st: "rt_store_ok (Suc k) (sy_rt sy)" using ok by (simp add: sy_in_step_def)
  from rt_exec_ok [OF this 2(1)] obtain rt' where rt': "o_rt = Some rt'" "rt_store_ok k rt'" by blast
  have "events_ok old rt'"
    using rt_exec_in_step [OF _ _ st] 2(1) rt'(1) ok by (simp add: sy_in_step_def)
  with rt' 2(2) settle_rt [of o_rt sy1] show ?thesis by (simp add: sy_in_step_def)
qed

lemma sy_in_step_weaken: "sy_in_step old (Suc k) sy \<Longrightarrow> sy_in_step old k sy"
  by (simp add: sy_in_step_def rt_store_ok_weaken)

lemma hub_exec_in_step:
  assumes "sy_in_step old (Suc k) (hub_sy h)" "hub_exec pf fm cfg sink recv ev h = Some h'"
  shows "sy_in_step old k (hub_sy h')"
  using assms
  by (cases ev) (auto simp: subscribe_def Let_def sy_in_step_weaken split: if_splits intro: sy_exec_in_step)

lemma hub_run_in_step:
  "hub_run pf fm cfg sink recv evs h = Some h' \<Longrightarrow> sy_in_step old (length evs + k) (hub_sy h) \<Longrightarrow> sy_in_step old k (hub_sy h')"
  by (induction evs arbitrary: h) (auto split: option.splits intro: hub_exec_in_step)

lemma spawn_in_step:
  assumes spawn: "spawn_hub store o_sink cfg = Some h" and "store_inv store" "room_for k store"
  shows "sy_in_step (order store) k (hub_sy h)"
proof -
  obtain rt where rt: "spawn_qsolog store o_sink cfg = Some rt" "sy_rt (hub_sy h) = rt"
    using spawn by (auto simp: spawn_hub_def spawn_system_def)
  have "rt_events rt = []" "rt_ctl rt = Idle" "rt_store rt = store"
    using rt(1) by (auto simp: spawn_qsolog_def split: if_splits)
  then have "events_ok (order store) rt" by (simp add: events_ok_def in_step_def event_ids_def)
  with rt_store_ok_spawn [OF rt(1) assms(2,3)] rt(2) show ?thesis by (simp add: sy_in_step_def)
qed

text \<open>What a receiver that missed nothing knows of the inserts.\<close>

definition got_ids :: "receiver \<Rightarrow> qso_id list" where
  "got_ids r = filter_map (\<lambda>x. case x of Got e \<Rightarrow> inserted_event e | _ \<Rightarrow> None) (rcv_got r)"

lemma consume_all:
  "consume rs es = Some left \<Longrightarrow> \<forall>n. Lagged n \<notin> set rs \<Longrightarrow>
    filter_map inserted_event es =
    filter_map (\<lambda>x. case x of Got e \<Rightarrow> inserted_event e | _ \<Rightarrow> None) rs @ filter_map inserted_event left"
  by (induction rs es rule: consume.induct) (auto split: list.splits if_splits option.split)

lemma consume_closed: "consume rs es = Some left \<Longrightarrow> ClosedStream \<in> set rs \<Longrightarrow> left = []"
proof (induction rs es rule: consume.induct)
  case (4 rs es)
  have "consume rs [] = Some left \<Longrightarrow> left = []" for rs
    by (induction rs "[] :: qso_event list" rule: consume.induct) (auto split: if_splits)
  with 4 show ?case by (auto split: if_splits)
qed (auto split: list.splits if_splits)

end
