(* ===== verification/Qso_Service.thy ===== *)
theory Qso_Service
  imports Qso_Acks
begin

section \<open>The runtime as an atomic log service\<close>

text \<open>
  What the whole runtime promises its callers, with no loop, worker, queue or index in it: a log
  with an editor's history, on which each command acts at once. A mutation that applies is
  answered by its value, one that does not by its error, a query by what it finds in the log. A
  mutation that the journal refuses has no effect but one: it forgets the future of the
  history. The loop refines this service, answer by answer.
\<close>


subsection \<open>The service\<close>

type_synonym service = "history \<times> qso_id"

definition start_service :: "qso_store \<Rightarrow> service" where
  "start_service st = (([], log_of st, []), next_qso_id st)"

fun present :: "service \<Rightarrow> qso_log" where
  "present ((ps, L, fs), n) = L"

fun forget_future :: "service \<Rightarrow> service" where
  "forget_future ((ps, L, fs), n) = ((ps, L, []), n)"

fun mutates :: "command \<Rightarrow> bool" where
  "mutates (CInsert _) = True"
| "mutates (CPatch _ _) = True"
| "mutates (CVoid _) = True"
| "mutates CUndo = True"
| "mutates CRedo = True"
| "mutates _ = False"

fun applies :: "store_cmd \<Rightarrow> history \<Rightarrow> bool" where
  "applies (CmdInsert _) h = True"
| "applies (CmdPatch i _) (ps, L, fs) = (log_find i L \<noteq> None)"
| "applies (CmdVoid i) (ps, L, fs) = (log_find i L \<noteq> None)"
| "applies CmdUndo (ps, L, fs) = (ps \<noteq> [])"
| "applies CmdRedo (ps, L, fs) = (fs \<noteq> [])"

fun missing :: "store_cmd \<Rightarrow> store_error" where
  "missing (CmdPatch i _) = MissingQso i"
| "missing cmd = cmd_error cmd"

fun mutation_value :: "command \<Rightarrow> qso_id \<Rightarrow> response" where
  "mutation_value (CInsert _) n = RespId (Inr n)"
| "mutation_value _ n = RespUnit (Inr ())"

fun service_mutation :: "command \<Rightarrow> service \<Rightarrow> response \<times> service" where
  "service_mutation cmd (h, n) =
    (let c = cmd_of cmd in
     if applies c h then (mutation_value cmd n, (hist_step c n h, cmd_next_id c n))
     else (command_error cmd (RtStore (missing c)), (h, n)))"

fun service_query :: "command \<Rightarrow> qso_log \<Rightarrow> response option" where
  "service_query (CGet i) L = Some (RespRecord (log_find i L))"
| "service_query (CRecent n) L = Some (RespRecords (drop (length L - n) L))"
| "service_query (CByCall call) L = Some (RespRecords (filter (\<lambda>r. qr_callsign_norm r = call) L))"
| "service_query _ L = None"

fun answer_error :: "response \<Rightarrow> runtime_error option" where
  "answer_error (RespId (Inl e)) = Some e"
| "answer_error (RespUnit (Inl e)) = Some e"
| "answer_error _ = None"

text \<open>A mutation may be refused before it starts, when durability is required and broken, or
  rejected after it was applied, when the journal does not take its operation.\<close>

fun refuses :: "runtime_error \<Rightarrow> bool" where
  "refuses (PersistenceUnhealthy _) = True"
| "refuses _ = False"

fun rejects :: "runtime_error \<Rightarrow> bool" where
  "rejects (RtPersist _) = True"
| "rejects ChannelClosed = True"
| "rejects PersistQueueFull = True"
| "rejects _ = False"

definition serve_mutation :: "command \<Rightarrow> response \<Rightarrow> service \<Rightarrow> service option" where
  "serve_mutation cmd resp s =
    (let (value, s') = service_mutation cmd s in
     if resp = value then Some s'
     else (case answer_error resp of
       None \<Rightarrow> None
     | Some e \<Rightarrow>
         if resp \<noteq> command_error cmd e then None
         else if refuses e then Some s
         else if rejects e \<and> cmd \<notin> {CUndo, CRedo} \<and> applies (cmd_of cmd) (fst s) then Some (forget_future s)
         else None))"

text \<open>\<open>None\<close>: the service does not give this answer. Flush, checkpoint and shutdown are about the
  journal, not the log: any answer goes.\<close>

definition serve :: "command \<Rightarrow> response \<Rightarrow> service \<Rightarrow> service option" where
  "serve cmd resp s =
    (if mutates cmd then serve_mutation cmd resp s
     else (case service_query cmd (present s) of
       None \<Rightarrow> Some s
     | Some answer \<Rightarrow> if resp = answer then Some s else None))"

fun serve_all :: "(command \<times> response) list \<Rightarrow> service \<Rightarrow> service option" where
  "serve_all [] s = Some s"
| "serve_all ((cmd, resp) # tr) s = (case serve cmd resp s of None \<Rightarrow> None | Some s' \<Rightarrow> serve_all tr s')"

text \<open>Left out of the promise: an undo or redo that was rejected after it was applied (its entry is
  gone), and drafts that are entered void (undo and redo do not keep them).\<close>

definition lost_entry :: "command \<Rightarrow> response \<Rightarrow> bool" where
  "lost_entry cmd resp \<longleftrightarrow> cmd \<in> {CUndo, CRedo} \<and> (\<exists>e. answer_error resp = Some e \<and> rejects e)"

lemma serve_all_append:
  "serve_all (tr @ tr') s = (case serve_all tr s of None \<Rightarrow> None | Some s' \<Rightarrow> serve_all tr' s')"
  by (induction tr s rule: serve_all.induct) (auto split: option.splits)


subsection \<open>The store below the service\<close>

definition behind :: "qso_store \<Rightarrow> service \<Rightarrow> bool" where
  "behind st s \<longleftrightarrow> hist_rel st (fst s) \<and> next_qso_id st = snd s"

lemma behind_inv: "behind st s \<Longrightarrow> store_inv st"
  by (auto simp: behind_def hist_rel_def)

lemma behind_present: "behind st s \<Longrightarrow> present s = log_of st"
  by (cases s rule: present.cases) (simp add: behind_def hist_rel_def)

lemma behind_clear [simp]: "behind (clear_pending_ops st) s = behind st s"
  by (cases s rule: present.cases)
    (simp add: behind_def hist_rel_def clear_pending_ops_def store_inv_def ids_below_def)

lemma behind_start: "store_inv st \<Longrightarrow> undo st = [] \<Longrightarrow> redo st = [] \<Longrightarrow> behind st (start_service st)"
  by (simp add: behind_def start_service_def hist_rel_def)

lemma store_queries:
  assumes "store_inv st"
  shows "store_get i st = log_find i (log_of st)"
    and "store_recent n st = drop (length (log_of st) - n) (log_of st)"
    and "store_by_call call st = filter (\<lambda>r. qr_callsign_norm r = call) (log_of st)"
proof -
  have wf: "store_wf st" using assms by (simp add: store_inv_def)
  show "store_get i st = log_find i (log_of st)" by (simp add: store_get_def wf_lookup [OF wf])
  have "set (drop k (order st)) \<subseteq> set (order st)" for k by (rule set_drop_subset)
  from wf_filter_map [OF wf this] show "store_recent n st = drop (length (log_of st) - n) (log_of st)"
    by (simp add: store_recent_def Let_def log_of_def drop_map)
  let ?ids = "matching qr_callsign_norm (records st) (order st) call"
  have sub: "set ?ids \<subseteq> set (order st)" by (auto simp: matching_def)
  have "store_by_call call st = filter_map (Mapping.lookup (records st)) ?ids"
    using wf by (auto simp: store_wf_def canonical_index_def store_by_call_def split: option.splits if_splits)
  then have by_call: "store_by_call call st = map (\<lambda>i. the (Mapping.lookup (records st) i)) ?ids"
    by (simp add: wf_filter_map [OF wf sub])
  have "has_key qr_callsign_norm (records st) call i \<longleftrightarrow> qr_callsign_norm (the (Mapping.lookup (records st) i)) = call"
    if "i \<in> set (order st)" for i
    using wf_find [OF wf that] by (metis has_key_Some option.sel)
  with by_call show "store_by_call call st = filter (\<lambda>r. qr_callsign_norm r = call) (log_of st)"
    by (simp add: matching_def log_of_def filter_map o_def cong: filter_cong)
qed

lemma query_served:
  assumes "behind st s"
  shows "service_query (CGet i) (present s) = Some (RespRecord (store_get i st))"
    "service_query (CRecent n) (present s) = Some (RespRecords (store_recent n st))"
    "service_query (CByCall call) (present s) = Some (RespRecords (store_by_call call st))"
  using store_queries [OF behind_inv [OF assms]] behind_present [OF assms] by simp_all

text \<open>A mutation that the store accepts is the step of the service.\<close>

lemma mutation_served:
  assumes rel: "behind st s" and live: "cmd_live (cmd_of cmd)" and op: "cmd_op (cmd_of cmd) st = Some op"
    and eff: "cmd_effect (cmd_of cmd) op so st st1"
  obtains s' where "service_mutation cmd s = (mutation_value cmd (snd s), s')" "behind st1 s'"
    "applies (cmd_of cmd) (fst s)"
proof -
  obtain ps L fs n where s: "s = ((ps, L, fs), n)" by (cases s rule: present.cases)
  have h: "hist_rel st (ps, L, fs)" "next_qso_id st = n" using rel by (simp_all add: behind_def s)
  have ap: "log_apply op (log_of st) = Some (log_of st1)" using eff by (simp add: cmd_effect_def)
  have st1: "hist_rel st1 (hist_step (cmd_of cmd) n (ps, L, fs))"
    using hist_cmd_ok [OF h(1) live op ap eff refl] by (simp add: h(2))
  have "log_of st = L" "chain log_apply log_exact L (rev (undo st)) ps" "chain log_apply log_exact L (rev (redo st)) fs"
    using h(1) by (simp_all add: hist_rel_def)
  then have applies: "applies (cmd_of cmd) (ps, L, fs)"
    using op ap log_find_in [of _ L]
    by (cases "cmd_of cmd") (fastforce simp: vec_pop_Some elim!: chain_ConsE split: if_splits)+
  show thesis
  proof (rule that)
    show "service_mutation cmd s = (mutation_value cmd (snd s), (hist_step (cmd_of cmd) n (ps, L, fs), cmd_next_id (cmd_of cmd) n))"
      using applies by (simp add: s Let_def)
    show "behind st1 (hist_step (cmd_of cmd) n (ps, L, fs), cmd_next_id (cmd_of cmd) n)"
      using st1 cmd_effect_next_id [OF eff] by (simp add: behind_def h(2))
    show "applies (cmd_of cmd) (fst s)" using applies by (simp add: s)
  qed
qed

text \<open>A mutation that the store refuses is refused by the service, with the same error.\<close>

lemma mutation_missing:
  assumes rel: "behind st s" and room: "has_room st" and mut: "mutates cmd"
    and run: "run_mutation pf clk cmd st = Err e st1"
  shows "service_mutation cmd s = (command_error cmd (RtStore e), s)" "behind st1 s"
proof -
  obtain ps L fs n where s: "s = ((ps, L, fs), n)" by (cases s rule: present.cases)
  have h: "hist_rel st (ps, L, fs)" "next_qso_id st = n" using rel by (simp_all add: behind_def s)
  have wf: "store_wf st" and inv: "store_inv st" using behind_inv [OF rel] by (simp_all add: store_inv_def)
  have err: "run_cmd pf clk (cmd_of cmd) st = Err e st1" using run by (simp add: run_mutation_cmd)
  have none: "cmd_op (cmd_of cmd) st = None \<or> (\<exists>op. cmd_op (cmd_of cmd) st = Some op \<and> log_apply op (log_of st) = None)"
    using run_cmd_Ok [OF inv room, of "cmd_of cmd" _ _ pf clk] err by (cases "cmd_op (cmd_of cmd) st") fastforce+
  note same = hist_cmd_none [OF h(1) none]
  have L: "log_of st = L" "undo st = [] \<longleftrightarrow> ps = []" "redo st = [] \<longleftrightarrow> fs = []"
    using h(1) chain_length [of log_apply log_exact] by (fastforce simp: hist_rel_def)+
  obtain m where st1: "st1 = (cmd_pop (cmd_of cmd) st)\<lparr>next_op_seq := m\<rparr>"
    and e: "cmd_op (cmd_of cmd) st = None \<and> e = cmd_error (cmd_of cmd) \<or>
      (\<exists>op. cmd_op (cmd_of cmd) st = Some op \<and> log_apply op L = None \<and> e = op_error op)"
  proof (cases "cmd_op (cmd_of cmd) st")
    case None
    with run_cmd_Err(1) [OF wf room None, of pf clk] err same(3) that [of "next_op_seq st"] show thesis by simp
  next
    case (Some op)
    with none have "log_apply op (log_of st) = None" by simp
    with run_cmd_Err(2) [OF wf room Some, of pf clk] err Some L(1) that show thesis by simp
  qed
  have "hist_rel st1 (ps, L, fs)" unfolding st1 by (rule same(2))
  then show "behind st1 s" using same(3) h(2) by (simp add: behind_def s st1)
  have "\<not> applies (cmd_of cmd) (ps, L, fs) \<and> e = missing (cmd_of cmd)"
  proof (cases "cmd_of cmd")
    case (CmdInsert d)
    with none cmd_insert_applies [OF inv] show ?thesis by auto
  next
    case (CmdPatch i p)
    with none e L show ?thesis using log_find_None [of i L] by (auto split: if_splits)
  next
    case (CmdVoid i)
    with none e L show ?thesis using log_find_mem [of i L] by (auto split: if_splits)
  next
    case CmdUndo
    with none e L hist_top_applies [OF h(1)] show ?thesis by (cases "vec_pop (undo st)") (force simp: vec_pop_None)+
  next
    case CmdRedo
    with none e L hist_top_applies [OF h(1)] show ?thesis by (cases "vec_pop (redo st)") (force simp: vec_pop_None)+
  qed
  then show "service_mutation cmd s = (command_error cmd (RtStore e), s)" by (simp add: s)
qed

text \<open>Taking back an insert, patch or void that was applied forgets the future.\<close>

lemma rollback_served:
  assumes rel: "behind st s" and plain: "cmd_of cmd \<noteq> CmdUndo" "cmd_of cmd \<noteq> CmdRedo"
    and op: "cmd_op (cmd_of cmd) st = Some op" and eff: "cmd_effect (cmd_of cmd) op so st st1"
    and run: "rollback_mutation pf (take_checkpoint st) so (clear_pending_ops st1) = Ok u st2"
  shows "behind st2 (forget_future s)"
proof -
  obtain ps L fs n where s: "s = ((ps, L, fs), n)" by (cases s rule: present.cases)
  have h: "hist_rel st (ps, L, fs)" "next_qso_id st = n" using rel by (simp_all add: behind_def s)
  have "\<And>i b. op = OpVoid i b \<Longrightarrow> log_exact op (log_of st)"
    using hist_cmd_exact [OF h(1)] op by simp
  from rollback_cmd [OF behind_inv [OF rel] eff this, where pf = pf] run
  have "st2 = st\<lparr>undo := take (length (undo st)) (undo st1), redo := take (length (redo st)) (redo st1), pending_ops := []\<rparr>"
    by simp
  moreover have "take (length (undo st)) (undo st1) = undo st" "take (length (redo st)) (redo st1) = []"
    using eff plain by (cases "cmd_of cmd"; simp add: cmd_effect_def)+
  ultimately show ?thesis
    using h by (auto simp: behind_def s hist_rel_def store_inv_def ids_below_def)
qed


subsection \<open>The loop answers as the service does\<close>

text \<open>\<open>served cmd s rt rt'\<close>: working on \<open>cmd\<close> in a state that was behind the service state \<open>s\<close>, the loop
  has answered, as the service does, and its store is behind the next service state; or it
  still waits, with all that is needed to answer so.\<close>

fun wait_serves :: "command \<Rightarrow> service \<Rightarrow> qso_store \<Rightarrow> wait \<Rightarrow> bool" where
  "wait_serves cmd s st (WaitMutation ann cp so) \<longleftrightarrow>
    mutates cmd \<and> announce_response ann = mutation_value cmd (snd s) \<and>
    (\<forall>e. announce_error ann e = command_error cmd e) \<and>
    (\<exists>st0 st1 op. behind st0 s \<and> cmd_live (cmd_of cmd) \<and> cp = take_checkpoint st0 \<and>
      cmd_op (cmd_of cmd) st0 = Some op \<and> cmd_effect (cmd_of cmd) op so st0 st1 \<and> st = clear_pending_ops st1)"
| "wait_serves cmd s st (WaitAutoCheckpoint resp) \<longleftrightarrow> (\<exists>s'. serve cmd resp s = Some s' \<and> behind st s')"
| "wait_serves cmd s st wt \<longleftrightarrow> wait_fits cmd wt \<and> behind st s"

definition answers :: "command \<Rightarrow> service \<Rightarrow> response \<Rightarrow> qso_store \<Rightarrow> bool" where
  "answers cmd s resp st \<longleftrightarrow> lost_entry cmd resp \<or> (\<exists>s'. serve cmd resp s = Some s' \<and> behind st s')"

definition served :: "command \<Rightarrow> service \<Rightarrow> 's runtime \<Rightarrow> 's runtime \<Rightarrow> bool" where
  "served cmd s rt rt' \<longleftrightarrow>
    (\<exists>resp. rt_responses rt' = rt_responses rt @ [resp] \<and> answers cmd s resp (rt_store rt') \<and>
      waiting_for (rt_ctl rt') = None) \<or>
    (rt_responses rt' = rt_responses rt \<and>
      (\<exists>wt. waiting_for (rt_ctl rt') = Some wt \<and> wait_serves cmd s (rt_store rt') wt))"

lemma served_respond:
  "rt_responses rt1 = rt_responses rt \<Longrightarrow> answers cmd s resp (rt_store rt1) \<Longrightarrow> served cmd s rt (respond resp rt1)"
  "rt_responses rt1 = rt_responses rt \<Longrightarrow> answers cmd s resp (rt_store rt1) \<Longrightarrow>
    served cmd s rt ((respond resp rt1)\<lparr>rt_ctl := Stopped\<rparr>)"
  by (simp_all add: served_def)

lemma served_wait:
  "rt_responses rt1 = rt_responses rt \<Longrightarrow> wait_serves cmd s (rt_store rt1) wt \<Longrightarrow> waiting_for c = Some wt \<Longrightarrow>
    served cmd s rt (rt1\<lparr>rt_ctl := c\<rparr>)"
  by (simp add: served_def)

lemma answers_served: "serve cmd resp s = Some s' \<Longrightarrow> behind st s' \<Longrightarrow> answers cmd s resp st"
  by (auto simp: answers_def)

lemma value_not_error: "mutation_value cmd n \<noteq> command_error cmd e"
  by (cases cmd) simp_all

lemma error_inj: "command_error cmd e = command_error cmd e' \<longleftrightarrow> e = e'"
  by (cases cmd) simp_all

lemma answer_error_command [simp]: "answer_error (command_error cmd e) = Some e"
  by (cases cmd) simp_all

lemma service_mutation_error:
  "command_error cmd e = fst (service_mutation cmd s) \<Longrightarrow> \<exists>err. e = RtStore err"
  by (cases "(cmd, s)" rule: service_mutation.cases)
    (auto simp: Let_def error_inj value_not_error [symmetric] split: if_splits dest: sym)

text \<open>A refused mutation, a rejected one.\<close>

lemma refused_served:
  assumes "mutates cmd" "behind st s" "refuses e"
  shows "answers cmd s (command_error cmd e) st"
proof -
  have "command_error cmd e \<noteq> fst (service_mutation cmd s)"
    using service_mutation_error [of cmd e s] assms(3) by auto
  then have "serve cmd (command_error cmd e) s = Some s"
    using assms by (simp add: serve_def serve_mutation_def case_prod_unfold)
  with assms(2) show ?thesis by (rule answers_served [rotated])
qed

lemma rejected_served:
  assumes wt: "wait_serves cmd s (rt_store rt) (WaitMutation ann cp so)" and e: "rejects e"
    and run: "mutation_rejected pf ann cp so e rt = Some rt'" and resp: "rt_responses rt = rt_responses rt0"
  shows "served cmd s rt0 rt'"
proof -
  obtain st0 st1 op where *: "behind st0 s" "cp = take_checkpoint st0" "cmd_op (cmd_of cmd) st0 = Some op"
    "cmd_effect (cmd_of cmd) op so st0 st1" "rt_store rt = clear_pending_ops st1" "cmd_live (cmd_of cmd)"
    and mut: "mutates cmd" and err: "announce_error ann e = command_error cmd e"
    using wt by auto
  obtain st where st: "rollback_mutation pf cp so (rt_store rt) = Ok () st"
    using rollback_inv [OF behind_inv [OF *(1)] *(4), of pf] by (auto simp: *(2,5))
  have rt': "rt' = respond (command_error cmd e) (rt\<lparr>rt_store := st\<rparr>)"
    using run by (simp add: mutation_rejected_def st err)
  have "answers cmd s (command_error cmd e) st"
  proof (cases "cmd \<in> {CUndo, CRedo}")
    case True
    with e show ?thesis by (auto simp: answers_def lost_entry_def)
  next
    case False
    have "applies (cmd_of cmd) (fst s)"
      using mutation_served [OF *(1,6,3,4)] by blast
    moreover have "command_error cmd e \<noteq> fst (service_mutation cmd s)" "\<not> refuses e"
      using service_mutation_error [of cmd e s] e by (auto elim: rejects.elims)
    ultimately have "serve cmd (command_error cmd e) s = Some (forget_future s)"
      using False mut e by (simp add: serve_def serve_mutation_def case_prod_unfold)
    moreover have "cmd_of cmd \<noteq> CmdUndo" "cmd_of cmd \<noteq> CmdRedo"
      using False mut by (cases cmd; simp)+
    with rollback_served [OF *(1) _ _ *(3,4)] st have "behind st (forget_future s)" by (simp add: *(2,5))
    ultimately show ?thesis by (rule answers_served)
  qed
  with resp show ?thesis by (simp add: rt' served_respond)
qed

lemma accepted_served:
  assumes wt: "wait_serves cmd s (rt_store rt) (WaitMutation ann cp so)" and resp: "rt_responses rt = rt_responses rt0"
  shows "served cmd s rt0 (mutation_accepted cfg ann rt)"
proof -
  obtain st0 st1 op where *: "behind st0 s" "cmd_op (cmd_of cmd) st0 = Some op"
    "cmd_effect (cmd_of cmd) op so st0 st1" "rt_store rt = clear_pending_ops st1" "cmd_live (cmd_of cmd)"
    and mut: "mutates cmd" "announce_response ann = mutation_value cmd (snd s)"
    using wt by auto
  from mutation_served [OF *(1,5,2,3)] obtain s' where
    "service_mutation cmd s = (mutation_value cmd (snd s), s')" "behind st1 s'" by blast
  then have s': "serve cmd (announce_response ann) s = Some s'" "behind (rt_store rt) s'"
    using mut by (simp_all add: serve_def serve_mutation_def *(4))
  obtain rt1 where rt1: "rt_responses rt1 = rt_responses rt" "rt_store rt1 = rt_store rt"
    and shape: "mutation_accepted cfg ann rt = respond (announce_response ann) rt1 \<or>
      (\<exists>m. mutation_accepted cfg ann rt = rt1\<lparr>rt_ctl := Sending m (WaitAutoCheckpoint (announce_response ann))\<rparr>)"
    by (rule accepted_shape)
  have "served cmd s rt0 (respond (announce_response ann) rt1)"
    using s' resp rt1 by (intro served_respond answers_served) simp_all
  moreover have "served cmd s rt0 (rt1\<lparr>rt_ctl := Sending m (WaitAutoCheckpoint (announce_response ann))\<rparr>)" for m
    using s' resp rt1 by (intro served_wait) auto
  ultimately show ?thesis using shape by auto
qed

lemma wait_serves_same:
  "wait_serves cmd s (rt_store rt) wt \<Longrightarrow> rt_store rt1 = rt_store rt \<Longrightarrow> wait_serves cmd s (rt_store rt1) wt"
  by simp

lemma enqueue_rejects: "enqueue_persist cfg so w = Inl e \<Longrightarrow> rejects e"
  by (auto simp: enqueue_persist_def split: if_splits)

lemma persist_after_served:
  assumes wt: "wait_serves cmd s (rt_store rt) (WaitMutation ann cp so)" and resp: "rt_responses rt = rt_responses rt0"
    and run: "persist_after_mutation pf fm cfg ann cp so rt = Some rt'"
  shows "served cmd s rt0 rt'"
proof (cases "rt_worker rt")
  case None
  with run accepted_served [OF wt resp] show ?thesis by (auto simp: persist_after_mutation_def)
next
  case (Some w)
  show ?thesis
  proof (cases "enqueue_persist cfg so w")
    case (Inl e)
    let ?rt1 = "mark_persist_unhealthy (debug_runtime_error fm e) rt"
    have rej: "mutation_rejected pf ann cp so e ?rt1 = Some rt'"
      using run Some Inl by (simp add: persist_after_mutation_def)
    have "wait_serves cmd s (rt_store ?rt1) (WaitMutation ann cp so)"
      by (rule wait_serves_same [OF wt]) simp
    from rejected_served [OF this enqueue_rejects [OF Inl] rej] show ?thesis by (simp add: resp)
  next
    case (Inr w1)
    let ?rt1 = "rt\<lparr>rt_worker := Some w1\<rparr>"
    let ?rt2 = "if is_healthy (rt_health ?rt1) then ?rt1 else emit (EvNotDurableWarning (latest_op_seq (rt_store ?rt1))) ?rt1"
    have "cfg_ack_mode cfg = Durable \<Longrightarrow> rt' = ?rt1\<lparr>rt_ctl := Sending MsgFlush (WaitMutation ann cp so)\<rparr>"
      and "cfg_ack_mode cfg \<noteq> Durable \<Longrightarrow> rt' = mutation_accepted cfg ann ?rt2"
      using run Some Inr by (simp_all only: persist_after_mutation_def Let_def option.case sum.case option.inject if_True if_False simp_thms)
    moreover have "served cmd s rt0 (?rt1\<lparr>rt_ctl := Sending MsgFlush (WaitMutation ann cp so)\<rparr>)"
      by (rule served_wait [where wt = "WaitMutation ann cp so"], simp add: resp, rule wait_serves_same [OF wt]) simp_all
    moreover have "served cmd s rt0 (mutation_accepted cfg ann ?rt2)"
      by (rule accepted_served [where so = so and cp = cp], rule wait_serves_same [OF wt]) (simp_all add: resp)
    ultimately show ?thesis by (cases "cfg_ack_mode cfg = Durable") simp_all
  qed
qed

lemma run_mutation_value:
  assumes "run_mutation pf clk cmd st = Ok (ann, so) st1" "mutates cmd"
  shows "announce_response ann = mutation_value cmd (next_qso_id st)" "announce_error ann e = command_error cmd e"
  using assms
  by (cases cmd; auto simp: run_mutation_def and_then_Ok_iff store_insert_def Let_def split: option.splits)+

lemma mutation_answered:
  assumes rel: "behind (rt_store rt) s" and room: "has_room (rt_store rt)" and mut: "mutates cmd"
    and live: "cmd_live (cmd_of cmd)" and run: "handle_mutation pf fm cfg clk cmd rt = Some rt'"
  shows "served cmd s rt rt'"
proof (cases "ensure_mutation_allowed (cfg_ack_mode cfg) (rt_health rt)")
  case (Inl e)
  then have "rt' = respond (command_error cmd e) rt" using run by (simp add: handle_mutation_def)
  moreover have "refuses e" using Inl by (auto simp: ensure_mutation_allowed_def split: if_splits)
  ultimately show ?thesis using refused_served [OF mut rel] by (simp add: served_respond)
next
  case (Inr u)
  have inv: "store_inv (rt_store rt)" by (rule behind_inv [OF rel])
  from run_mutation_cases [OF inv room, of pf clk cmd] show ?thesis
  proof cases
    case (1 ann so st1 op)
    have "snd s = next_qso_id (rt_store rt)" using rel by (simp add: behind_def)
    with run_mutation_value [OF 1(1) mut] have
      "wait_serves cmd s (clear_pending_ops st1) (WaitMutation ann (take_checkpoint (rt_store rt)) so)"
      using mut live rel 1(2,3) by auto
    moreover have "persist_after_mutation pf fm cfg ann (take_checkpoint (rt_store rt)) so
        (rt\<lparr>rt_store := clear_pending_ops st1\<rparr>) = Some rt'"
      using run Inr 1(1) by (simp add: handle_mutation_def Let_def)
    ultimately show ?thesis
      by (intro persist_after_served) (simp_all del: wait_serves.simps)
  next
    case (2 e st1)
    from mutation_missing [OF rel room mut 2(1)]
    have "answers cmd s (command_error cmd (RtStore e)) st1"
      using mut by (intro answers_served [of _ _ _ s]) (simp_all add: serve_def serve_mutation_def)
    with 2 Inr run show ?thesis
      by (auto simp: handle_mutation_def Let_def intro: served_respond)
  qed
qed

lemma command_served:
  assumes rel: "behind (rt_store rt) s" and room: "has_room (rt_store rt)" and live: "cmd_live (cmd_of cmd)"
    and run: "handle_command pf fm cfg clk cmd rt = Some rt'"
  shows "served cmd s rt rt'"
proof (cases "mutates cmd")
  case True
  then have "handle_mutation pf fm cfg clk cmd rt = Some rt'" using run by (cases cmd) (simp_all add: handle_command_def)
  with rel room True live show ?thesis by (rule mutation_answered)
next
  case False
  have ctl: "answers CFlush s resp (rt_store rt)" "answers CCheckpoint s resp (rt_store rt)"
    "answers CShutdown s resp (rt_store rt)" for resp
    using rel by (simp_all add: answers_def serve_def)
  have query: "answers c s resp (rt_store rt)" if "\<not> mutates c" "service_query c (present s) = Some resp" for c resp
    using that rel by (intro answers_served [of _ _ _ s]) (simp_all add: serve_def)
  show ?thesis
    using run False rel
    by (cases cmd) (auto simp: handle_command_def simp del: service_query.simps split: option.splits
        intro!: served_respond served_wait ctl query query_served [OF rel])
qed

lemma control_answers:
  assumes "wait_serves cmd s st wt" "wt \<in> {WaitFlush, WaitCheckpoint, WaitShutdown}"
  shows "answers cmd s resp st"
  using assms by (intro answers_served [of _ _ _ s]) (auto simp: serve_def)

lemma resume_served:
  assumes run: "resume pf fm cfg wt rep rt = Some rt'" and resp: "rt_responses rt = rt_responses rt0"
    and wt: "wait_serves cmd s (rt_store rt) wt"
  shows "served cmd s rt0 rt'"
proof (cases "\<exists>ann cp so. wt = WaitMutation ann cp so")
  case True
  then obtain ann cp so where mut: "wt = WaitMutation ann cp so" by blast
  have rej: "served cmd s rt0 rt'"
    if "mutation_rejected pf ann cp so e (mark_persist_unhealthy m rt) = Some rt'" "rejects e" for e m
  proof (rule rejected_served [OF _ that(2,1)])
    show "wait_serves cmd s (rt_store (mark_persist_unhealthy m rt)) (WaitMutation ann cp so)"
      by (rule wait_serves_same [OF wt [unfolded mut]]) simp
  qed (simp add: resp)
  have acc: "served cmd s rt0 (mutation_accepted cfg ann rt)" by (rule accepted_served [OF wt [unfolded mut] resp])
  show ?thesis
    using run acc by (cases "(pf, fm, cfg, wt, rep, rt)" rule: resume.cases) (auto simp: mut dest: rej)
next
  case False
  have auto: "served cmd s rt0 (respond r (rt\<lparr>rt_ops_since_snapshot := 0\<rparr>))" if "wt = WaitAutoCheckpoint r" for r
    using wt that resp by (intro served_respond) (auto simp: answers_def)
  have ctl: "answers cmd s r (rt_store rt)" if "wt \<in> {WaitFlush, WaitCheckpoint, WaitShutdown}" for r
    by (rule control_answers [OF wt that])
  show ?thesis
    using run False resp
    by (cases "(pf, fm, cfg, wt, rep, rt)" rule: resume.cases) (auto intro!: auto served_respond ctl)
qed

lemma progress_served:
  assumes run: "loop_progress pf fm cfg rt = Some (Some rt')" and wt: "waiting_for (rt_ctl rt) = Some wt"
    and serves: "wait_serves cmd s (rt_store rt) wt"
  shows "served cmd s rt rt'"
proof -
  obtain w where w: "rt_worker rt = Some w"
    using run by (auto simp: loop_progress_def split: option.splits)
  have res: "served cmd s rt rt'" if "resume pf fm cfg wt rep rt1 = Some rt'"
    "rt_responses rt1 = rt_responses rt" "rt_store rt1 = rt_store rt" for rep rt1
    using resume_served [OF that(1,2)] wait_serves_same [OF serves that(3)] by blast
  show ?thesis
  proof (cases "rt_ctl rt")
    case (Sending m wt')
    then have wt': "wt' = wt" using wt by simp
    show ?thesis
    proof (cases "wk_running w")
      case True
      then have "rt_responses rt' = rt_responses rt" "rt_store rt' = rt_store rt" "waiting_for (rt_ctl rt') = Some wt"
        using run w Sending wt' by (auto simp: loop_progress_def split: if_splits)
      with wait_serves_same [OF serves, of rt'] show ?thesis by (simp add: served_def)
    next
      case False
      then have sf: "send_failed pf fm cfg wt rt = Some rt'"
        using run w Sending wt' by (simp add: loop_progress_def)
      show ?thesis
      proof (cases "\<exists>resp. wt = WaitAutoCheckpoint resp")
        case True
        with sf serves show ?thesis by (auto simp: answers_def intro!: served_respond)
      next
        case False
        with sf have "resume pf fm cfg wt None rt = Some rt'" by (cases wt) simp_all
        then show ?thesis by (rule res) simp_all
      qed
    qed
  next
    case (Awaiting wt')
    then have wt': "wt' = wt" using wt by simp
    show ?thesis
      using run w Awaiting wt'
      by (auto simp: loop_progress_def simp del: resume.simps split: option.splits if_splits intro: res)
  qed (use wt in simp_all)
qed

end
