(* ===== verification/Qso_Linear.thy ===== *)
theory Qso_Linear
  imports Qso_Service
begin

section \<open>The clients see the atomic service\<close>

text \<open>
  The answers of the loop, in the order it gives them, are a run of the service, and each call
  that returned has the answer it was given, or found the channel closed. An answer is given
  while its call waits, so this order agrees with the order of calls that do not overlap: the
  clients cannot tell the system from one log on which every call acts at one moment between its
  start and its return.
\<close>


subsection \<open>The answers of a run\<close>

text \<open>The command the loop works on in a step.\<close>

fun in_hand :: "event \<Rightarrow> 's system \<Rightarrow> (nat \<times> command) option" where
  "in_hand ETake sy = (case sy_queue sy of [] \<Rightarrow> None | (n, clk, cmd) # _ \<Rightarrow> Some (n, cmd))"
| "in_hand _ sy = sy_serving sy"

definition step_answer :: "event \<Rightarrow> 's system \<Rightarrow> 's system \<Rightarrow> (nat \<times> command \<times> response) list" where
  "step_answer ev sy sy' =
    (if length (rt_responses (sy_rt sy)) < length (rt_responses (sy_rt sy'))
     then (case in_hand ev sy of
       None \<Rightarrow> []
     | Some (n, cmd) \<Rightarrow> [(n, cmd, last (rt_responses (sy_rt sy')))])
     else [])"

fun sy_trace :: "profile \<Rightarrow> fmt \<Rightarrow> runtime_config \<Rightarrow> 's op_sink \<Rightarrow> event list \<Rightarrow> 's system \<Rightarrow> (nat \<times> command \<times> response) list" where
  "sy_trace pf fm cfg sink [] sy = []"
| "sy_trace pf fm cfg sink (ev # evs) sy =
    (case sy_exec pf fm cfg sink ev sy of
       None \<Rightarrow> []
     | Some sy' \<Rightarrow> step_answer ev sy sy' @ sy_trace pf fm cfg sink evs sy')"

text \<open>Later events only add answers at the end.\<close>

lemma sy_trace_append:
  "sy_run pf fm cfg sink evs sy = Some sy' \<Longrightarrow>
    sy_trace pf fm cfg sink (evs @ evs') sy = sy_trace pf fm cfg sink evs sy @ sy_trace pf fm cfg sink evs' sy'"
  by (induction evs arbitrary: sy) (auto split: option.splits)


subsection \<open>Steps of the loop\<close>

lemma step_answer_same: "rt_responses (sy_rt sy') = rt_responses (sy_rt sy) \<Longrightarrow> step_answer ev sy sy' = []"
  by (simp add: step_answer_def)

lemma step_answer_new:
  "rt_responses (sy_rt sy') = rt_responses (sy_rt sy) @ [resp] \<Longrightarrow> in_hand ev sy = Some (n, cmd) \<Longrightarrow>
    step_answer ev sy sy' = [(n, cmd, resp)]"
  by (simp add: step_answer_def)

fun client_event :: "event \<Rightarrow> bool" where
  "client_event ETake = False"
| "client_event (EStep _) = False"
| "client_event EClosed = False"
| "client_event _ = True"

lemma client_event_keeps:
  assumes "sy_exec pf fm cfg sink ev sy = Some sy'" "client_event ev"
  shows "sy_rt sy' = sy_rt sy" "sy_serving sy' = sy_serving sy" "step_answer ev sy sy' = []"
proof -
  show "sy_rt sy' = sy_rt sy" "sy_serving sy' = sy_serving sy"
    using assms by (cases ev; auto split: if_splits call.splits)+
  then show "step_answer ev sy sy' = []" by (simp add: step_answer_same)
qed

text \<open>A step of the loop or the worker: a command is taken, the command in hand goes on, or nothing
  happens that a client could see.\<close>

lemma loop_event:
  assumes run: "sy_exec pf fm cfg sink ev sy = Some sy'" and ev: "\<not> client_event ev"
    and inv: "sy_inv sy" and st: "rt_store_ok (Suc k) (sy_rt sy)"
  obtains n clk cmd rt' sy1 where "handle_command pf fm cfg clk cmd (sy_rt sy) = Some rt'" "sy' = settle (Some rt') sy1"
      "sy_rt sy1 = sy_rt sy" "sy_calls sy1 = sy_calls sy" "calls_ok sy1" "set (held sy1) = set (held sy)"
      "sy_serving sy1 = Some (n, cmd)" "in_hand ev sy = Some (n, cmd)"
      "waiting_for (rt_ctl (sy_rt sy)) = None" "(n, clk, cmd) \<in> set (sy_queue sy)"
      "set (sy_queue sy1) \<subseteq> set (sy_queue sy)"
    | n cmd wt rt' where "loop_progress pf fm cfg (sy_rt sy) = Some (Some rt')" "sy' = settle (Some rt') sy"
      "sy_serving sy = Some (n, cmd)" "in_hand ev sy = Some (n, cmd)" "waiting_for (rt_ctl (sy_rt sy)) = Some wt"
    | rt' l where "sy' = settle (Some rt') sy" "rt_responses rt' = rt_responses (sy_rt sy)"
      "rt_store rt' = rt_store (sy_rt sy)" "waiting_for (rt_ctl rt') = waiting_for (rt_ctl (sy_rt sy))"
      "rt_exec pf fm cfg sink l (sy_rt sy) = Some (Some rt')" "l \<noteq> LProgress" "\<not> client_label l \<or> l = LDrop"
proof (cases ev)
  case ETake
  then obtain n clk cmd rest o_rt where q: "sy_queue sy = (n, clk, cmd) # rest"
    and ex: "rt_exec pf fm cfg sink (LCommand clk cmd) (sy_rt sy) = Some o_rt"
    and sy': "sy' = settle o_rt (sy\<lparr>sy_queue := rest, sy_serving := Some (n, cmd)\<rparr>)"
    using run by (auto split: list.splits option.splits simp del: rt_exec.simps)
  obtain rt' where rt': "o_rt = Some rt'" using rt_exec_ok [OF st ex] by blast
  have idle: "rt_ctl (sy_rt sy) = Idle" and hc: "handle_command pf fm cfg clk cmd (sy_rt sy) = Some rt'"
    using ex by (auto simp: rt' split: if_splits)
  have free: "sy_serving sy = None"
    using inv idle by (auto simp: sy_inv_def serves_not split: option.splits)
  let ?sy1 = "sy\<lparr>sy_queue := rest, sy_serving := Some (n, cmd)\<rparr>"
  have "calls_ok ?sy1" "set (held ?sy1) = set (held sy)"
    using inv q free by (auto simp: sy_inv_def calls_ok_def held_def)
  then show thesis
    using that(1) [OF hc sy' [unfolded rt']] q idle by (simp add: ETake subset_insertI)
next
  case (EStep l)
  then obtain o_rt where ex: "rt_exec pf fm cfg sink l (sy_rt sy) = Some o_rt" "\<not> client_label l"
    and sy': "sy' = settle o_rt sy"
    using run by (auto split: if_splits option.splits simp del: rt_exec.simps)
  obtain rt' where rt': "o_rt = Some rt'" using rt_exec_ok [OF st ex(1)] by blast
  show thesis
  proof (cases "l = LProgress")
    case True
    with ex rt' have lp: "loop_progress pf fm cfg (sy_rt sy) = Some (Some rt')" by simp
    then obtain n cmd where srv: "sy_serving sy = Some (n, cmd)" "serves cmd (rt_ctl (sy_rt sy))"
      using inv idle_no_progress [of "sy_rt sy" pf fm cfg] by (auto simp: sy_inv_def split: option.splits)
    with that(2) [OF lp sy' [unfolded rt']] show thesis by (auto simp: EStep serves_def)
  next
    case False
    then have "rt_responses rt' = rt_responses (sy_rt sy) \<and> rt_ctl rt' = rt_ctl (sy_rt sy)"
      using quiet_step [OF ex(1,2)] rt' by blast
    moreover have "rt_store rt' = rt_store (sy_rt sy)"
      using ex False rt'
      by (cases l) (auto simp: map_worker_def handle_durable_sel split: option.splits if_splits elim!: loop_durable_cases)
    ultimately show thesis using that(3) [OF sy' [unfolded rt']] ex False rt' by simp
  qed
next
  case EClosed
  then obtain o_rt where ex: "rt_exec pf fm cfg sink LDrop (sy_rt sy) = Some o_rt" and sy': "sy' = settle o_rt sy"
    using run by (auto split: if_splits option.splits)
  then have "o_rt = Some ((sy_rt sy)\<lparr>rt_ctl := Stopped\<rparr>)" "rt_ctl (sy_rt sy) = Idle"
    by (auto split: if_splits)
  with that(3) [of "(sy_rt sy)\<lparr>rt_ctl := Stopped\<rparr>" LDrop] sy' show thesis by simp
qed (use ev in simp_all)


subsection \<open>The service behind a system\<close>

definition some_lost :: "(nat \<times> command \<times> response) list \<Rightarrow> bool" where
  "some_lost tr \<longleftrightarrow> list_ex (\<lambda>(n, cmd, resp). lost_entry cmd resp) tr"

definition follows :: "service \<Rightarrow> (nat \<times> command \<times> response) list \<Rightarrow> 's system \<Rightarrow> bool" where
  "follows s0 tr sy \<longleftrightarrow> some_lost tr \<or>
    (\<exists>s. serve_all (map snd tr) s0 = Some s \<and>
      (case waiting_for (rt_ctl (sy_rt sy)) of
         None \<Rightarrow> behind (rt_store (sy_rt sy)) s
       | Some wt \<Rightarrow> \<exists>n cmd. sy_serving sy = Some (n, cmd) \<and> wait_serves cmd s (rt_store (sy_rt sy)) wt))"

lemma settle_serving:
  "sy_serving sy1 = Some (n, cmd) \<Longrightarrow> rt_responses rt' = rt_responses (sy_rt sy1) \<Longrightarrow> rt_ctl rt' \<noteq> Stopped \<Longrightarrow>
    sy_serving (settle (Some rt') sy1) = Some (n, cmd)"
  by (simp add: settle_def deliver_def close_channel_def)

lemma served_follows:
  assumes srv: "served cmd s (sy_rt sy) rt'" and run: "serve_all (map snd tr) s0 = Some s"
    and sy1: "sy_rt sy1 = sy_rt sy" "sy_serving sy1 = Some (n, cmd)" "in_hand ev sy = Some (n, cmd)"
  shows "follows s0 (tr @ step_answer ev sy (settle (Some rt') sy1)) (settle (Some rt') sy1)"
  using srv [unfolded served_def]
proof (elim disjE exE conjE)
  fix resp assume resp: "rt_responses rt' = rt_responses (sy_rt sy) @ [resp]" "answers cmd s resp (rt_store rt')"
    "waiting_for (rt_ctl rt') = None"
  have tr: "step_answer ev sy (settle (Some rt') sy1) = [(n, cmd, resp)]"
    using resp(1) sy1(3) by (intro step_answer_new) (simp_all add: settle_rt)
  show ?thesis
    using resp(2,3) run unfolding tr
    by (auto simp: follows_def some_lost_def answers_def serve_all_append settle_rt)
next
  fix wt assume wt: "rt_responses rt' = rt_responses (sy_rt sy)" "waiting_for (rt_ctl rt') = Some wt"
    "wait_serves cmd s (rt_store rt') wt"
  have tr: "step_answer ev sy (settle (Some rt') sy1) = []"
    using wt(1) by (intro step_answer_same) (simp add: settle_rt)
  have "sy_serving (settle (Some rt') sy1) = Some (n, cmd)"
    using wt sy1 by (intro settle_serving) auto
  with wt run show ?thesis unfolding tr
    by (auto simp: follows_def settle_rt simp del: wait_serves.simps)
qed

text \<open>Clients call only with drafts that are not void.\<close>

fun live_event :: "event \<Rightarrow> bool" where
  "live_event (ECall _ cmd) \<longleftrightarrow> cmd_live (cmd_of cmd)"
| "live_event _ = True"

fun live_call :: "call \<Rightarrow> bool" where
  "live_call (CallSending _ cmd) \<longleftrightarrow> cmd_live (cmd_of cmd)"
| "live_call _ = True"

definition live_system :: "'s system \<Rightarrow> bool" where
  "live_system sy \<longleftrightarrow> list_all live_call (sy_calls sy) \<and> list_all (\<lambda>(n, clk, cmd). cmd_live (cmd_of cmd)) (sy_queue sy)"

lemma answer_call_live: "live_call c \<Longrightarrow> live_call (answer_call rx c)"
  by (cases c) simp_all

lemma drop_senders_live: "list_all live_call cs \<Longrightarrow> list_all live_call (drop_senders ns cs)"
proof (induction ns arbitrary: cs)
  case (Cons n ns)
  have "list_all live_call (cs[n := answer_call None (cs ! n)])"
    by (rule list_all_update_nth [OF Cons.prems]) (rule answer_call_live)
  with Cons.IH show ?case by (simp add: drop_senders_def)
qed (simp add: drop_senders_def)

lemma settle_live:
  assumes "live_system sy"
  shows "live_system (settle o_rt sy)"
proof -
  have close: "live_system sy' \<Longrightarrow> live_system (close_channel sy')" for sy' :: "'a system"
    by (simp add: live_system_def close_channel_def drop_senders_live)
  have "live_system (deliver rt' sy)" for rt'
    using assms
    by (auto simp: live_system_def deliver_def split: option.split intro!: list_all_update_nth answer_call_live)
  moreover have "live_system (sy\<lparr>sy_rt := rt\<rparr>)" for rt
    using assms by (simp add: live_system_def)
  ultimately show ?thesis by (auto simp: settle_def split: option.split intro: close)
qed

lemma sy_exec_live:
  assumes run: "sy_exec pf fm cfg sink ev sy = Some sy'" and live: "live_event ev" "live_system sy"
  shows "live_system sy'"
proof (cases ev)
  case (ESend n)
  then have "live_call (sy_calls sy ! n)"
    using run live(2) by (auto simp: live_system_def list_all_length split: if_splits)
  with ESend run live(2) show ?thesis
    by (auto simp: live_system_def split: if_splits call.splits intro!: list_all_update)
next
  case (EAbandon n)
  with run live(2) show ?thesis
    by (auto simp: live_system_def split: if_splits call.splits intro!: list_all_update)
next
  case ETake
  with run obtain n clk cmd rest o_rt where "sy_queue sy = (n, clk, cmd) # rest"
      "sy' = settle o_rt (sy\<lparr>sy_queue := rest, sy_serving := Some (n, cmd)\<rparr>)"
    by (auto split: list.splits option.splits simp del: rt_exec.simps)
  with live(2) show ?thesis by (auto intro!: settle_live) (simp add: live_system_def)
qed (use run live in \<open>auto simp: live_system_def split: if_splits option.splits intro!: settle_live [unfolded live_system_def]
    simp del: rt_exec.simps\<close>)

lemma sy_exec_follows:
  assumes follows: "follows s0 tr sy" and run: "sy_exec pf fm cfg sink ev sy = Some sy'"
    and inv: "sy_inv sy" and st: "rt_store_ok (Suc k) (sy_rt sy)" and live: "live_system sy"
  shows "follows s0 (tr @ step_answer ev sy sy') sy'"
proof (cases "client_event ev \<or> some_lost tr")
  case True
  then show ?thesis
  proof
    assume "client_event ev"
    note keeps = client_event_keeps [OF run this]
    show ?thesis using follows unfolding follows_def keeps append_Nil2 .
  qed (simp add: follows_def some_lost_def)
next
  case False
  then obtain s where s: "serve_all (map snd tr) s0 = Some s"
    and now: "case waiting_for (rt_ctl (sy_rt sy)) of
        None \<Rightarrow> behind (rt_store (sy_rt sy)) s
      | Some wt \<Rightarrow> \<exists>n cmd. sy_serving sy = Some (n, cmd) \<and> wait_serves cmd s (rt_store (sy_rt sy)) wt"
    using follows by (auto simp: follows_def)
  have hr: "has_room (rt_store (sy_rt sy))" using st room_for_Suc by (auto simp: rt_store_ok_def)
  from False have ev: "\<not> client_event ev" by simp
  from run ev inv st show ?thesis
  proof (cases rule: loop_event)
    case (1 n clk cmd rt' sy1)
    have "cmd_live (cmd_of cmd)" using live 1(10) by (auto simp: live_system_def list_all_iff)
    with command_served [OF _ hr _ 1(1)] now 1(9) have "served cmd s (sy_rt sy) rt'" by simp
    from served_follows [OF this s 1(3,7,8)] show ?thesis by (simp add: 1(2))
  next
    case (2 n cmd wt rt')
    with now have "wait_serves cmd s (rt_store (sy_rt sy)) wt" by simp
    from served_follows [OF progress_served [OF 2(1,5) this] s refl 2(3,4)] show ?thesis by (simp add: 2(2))
  next
    case (3 rt' l)
    have tr: "step_answer ev sy sy' = []"
      using 3(2) by (intro step_answer_same) (simp add: 3(1) settle_rt)
    have "sy_serving sy' = Some (n, cmd)"
      if "waiting_for (rt_ctl (sy_rt sy)) = Some wt" "sy_serving sy = Some (n, cmd)" for wt n cmd
      using that 3(2,4) unfolding 3(1) by (intro settle_serving) auto
    with now s 3 show ?thesis unfolding tr
      by (auto simp: follows_def settle_rt simp del: wait_serves.simps split: option.splits)
  qed
qed


subsection \<open>The calls\<close>

text \<open>Every answer was given to a call of its own, which has returned it unless its client gave up; every
  call that returned has such an answer, or found the channel closed.\<close>

definition calls_match :: "(nat \<times> command \<times> response) list \<Rightarrow> call list \<Rightarrow> bool" where
  "calls_match tr calls \<longleftrightarrow> distinct (map fst tr) \<and>
    (\<forall>(n, cmd, resp) \<in> set tr. n < length calls \<and>
      (calls ! n = CallReturned cmd (method_result cmd (Some resp)) \<or> calls ! n = CallAbandoned cmd)) \<and>
    (\<forall>n < length calls. \<forall>cmd r. calls ! n = CallReturned cmd r \<longrightarrow>
      r = method_result cmd None \<or> (\<exists>resp. (n, cmd, resp) \<in> set tr \<and> r = method_result cmd (Some resp)))"

definition linear :: "(nat \<times> command \<times> response) list \<Rightarrow> 's system \<Rightarrow> bool" where
  "linear tr sy \<longleftrightarrow> calls_match tr (sy_calls sy) \<and> (fst ` set tr) \<inter> fst ` set (held sy) = {}"

lemma calls_matchI:
  assumes "distinct (map fst tr)"
    and "\<And>n cmd resp. (n, cmd, resp) \<in> set tr \<Longrightarrow> n < length calls \<and>
      (calls ! n = CallReturned cmd (method_result cmd (Some resp)) \<or> calls ! n = CallAbandoned cmd)"
    and "\<And>n cmd r. n < length calls \<Longrightarrow> calls ! n = CallReturned cmd r \<Longrightarrow>
      r = method_result cmd None \<or> (\<exists>resp. (n, cmd, resp) \<in> set tr \<and> r = method_result cmd (Some resp))"
  shows "calls_match tr calls"
  unfolding calls_match_def using assms by blast

lemma calls_match_in:
  assumes "calls_match tr calls" "(n, cmd, resp) \<in> set tr"
  shows "n < length calls" "calls ! n = CallReturned cmd (method_result cmd (Some resp)) \<or> calls ! n = CallAbandoned cmd"
  using assms unfolding calls_match_def by blast+

lemma calls_match_returned:
  assumes "calls_match tr calls" "n < length calls" "calls ! n = CallReturned cmd r"
  shows "r = method_result cmd None \<or> (\<exists>resp. (n, cmd, resp) \<in> set tr \<and> r = method_result cmd (Some resp))"
  using assms unfolding calls_match_def by blast

lemma calls_match_out:
  assumes "calls_match tr calls" "calls ! n = CallSending clk cmd \<or> calls ! n = CallWaiting cmd"
  shows "n \<notin> fst ` set tr"
proof
  assume "n \<in> fst ` set tr"
  then obtain cmd' resp where "(n, cmd', resp) \<in> set tr" by force
  from calls_match_in(2) [OF assms(1) this] assms(2) show False by auto
qed

lemma trace_other: "(m, cmd, resp) \<in> set tr \<Longrightarrow> n \<notin> fst ` set tr \<Longrightarrow> m \<noteq> n"
  by force

text \<open>A call that is in no answer changes.\<close>

lemma calls_match_update:
  assumes m: "calls_match tr calls" and n: "n \<notin> fst ` set tr"
    and c: "\<And>cmd r. c = CallReturned cmd r \<Longrightarrow> r = method_result cmd None"
  shows "calls_match tr (calls[n := c])"
proof (rule calls_matchI)
  show "distinct (map fst tr)" using m by (simp add: calls_match_def)
  show "k < length (calls[n := c]) \<and> ((calls[n := c]) ! k = CallReturned cmd (method_result cmd (Some resp)) \<or>
      (calls[n := c]) ! k = CallAbandoned cmd)" if "(k, cmd, resp) \<in> set tr" for k cmd resp
    using calls_match_in [OF m that] trace_other [OF that n] by simp
  show "r = method_result cmd None \<or> (\<exists>resp. (k, cmd, resp) \<in> set tr \<and> r = method_result cmd (Some resp))"
    if "k < length (calls[n := c])" "(calls[n := c]) ! k = CallReturned cmd r" for k cmd r
    using that c calls_match_returned [OF m, of k cmd r] by (cases "k = n") auto
qed

text \<open>A call is answered.\<close>

lemma calls_match_answer:
  assumes m: "calls_match tr calls" and n: "n \<notin> fst ` set tr" "n < length calls"
    and c: "calls ! n = CallWaiting cmd \<or> calls ! n = CallAbandoned cmd"
  shows "calls_match (tr @ [(n, cmd, resp)]) (calls[n := answer_call (Some resp) (calls ! n)])" (is "calls_match ?tr ?calls")
proof (rule calls_matchI)
  show "distinct (map fst ?tr)" using m n(1) by (simp add: calls_match_def)
  show "k < length ?calls \<and> (?calls ! k = CallReturned cmd' (method_result cmd' (Some resp')) \<or>
      ?calls ! k = CallAbandoned cmd')" if "(k, cmd', resp') \<in> set ?tr" for k cmd' resp'
  proof (cases "(k, cmd', resp') \<in> set tr")
    case True
    from calls_match_in [OF m True] trace_other [OF True n(1)] show ?thesis by simp
  next
    case False
    with that have "k = n" "cmd' = cmd" "resp' = resp" by auto
    with c n(2) show ?thesis by auto
  qed
  show "r = method_result cmd' None \<or> (\<exists>resp'. (k, cmd', resp') \<in> set ?tr \<and> r = method_result cmd' (Some resp'))"
    if "k < length ?calls" "?calls ! k = CallReturned cmd' r" for k cmd' r
    using that c calls_match_returned [OF m, of k cmd' r] by (cases "k = n") auto
qed

lemma drop_senders_match:
  "calls_match tr calls \<Longrightarrow> fst ` set tr \<inter> set ns = {} \<Longrightarrow> calls_match tr (drop_senders ns calls)"
proof (induction ns arbitrary: calls)
  case (Cons n ns)
  have "calls_match tr (calls[n := answer_call None (calls ! n)])"
  proof (cases "\<exists>cmd. calls ! n = CallWaiting cmd")
    case True
    with Cons.prems show ?thesis by (intro calls_match_update) auto
  next
    case False
    then have "answer_call None (calls ! n) = calls ! n" by (cases "calls ! n") auto
    with Cons.prems(1) show ?thesis by simp
  qed
  with Cons show ?case by (simp add: drop_senders_def)
qed (simp add: drop_senders_def)

lemma close_linear:
  assumes "linear tr sy"
  shows "linear tr (close_channel sy)"
proof (cases "rt_ctl (sy_rt sy) = Stopped")
  case True
  have "calls_match tr (drop_senders (map fst (held sy)) (sy_calls sy))"
    using assms by (intro drop_senders_match) (simp_all add: linear_def)
  with True show ?thesis by (simp add: linear_def close_channel_def) (simp add: held_def)
next
  case False
  with assms show ?thesis by (simp add: close_channel_def)
qed

lemma linear_calls:
  "linear tr sy \<Longrightarrow> calls_match tr (sy_calls sy') \<Longrightarrow> set (held sy') = set (held sy) \<Longrightarrow> linear tr sy'"
  by (simp add: linear_def)

text \<open>A step of the loop that works on a command.\<close>

lemma goes_on_linear:
  assumes lin: "linear tr sy" and sy1: "sy_rt sy1 = sy_rt sy" "sy_calls sy1 = sy_calls sy" "calls_ok sy1"
      "set (held sy1) = set (held sy)" "sy_serving sy1 = Some (n, cmd)" "in_hand ev sy = Some (n, cmd)"
    and on: "goes_on cmd (sy_rt sy) rt'"
  shows "linear (tr @ step_answer ev sy (settle (Some rt') sy1)) (settle (Some rt') sy1)"
proof -
  have lin1: "linear tr sy1" using lin sy1(2,4) by (simp add: linear_def)
  have held: "held sy1 = map (\<lambda>(n, clk, cmd). (n, cmd)) (sy_queue sy1) @ [(n, cmd)]"
    using sy1(5) by (simp add: held_def)
  have "linear (tr @ step_answer ev sy (settle (Some rt') sy1)) (deliver rt' sy1)"
  proof (cases "answered cmd (sy_rt sy) rt'")
    case True
    then obtain resp where resp: "rt_responses rt' = rt_responses (sy_rt sy) @ [resp]" by (auto simp: answered_def)
    then have tr: "step_answer ev sy (settle (Some rt') sy1) = [(n, cmd, resp)]"
      using sy1(6) by (intro step_answer_new) (simp_all add: settle_rt)
    have "(n, cmd) \<in> waits (sy_calls sy1) \<union> abandoned (sy_calls sy1)"
      using sy1(3) held by (auto simp: calls_ok_def)
    then have n: "n < length (sy_calls sy1)" "sy_calls sy1 ! n = CallWaiting cmd \<or> sy_calls sy1 ! n = CallAbandoned cmd"
      by (auto simp: calls_at_def)
    have "n \<notin> fst ` set tr" using lin1 held by (auto simp: linear_def)
    with calls_match_answer [OF _ this n] lin1 have
      "calls_match (tr @ [(n, cmd, resp)]) ((sy_calls sy1)[n := answer_call (Some resp) (sy_calls sy1 ! n)])"
      by (simp add: linear_def)
    moreover have "deliver rt' sy1 = sy1\<lparr>sy_rt := rt', sy_serving := None,
        sy_calls := (sy_calls sy1)[n := answer_call (Some resp) (sy_calls sy1 ! n)]\<rparr>"
      using sy1(1,5) resp by (simp add: deliver_def)
    moreover have "n \<notin> fst ` set (map (\<lambda>(n, clk, cmd). (n, cmd)) (sy_queue sy1))"
      using sy1(3) held by (simp add: calls_ok_def image_image)
    ultimately show ?thesis
      using lin1 unfolding linear_def held by (simp add: tr held_def image_Un)
  next
    case False
    with on have same: "rt_responses rt' = rt_responses (sy_rt sy)" by (simp add: goes_on_def)
    then have "step_answer ev sy (settle (Some rt') sy1) = []"
      by (intro step_answer_same) (simp add: settle_rt)
    with same lin1 sy1(1,5) show ?thesis by (simp add: linear_def deliver_def)
  qed
  then show ?thesis by (simp add: settle_def close_linear)
qed

lemma calls_match_append:
  assumes m: "calls_match tr calls"
  shows "calls_match tr (calls @ [CallSending clk cmd])"
proof (rule calls_matchI)
  show "distinct (map fst tr)" using m by (simp add: calls_match_def)
  show "n < length (calls @ [CallSending clk cmd]) \<and>
      ((calls @ [CallSending clk cmd]) ! n = CallReturned cmd' (method_result cmd' (Some resp)) \<or>
       (calls @ [CallSending clk cmd]) ! n = CallAbandoned cmd')" if "(n, cmd', resp) \<in> set tr" for n cmd' resp
    using calls_match_in [OF m that] by (simp add: nth_append)
  show "r = method_result cmd' None \<or> (\<exists>resp. (n, cmd', resp) \<in> set tr \<and> r = method_result cmd' (Some resp))"
    if "n < length (calls @ [CallSending clk cmd])" "(calls @ [CallSending clk cmd]) ! n = CallReturned cmd' r" for n cmd' r
    using that calls_match_returned [OF m, of n cmd' r] by (simp add: nth_append split: if_splits)
qed

text \<open>What the clients do on their own.\<close>

lemma send_linear:
  assumes lin: "linear tr sy" and run: "sy_exec pf fm cfg sink (ESend n) sy = Some sy'"
  shows "linear tr sy'"
proof -
  have m: "calls_match tr (sy_calls sy)" using lin by (simp add: linear_def)
  obtain clk cmd where n: "sy_calls sy ! n = CallSending clk cmd"
    using run by (auto split: if_splits call.splits)
  then have out: "n \<notin> fst ` set tr" by (intro calls_match_out [OF m]) auto
  note update = calls_match_update [OF m out]
  show ?thesis
  proof (cases "rt_ctl (sy_rt sy) = Stopped")
    case True
    with run n have "sy' = sy\<lparr>sy_calls := (sy_calls sy)[n := CallReturned cmd (method_result cmd None)]\<rparr>"
      by (auto split: if_splits)
    with lin update [of "CallReturned cmd (method_result cmd None)"] show ?thesis by (simp add: linear_def)
  next
    case False
    with run n have sy': "sy' = sy\<lparr>sy_queue := sy_queue sy @ [(n, clk, cmd)], sy_calls := (sy_calls sy)[n := CallWaiting cmd]\<rparr>"
      by (auto split: if_splits)
    moreover obtain xs ys where "held sy = xs @ ys" "held sy' = xs @ [(n, cmd)] @ ys"
      unfolding sy' by (rule held_push)
    ultimately show ?thesis
      using lin out update [of "CallWaiting cmd"] by (simp add: linear_def image_Un)
  qed
qed

lemma handles_linear: "linear tr (sy\<lparr>sy_handles := k\<rparr>) = linear tr sy"
  by (simp add: linear_def held_def)

lemma client_linear:
  assumes lin: "linear tr sy" and run: "sy_exec pf fm cfg sink ev sy = Some sy'" and ev: "client_event ev"
  shows "linear tr sy'"
proof (cases ev)
  case (ECall clk cmd)
  then have "sy' = sy\<lparr>sy_calls := sy_calls sy @ [CallSending clk cmd]\<rparr>" using run by (auto split: if_splits)
  with lin show ?thesis by (simp add: linear_def calls_match_append)
next
  case (ESend n)
  with lin run show ?thesis by (metis send_linear)
next
  case (EAbandon n)
  then obtain clk cmd where n: "sy_calls sy ! n = CallSending clk cmd \<or> sy_calls sy ! n = CallWaiting cmd"
    and sy': "sy' = sy\<lparr>sy_calls := (sy_calls sy)[n := CallAbandoned cmd]\<rparr>"
    using run by (auto split: if_splits call.splits)
  have m: "calls_match tr (sy_calls sy)" using lin by (simp add: linear_def)
  from calls_match_update [OF m calls_match_out [OF m n], of "CallAbandoned cmd"] lin show ?thesis
    by (simp add: linear_def sy')
qed (use lin run ev handles_linear in \<open>auto split: if_splits\<close>)

lemma sy_exec_linear:
  assumes lin: "linear tr sy" and run: "sy_exec pf fm cfg sink ev sy = Some sy'"
    and inv: "sy_inv sy" and st: "rt_store_ok (Suc k) (sy_rt sy)"
  shows "linear (tr @ step_answer ev sy sy') sy'"
proof (cases "client_event ev")
  case True
  with client_linear [OF lin run] client_event_keeps(3) [OF run] show ?thesis by simp
next
  case False
  from run False inv st show ?thesis
  proof (cases rule: loop_event)
    case (1 n clk cmd rt' sy1)
    from goes_on_linear [OF lin 1(3-8) goes_on_command [OF 1(1)]] show ?thesis by (simp only: 1(2))
  next
    case (2 n cmd wt rt')
    have "calls_ok sy" "serves cmd (rt_ctl (sy_rt sy))" using inv 2(3) by (simp_all add: sy_inv_def)
    from goes_on_linear [OF lin refl refl this(1) refl 2(3,4) goes_on_progress [OF 2(1) this(2)]] show ?thesis
      by (simp only: 2(2))
  next
    case (3 rt' l)
    have "step_answer ev sy sy' = []"
      using 3(2) by (intro step_answer_same) (simp add: 3(1) settle_rt)
    moreover have "deliver rt' sy = sy\<lparr>sy_rt := rt'\<rparr>"
      using 3(2) by (auto simp: deliver_def split: option.split)
    then have "linear tr (deliver rt' sy)" using lin by (simp add: linear_def)
    ultimately show ?thesis by (simp add: 3(1) settle_def close_linear)
  qed
qed


subsection \<open>Runs\<close>

definition atomic_ok :: "service \<Rightarrow> (nat \<times> command \<times> response) list \<Rightarrow> nat \<Rightarrow> 's system \<Rightarrow> bool" where
  "atomic_ok s0 tr k sy \<longleftrightarrow> sy_acks k sy \<and> live_system sy \<and> follows s0 tr sy \<and> linear tr sy"

lemma sy_exec_atomic:
  assumes ok: "atomic_ok s0 tr (Suc k) sy" and run: "sy_exec pf fm cfg sink ev sy = Some sy'" and live: "live_event ev"
  shows "atomic_ok s0 (tr @ step_answer ev sy sy') k sy'"
proof -
  have inv: "sy_inv sy" "rt_store_ok (Suc k) (sy_rt sy)" using ok by (simp_all add: atomic_ok_def sy_acks_def)
  with ok sy_exec_acks [OF _ run] sy_exec_live [OF run live] sy_exec_follows [OF _ run inv] sy_exec_linear [OF _ run inv]
  show ?thesis by (simp add: atomic_ok_def)
qed

lemma sy_run_atomic:
  "sy_run pf fm cfg sink evs sy = Some sy' \<Longrightarrow> list_all live_event evs \<Longrightarrow> atomic_ok s0 tr (length evs + k) sy \<Longrightarrow>
    atomic_ok s0 (tr @ sy_trace pf fm cfg sink evs sy) k sy'"
proof (induction evs arbitrary: sy tr)
  case (Cons ev evs)
  from Cons.prems(1) obtain sy1 where sy1: "sy_exec pf fm cfg sink ev sy = Some sy1" "sy_run pf fm cfg sink evs sy1 = Some sy'"
    by (auto split: option.splits)
  have "atomic_ok s0 (tr @ step_answer ev sy sy1) (length evs + k) sy1"
    using Cons.prems(2,3) by (intro sy_exec_atomic [OF _ sy1(1)]) simp_all
  from Cons.IH [OF sy1(2) _ this] Cons.prems(2) sy1(1) show ?case by simp
qed simp

lemma spawn_atomic:
  assumes spawn: "spawn_system store o_sink cfg = Some sy0" and "store_inv store" "room_for k store"
    and "undo store = []" "redo store = []"
  shows "atomic_ok (start_service store) [] k sy0"
proof -
  obtain rt where rt: "spawn_qsolog store o_sink cfg = Some rt"
    "sy0 = \<lparr>sy_rt = rt, sy_handles = 1, sy_queue = [], sy_serving = None, sy_calls = []\<rparr>"
    using spawn by (auto simp: spawn_system_def)
  then have "rt_ctl rt = Idle" "rt_store rt = store" by (auto simp: spawn_qsolog_def split: if_splits)
  with behind_start [OF assms(2,4,5)] spawn_acks [OF assms(1-3)] show ?thesis
    by (simp add: atomic_ok_def live_system_def follows_def linear_def calls_match_def rt(2))
qed


subsection \<open>Without a journal\<close>

text \<open>Nothing is refused or rejected when there is no sink: the only errors are the store's.\<close>

definition store_answer :: "response \<Rightarrow> bool" where
  "store_answer resp \<longleftrightarrow> (case answer_error resp of Some (RtStore _) \<Rightarrow> True | Some _ \<Rightarrow> False | None \<Rightarrow> True)"

definition memory_only :: "'s runtime \<Rightarrow> bool" where
  "memory_only rt \<longleftrightarrow> rt_worker rt = None \<and> is_healthy (rt_health rt) \<and> list_all store_answer (rt_responses rt)"

lemma store_answer_simps [simp]:
  "store_answer (command_error cmd (RtStore e))" "store_answer (RespRecord r)" "store_answer (RespRecords rs)"
  "store_answer (RespSeq sq)" "store_answer (RespUnit (Inr ()))"
  by (simp_all add: store_answer_def)

lemma store_answer_announce [simp]: "store_answer (announce_response ann)"
  by (cases ann) (simp_all add: store_answer_def)

lemma memory_only_respond: "memory_only rt \<Longrightarrow> store_answer resp \<Longrightarrow> memory_only (respond resp rt)"
  by (simp add: memory_only_def respond_def)

lemma memory_only_frame [simp]:
  "memory_only (rt\<lparr>rt_store := st\<rparr>) = memory_only rt" "memory_only (rt\<lparr>rt_ctl := c\<rparr>) = memory_only rt"
  "memory_only (emit ev rt) = memory_only rt" "memory_only (rt\<lparr>rt_ops_since_snapshot := n\<rparr>) = memory_only rt"
  by (simp_all add: memory_only_def emit_def)

lemma memory_only_accepted:
  assumes "memory_only rt"
  shows "memory_only (mutation_accepted cfg ann rt)"
proof -
  have "rt_worker rt = None" using assms by (simp add: memory_only_def)
  then show ?thesis
    using assms
    by (cases ann) (auto simp: mutation_accepted_def maybe_auto_checkpoint_def Let_def emit_def intro!: memory_only_respond
        simp del: announce_response.simps, simp_all add: memory_only_def)
qed

lemma memory_only_command:
  assumes mem: "memory_only rt" and run: "handle_command pf fm cfg clk cmd rt = Some rt'"
  shows "memory_only rt'"
proof -
  have w: "rt_worker rt = None" "ensure_mutation_allowed (cfg_ack_mode cfg) (rt_health rt) = Inr ()"
    using mem by (simp_all add: memory_only_def ensure_mutation_allowed_def)
  have "memory_only rt'" if "handle_mutation pf fm cfg clk cmd rt = Some rt'"
    using that w mem
    by (auto simp: handle_mutation_def Let_def persist_after_mutation_def split: result.splits
        intro: memory_only_accepted memory_only_respond)
  then show ?thesis
    using run w(1) mem by (cases cmd) (auto simp: handle_command_def intro!: memory_only_respond)
qed

lemma memory_only_exec:
  assumes mem: "memory_only rt" and run: "rt_exec pf fm cfg sink l rt = Some (Some rt')"
  shows "memory_only rt'"
proof -
  have "rt_worker rt = None" using mem by (simp add: memory_only_def)
  with run mem show ?thesis
    by (cases l) (auto simp: loop_progress_def loop_durable_def map_worker_def split: if_splits prod.splits ctl.splits
        intro: memory_only_command)
qed

lemma memory_only_step:
  assumes mem: "memory_only (sy_rt sy)" and st: "rt_store_ok (Suc k) (sy_rt sy)"
    and run: "sy_exec pf fm cfg sink ev sy = Some sy'"
  shows "memory_only (sy_rt sy')" "list_all (\<lambda>(n, cmd, resp). store_answer resp) (step_answer ev sy sy')"
proof -
  from run show mem': "memory_only (sy_rt sy')"
  proof (cases rule: sy_exec_shape)
    case 1
    with mem show ?thesis by simp
  next
    case (2 l o_rt sy1)
    obtain rt' where "o_rt = Some rt'" using rt_exec_ok [OF st 2(1)] by blast
    with 2 mem memory_only_exec show ?thesis by (auto simp: settle_rt)
  qed
  have "store_answer (last (rt_responses (sy_rt sy')))"
    if "length (rt_responses (sy_rt sy)) < length (rt_responses (sy_rt sy'))"
  proof -
    have "rt_responses (sy_rt sy') \<noteq> []" using that by auto
    with mem' show ?thesis by (simp add: memory_only_def list_all_iff)
  qed
  then show "list_all (\<lambda>(n, cmd, resp). store_answer resp) (step_answer ev sy sy')"
    by (auto simp: step_answer_def split: option.split)
qed

lemma memory_only_trace:
  "sy_run pf fm cfg sink evs sy = Some sy' \<Longrightarrow> memory_only (sy_rt sy) \<Longrightarrow> sy_acks (length evs) sy \<Longrightarrow>
    list_all (\<lambda>(n, cmd, resp). store_answer resp) (sy_trace pf fm cfg sink evs sy)"
proof (induction evs arbitrary: sy)
  case (Cons ev evs)
  then obtain sy1 where sy1: "sy_exec pf fm cfg sink ev sy = Some sy1" "sy_run pf fm cfg sink evs sy1 = Some sy'"
    by (auto split: option.splits)
  have acks: "sy_acks (Suc (length evs)) sy" using Cons.prems(3) by simp
  then have "rt_store_ok (Suc (length evs)) (sy_rt sy)" by (simp add: sy_acks_def)
  note step = memory_only_step [OF Cons.prems(2) this sy1(1)]
  show ?case using Cons.IH [OF sy1(2) step(1) sy_exec_acks [OF acks sy1(1)]] step(2) sy1(1) by simp
qed simp

lemma store_answer_not_lost: "list_all (\<lambda>(n, cmd, resp). store_answer resp) tr \<Longrightarrow> \<not> some_lost tr"
  by (auto simp: some_lost_def lost_entry_def store_answer_def list_all_iff list_ex_iff
      elim!: rejects.elims split: runtime_error.splits)

text \<open>The answers of the service itself.\<close>

definition exact_answer :: "command \<Rightarrow> response \<Rightarrow> service \<Rightarrow> bool" where
  "exact_answer cmd resp s \<longleftrightarrow> (mutates cmd \<longrightarrow> resp = fst (service_mutation cmd s)) \<and>
    (\<forall>answer. service_query cmd (present s) = Some answer \<longrightarrow> resp = answer)"

fun exact_run :: "(command \<times> response) list \<Rightarrow> service \<Rightarrow> bool" where
  "exact_run [] s = True"
| "exact_run ((cmd, resp) # tr) s \<longleftrightarrow> exact_answer cmd resp s \<and>
    exact_run tr (if mutates cmd then snd (service_mutation cmd s) else s)"

lemma serve_exact:
  assumes "serve cmd resp s = Some s'" "store_answer resp"
  shows "exact_answer cmd resp s \<and> s' = (if mutates cmd then snd (service_mutation cmd s) else s)"
proof (cases "mutates cmd")
  case True
  moreover from this have "service_query cmd L = None" for L by (cases cmd) simp_all
  ultimately show ?thesis
    using assms by (auto simp: serve_def serve_mutation_def exact_answer_def store_answer_def case_prod_unfold Let_def
        split: if_splits option.splits runtime_error.splits)
next
  case False
  with assms show ?thesis
    by (auto simp: serve_def exact_answer_def split: if_splits option.splits)
qed

lemma serve_all_exact:
  "serve_all tr s = Some s' \<Longrightarrow> list_all (\<lambda>(cmd, resp). store_answer resp) tr \<Longrightarrow> exact_run tr s"
  by (induction tr s rule: serve_all.induct) (auto split: option.splits dest: serve_exact)

end
