(* ===== verification/Qso_Announce.thy ===== *)
theory Qso_Announce
  imports Qso_Events Qso_Linear
begin

section \<open>Answers and events agree\<close>

text \<open>
  Every accepted mutation is announced by one event of its kind, in the order of the answers, and
  nothing else is: the events about the log that the loop has sent are those of the answers it has
  given, and of the one insert, if any, whose answer waits for an automatic checkpoint.
\<close>


subsection \<open>The event of an answer\<close>

text \<open>Events about the log, as against those about its persistence.\<close>

fun change_event :: "qso_event \<Rightarrow> bool" where
  "change_event (EvDurableUpTo _) = False"
| "change_event (EvPersistenceError _ _) = False"
| "change_event (EvNotDurableWarning _) = False"
| "change_event _ = True"

definition changes :: "qso_event list \<Rightarrow> qso_event list" where
  "changes = filter change_event"

text \<open>What a command with its answer must be announced as.\<close>

fun mutation_event :: "command \<times> response \<Rightarrow> qso_event list" where
  "mutation_event (CInsert _, RespId (Inr i)) = [EvInserted i]"
| "mutation_event (CPatch i _, RespUnit (Inr _)) = [EvUpdated i]"
| "mutation_event (CVoid i, RespUnit (Inr _)) = [EvVoided i]"
| "mutation_event (CUndo, RespUnit (Inr _)) = [EvUndoApplied]"
| "mutation_event (CRedo, RespUnit (Inr _)) = [EvRedoApplied]"
| "mutation_event _ = []"

definition answered_events :: "(nat \<times> command \<times> response) list \<Rightarrow> qso_event list" where
  "answered_events tr = concat (map (\<lambda>(n, entry). mutation_event entry) tr)"

lemma changes_simps [simp]:
  "changes [] = []" "changes (xs @ ys) = changes xs @ changes ys"
  "changes [e] = (if change_event e then [e] else [])"
  by (simp_all add: changes_def)

lemma change_announce [simp]: "change_event (announce_event ann)"
  by (cases ann) simp_all

lemma mutation_event_error [simp]:
  "mutation_event (cmd, command_error c e) = []" "mutation_event (cmd, announce_error ann e) = []"
  by (cases cmd; cases c; simp) (cases cmd; cases ann; simp)

lemma mutation_event_query [simp]: "\<not> mutates cmd \<Longrightarrow> mutation_event (cmd, resp) = []"
  by (cases cmd) simp_all

lemma answered_events_append [simp]: "answered_events (tr @ tr') = answered_events tr @ answered_events tr'"
  by (simp add: answered_events_def)


subsection \<open>The loop announces what it answers\<close>

text \<open>What the loop needs to know while it waits, and which event it has sent before the answer.\<close>

fun wait_announces :: "command \<Rightarrow> wait \<Rightarrow> bool" where
  "wait_announces cmd (WaitMutation ann cp so) \<longleftrightarrow> mutation_event (cmd, announce_response ann) = [announce_event ann]"
| "wait_announces cmd (WaitAutoCheckpoint resp) \<longleftrightarrow> True"
| "wait_announces cmd _ \<longleftrightarrow> \<not> mutates cmd"

fun sent_ahead :: "command \<Rightarrow> wait \<Rightarrow> qso_event list" where
  "sent_ahead cmd (WaitAutoCheckpoint resp) = mutation_event (cmd, resp)"
| "sent_ahead cmd _ = []"

definition announces :: "command \<Rightarrow> qso_event list \<Rightarrow> 's runtime \<Rightarrow> 's runtime \<Rightarrow> bool" where
  "announces cmd evs rt rt' \<longleftrightarrow>
    (\<exists>resp. rt_responses rt' = rt_responses rt @ [resp] \<and> waiting_for (rt_ctl rt') = None \<and>
      changes (rt_events rt') = evs @ mutation_event (cmd, resp)) \<or>
    (rt_responses rt' = rt_responses rt \<and>
      (\<exists>wt. waiting_for (rt_ctl rt') = Some wt \<and> wait_announces cmd wt \<and>
        changes (rt_events rt') = evs @ sent_ahead cmd wt))"

lemma announces_respond:
  assumes "rt_responses rt1 = rt_responses rt" "changes (rt_events rt1) = evs @ mutation_event (cmd, resp)"
  shows "announces cmd evs rt (respond resp rt1)" "announces cmd evs rt ((respond resp rt1)\<lparr>rt_ctl := Stopped\<rparr>)"
  using assms by (simp_all add: announces_def)

lemma announces_wait:
  assumes "rt_responses rt1 = rt_responses rt" "changes (rt_events rt1) = evs @ sent_ahead cmd wt"
    and "waiting_for c = Some wt" "wait_announces cmd wt"
  shows "announces cmd evs rt (rt1\<lparr>rt_ctl := c\<rparr>)"
  using assms by (simp add: announces_def)

lemma accepted_announces:
  assumes "mutation_event (cmd, announce_response ann) = [announce_event ann]"
    and "rt_responses rt1 = rt_responses rt" "changes (rt_events rt1) = evs"
  shows "announces cmd evs rt (mutation_accepted cfg ann rt1)"
proof -
  obtain rt2 where rt2: "rt_responses rt2 = rt_responses rt1"
    and shape: "mutation_accepted cfg ann rt1 = respond (announce_response ann) rt2 \<or>
      (\<exists>m. mutation_accepted cfg ann rt1 = rt2\<lparr>rt_ctl := Sending m (WaitAutoCheckpoint (announce_response ann))\<rparr>)"
    by (rule accepted_shape)
  have "rt_events rt2 = rt_events (mutation_accepted cfg ann rt1)" using shape by auto
  then have "changes (rt_events rt2) = evs @ mutation_event (cmd, announce_response ann)"
    using assms by (simp add: accepted_events)
  with shape rt2 assms(2) announces_respond(1) [of rt2 rt evs cmd "announce_response ann"]
    announces_wait [of rt2 rt evs cmd "WaitAutoCheckpoint (announce_response ann)"]
  show ?thesis by auto
qed

lemma rejected_announces:
  assumes "mutation_rejected pf ann cp so e rt1 = Some rt'"
    and "rt_responses rt1 = rt_responses rt" "changes (rt_events rt1) = evs"
  shows "announces cmd evs rt rt'"
  using assms by (auto simp: mutation_rejected_def intro!: announces_respond split: result.splits)

lemma persist_after_announces:
  assumes run: "persist_after_mutation pf fm cfg ann cp so rt1 = Some rt'"
    and ann: "mutation_event (cmd, announce_response ann) = [announce_event ann]"
    and rt1: "rt_responses rt1 = rt_responses rt" "changes (rt_events rt1) = evs"
  shows "announces cmd evs rt rt'"
proof (cases "rt_worker rt1")
  case None
  with run accepted_announces [OF ann rt1] show ?thesis by (auto simp: persist_after_mutation_def)
next
  case (Some w)
  show ?thesis
  proof (cases "enqueue_persist cfg so w")
    case (Inl e)
    with run Some have "mutation_rejected pf ann cp so e (mark_persist_unhealthy (debug_runtime_error fm e) rt1) = Some rt'"
      by (simp add: persist_after_mutation_def)
    then show ?thesis by (rule rejected_announces) (simp_all add: rt1)
  next
    case (Inr w1)
    let ?rt2 = "rt1\<lparr>rt_worker := Some w1\<rparr>"
    let ?rt3 = "if is_healthy (rt_health ?rt2) then ?rt2 else emit (EvNotDurableWarning (latest_op_seq (rt_store ?rt2))) ?rt2"
    have "cfg_ack_mode cfg = Durable \<Longrightarrow> rt' = ?rt2\<lparr>rt_ctl := Sending MsgFlush (WaitMutation ann cp so)\<rparr>"
      and "cfg_ack_mode cfg \<noteq> Durable \<Longrightarrow> rt' = mutation_accepted cfg ann ?rt3"
      using run Some Inr by (simp_all only: persist_after_mutation_def Let_def option.case sum.case option.inject if_True if_False simp_thms)
    moreover have "announces cmd evs rt (?rt2\<lparr>rt_ctl := Sending MsgFlush (WaitMutation ann cp so)\<rparr>)"
      by (rule announces_wait [where wt = "WaitMutation ann cp so"]) (simp_all add: rt1 ann)
    moreover have "announces cmd evs rt (mutation_accepted cfg ann ?rt3)"
      by (rule accepted_announces [OF ann]) (simp_all add: rt1)
    ultimately show ?thesis by (cases "cfg_ack_mode cfg = Durable") simp_all
  qed
qed

lemma run_mutation_event:
  "run_mutation pf clk cmd st = Ok (ann, so) st1 \<Longrightarrow> mutates cmd \<Longrightarrow>
    mutation_event (cmd, announce_response ann) = [announce_event ann]"
  by (cases cmd) (auto simp: run_mutation_def and_then_Ok_iff)

lemma mutation_announces:
  assumes run: "handle_mutation pf fm cfg clk cmd rt = Some rt'" and mut: "mutates cmd"
  shows "announces cmd (changes (rt_events rt)) rt rt'"
proof (cases "ensure_mutation_allowed (cfg_ack_mode cfg) (rt_health rt)")
  case (Inl e)
  with run show ?thesis by (auto simp: handle_mutation_def intro!: announces_respond)
next
  case (Inr u)
  show ?thesis
  proof (cases "run_mutation pf clk cmd (rt_store rt)")
    case (Ok x st1)
    obtain ann so where x: "x = (ann, so)" by fastforce
    have "persist_after_mutation pf fm cfg ann (take_checkpoint (rt_store rt)) so (rt\<lparr>rt_store := clear_pending_ops st1\<rparr>) = Some rt'"
      using run Inr Ok by (simp add: handle_mutation_def Let_def x)
    from persist_after_announces [OF this run_mutation_event [OF Ok [unfolded x] mut]] show ?thesis by simp
  qed (use run Inr in \<open>auto simp: handle_mutation_def Let_def intro!: announces_respond\<close>)
qed

lemma command_announces:
  assumes run: "handle_command pf fm cfg clk cmd rt = Some rt'"
  shows "announces cmd (changes (rt_events rt)) rt rt'"
proof (cases "mutates cmd")
  case True
  then have "handle_mutation pf fm cfg clk cmd rt = Some rt'"
    using run by (cases cmd) (simp_all add: handle_command_def)
  from mutation_announces [OF this True] show ?thesis .
next
  case False
  with run show ?thesis
    by (cases cmd) (auto simp: handle_command_def intro!: announces_respond announces_wait split: option.splits)
qed

lemma resume_announces:
  assumes run: "resume pf fm cfg wt rep rt1 = Some rt'" and wt: "wait_announces cmd wt"
    and rt1: "rt_responses rt1 = rt_responses rt" "changes (rt_events rt1) = evs @ sent_ahead cmd wt"
  shows "announces cmd evs rt rt'"
  using assms
  by (cases "(pf, fm, cfg, wt, rep, rt1)" rule: resume.cases)
    (auto intro!: announces_respond accepted_announces dest: rejected_announces [where rt = rt and evs = evs and cmd = cmd])

lemma progress_announces:
  assumes run: "loop_progress pf fm cfg rt = Some (Some rt')" and wt: "waiting_for (rt_ctl rt) = Some wt" "wait_announces cmd wt"
    and evs: "changes (rt_events rt) = evs @ sent_ahead cmd wt"
  shows "announces cmd evs rt rt'"
proof -
  obtain w where w: "rt_worker rt = Some w"
    using run by (auto simp: loop_progress_def split: option.splits)
  show ?thesis
  proof (cases "rt_ctl rt")
    case (Sending m wt')
    then have wt': "wt' = wt" using wt(1) by simp
    show ?thesis
    proof (cases "wk_running w")
      case True
      with run w Sending wt' have rt': "rt' = (rt\<lparr>rt_worker := Some (w\<lparr>wk_queue := wk_queue w @ [m], wk_reply := None\<rparr>)\<rparr>)\<lparr>rt_ctl := Awaiting wt\<rparr>"
        by (auto simp: loop_progress_def split: if_splits)
      show ?thesis unfolding rt' by (rule announces_wait) (use evs wt(2) in simp_all)
    next
      case False
      then have "send_failed pf fm cfg wt rt = Some rt'" using run w Sending wt' by (simp add: loop_progress_def)
      with resume_announces [OF _ wt(2) refl evs] evs show ?thesis
        by (cases wt) (auto simp del: resume.simps intro!: announces_respond)
    qed
  next
    case (Awaiting wt')
    then have wt': "wt' = wt" using wt(1) by simp
    obtain rep v where "resume pf fm cfg wt rep (rt\<lparr>rt_worker := v\<rparr>) = Some rt'"
      using run w Awaiting wt' by (auto simp: loop_progress_def simp del: resume.simps split: option.splits if_splits)
        (metis (no_types, lifting) runtime.surjective runtime.update_convs(7))
    from resume_announces [OF this wt(2)] evs show ?thesis by simp
  qed (use wt in simp_all)
qed


subsection \<open>Runs of the system\<close>

definition told :: "(nat \<times> command \<times> response) list \<Rightarrow> 's system \<Rightarrow> bool" where
  "told tr sy \<longleftrightarrow>
    (case waiting_for (rt_ctl (sy_rt sy)) of
       None \<Rightarrow> changes (events_of sy) = answered_events tr
     | Some wt \<Rightarrow> \<exists>n cmd. sy_serving sy = Some (n, cmd) \<and> wait_announces cmd wt \<and>
         changes (events_of sy) = answered_events tr @ sent_ahead cmd wt)"

lemma announced_told:
  assumes an: "announces cmd (answered_events tr) (sy_rt sy) rt'"
    and sy1: "sy_rt sy1 = sy_rt sy" "sy_serving sy1 = Some (n, cmd)" "in_hand ev sy = Some (n, cmd)"
  shows "told (tr @ step_answer ev sy (settle (Some rt') sy1)) (settle (Some rt') sy1)"
  using an [unfolded announces_def]
proof (elim disjE exE conjE)
  fix resp assume resp: "rt_responses rt' = rt_responses (sy_rt sy) @ [resp]" "waiting_for (rt_ctl rt') = None"
    "changes (rt_events rt') = answered_events tr @ mutation_event (cmd, resp)"
  have "step_answer ev sy (settle (Some rt') sy1) = [(n, cmd, resp)]"
    using resp(1) sy1(3) by (intro step_answer_new) (simp_all add: settle_rt)
  with resp(2,3) show ?thesis by (simp add: told_def settle_rt events_of_def answered_events_def)
next
  fix wt assume wt: "rt_responses rt' = rt_responses (sy_rt sy)" "waiting_for (rt_ctl rt') = Some wt"
    "wait_announces cmd wt" "changes (rt_events rt') = answered_events tr @ sent_ahead cmd wt"
  have "step_answer ev sy (settle (Some rt') sy1) = []"
    using wt(1) by (intro step_answer_same) (simp add: settle_rt)
  moreover have "sy_serving (settle (Some rt') sy1) = Some (n, cmd)"
    using wt sy1 by (intro settle_serving) auto
  ultimately show ?thesis using wt(2-4) by (simp add: told_def settle_rt events_of_def)
qed

text \<open>A step that neither takes a command nor goes on with one sends no event about the log.\<close>

lemma quiet_changes:
  assumes "rt_exec pf fm cfg sink l rt = Some (Some rt')" "l \<noteq> LProgress" "\<not> client_label l \<or> l = LDrop"
  shows "changes (rt_events rt') = changes (rt_events rt)"
  using assms
  by (cases l) (auto simp: map_worker_def handle_durable_def split: option.splits if_splits sum.splits elim!: loop_durable_cases)

lemma sy_exec_told:
  assumes told: "told tr sy" and run: "sy_exec pf fm cfg sink ev sy = Some sy'"
    and inv: "sy_inv sy" and st: "rt_store_ok (Suc k) (sy_rt sy)"
  shows "told (tr @ step_answer ev sy sy') sy'"
proof (cases "client_event ev")
  case True
  note keeps = client_event_keeps [OF run True]
  from told show ?thesis unfolding told_def events_of_def keeps append_Nil2 .
next
  case False
  from run False inv st show ?thesis
  proof (cases rule: loop_event)
    case (1 n clk cmd rt' sy1)
    have "announces cmd (answered_events tr) (sy_rt sy) rt'"
      using command_announces [OF 1(1)] told 1(9) by (simp add: told_def events_of_def)
    from announced_told [OF this 1(3,7,8)] show ?thesis by (simp add: 1(2))
  next
    case (2 n cmd wt rt')
    have "announces cmd (answered_events tr) (sy_rt sy) rt'"
      by (rule progress_announces [OF 2(1,5)]) (use told 2(3,5) in \<open>simp_all add: told_def events_of_def\<close>)
    from announced_told [OF this refl 2(3,4)] show ?thesis by (simp add: 2(2))
  next
    case (3 rt' l)
    have tr: "step_answer ev sy sy' = []"
      using 3(2) by (intro step_answer_same) (simp add: 3(1) settle_rt)
    have "sy_serving sy' = Some (n, cmd)"
      if "waiting_for (rt_ctl (sy_rt sy)) = Some wt" "sy_serving sy = Some (n, cmd)" for wt n cmd
      using that 3(2,4) unfolding 3(1) by (intro settle_serving) auto
    with told quiet_changes [OF 3(5-7)] 3(1,4) show ?thesis
      unfolding tr by (auto simp: told_def settle_rt events_of_def split: option.splits)
  qed
qed

lemma sy_run_told:
  "sy_run pf fm cfg sink evs sy = Some sy' \<Longrightarrow> told tr sy \<Longrightarrow> sy_acks (length evs + k) sy \<Longrightarrow>
    told (tr @ sy_trace pf fm cfg sink evs sy) sy'"
proof (induction evs arbitrary: sy tr)
  case (Cons ev evs)
  from Cons.prems(1) obtain sy1 where sy1: "sy_exec pf fm cfg sink ev sy = Some sy1" "sy_run pf fm cfg sink evs sy1 = Some sy'"
    by (auto split: option.splits)
  have acks: "sy_acks (Suc (length evs + k)) sy" using Cons.prems(3) by simp
  then have "sy_inv sy" "rt_store_ok (Suc (length evs + k)) (sy_rt sy)" by (simp_all add: sy_acks_def)
  from sy_exec_told [OF Cons.prems(2) sy1(1) this] have "told (tr @ step_answer ev sy sy1) sy1" .
  from Cons.IH [OF sy1(2) this sy_exec_acks [OF acks sy1(1)]] sy1(1) show ?case by simp
qed simp

lemma spawn_told: "spawn_system store o_sink cfg = Some sy0 \<Longrightarrow> told [] sy0"
  by (auto simp: spawn_system_def spawn_qsolog_def told_def events_of_def answered_events_def split: if_splits)


subsection \<open>With receivers\<close>

definition system_events :: "hub_event list \<Rightarrow> event list" where
  "system_events = filter_map (\<lambda>ev. case ev of HSystem e \<Rightarrow> Some e | _ \<Rightarrow> None)"

lemma hub_run_system:
  "hub_run pf fm cfg sink recv evs h = Some h' \<Longrightarrow> sy_run pf fm cfg sink (system_events evs) (hub_sy h) = Some (hub_sy h')"
proof (induction evs arbitrary: h)
  case (Cons ev evs)
  then obtain h1 where h1: "hub_exec pf fm cfg sink recv ev h = Some h1" "hub_run pf fm cfg sink recv evs h1 = Some h'"
    by (auto split: option.splits)
  from h1(1) Cons.IH [OF h1(2)] show ?case
    by (cases ev) (auto simp: system_events_def subscribe_def Let_def split: if_splits)
qed (simp add: system_events_def)

lemma system_events_length: "length (system_events evs) \<le> length evs"
  by (induction evs) (auto simp: system_events_def split: hub_event.split)

text \<open>A receiver that was not told it missed events has got a part of the stream.\<close>

definition got_events :: "receiver \<Rightarrow> qso_event list" where
  "got_events r = filter_map (\<lambda>x. case x of Got e \<Rightarrow> Some e | _ \<Rightarrow> None) (rcv_got r)"

lemma consume_got:
  "consume rs es = Some left \<Longrightarrow> \<forall>n. Lagged n \<notin> set rs \<Longrightarrow>
    es = filter_map (\<lambda>x. case x of Got e \<Rightarrow> Some e | _ \<Rightarrow> None) rs @ left"
  by (induction rs es rule: consume.induct) (auto split: list.splits if_splits)

lemma receiver_got:
  assumes "receiver_ok sy r" "\<forall>n. Lagged n \<notin> set (rcv_got r)"
  shows "events_of sy = take (rcv_start r) (events_of sy) @ got_events r @ drop (rcv_next r) (events_of sy)"
proof -
  have "drop (rcv_start r) (events_of sy) = got_events r @ drop (rcv_next r) (events_of sy)"
    using assms consume_got by (fastforce simp: receiver_ok_def got_events_def)
  then show ?thesis by (metis append_take_drop_id)
qed

end
