(* ===== verification/Qso_Event_Properties.thy ===== *)
theory Qso_Event_Properties
  imports Qso_Announce Qso_Client_Properties
begin

section \<open>Properties of the event stream\<close>

text \<open>
  What a subscriber can rely on, in every run of clients, loop, worker, timer and receivers, with
  any channel that keeps the promises of \<open>broadcast\<close>.
\<close>


subsection \<open>A sample run\<close>

text \<open>A receiver is made before an insert and one after it.\<close>

definition sample_hub :: "tree connection hub" where
  "sample_hub = \<lparr>hub_sy = sample_system, hub_subs = []\<rparr>"

definition two_receivers :: "hub_event list" where
  "two_receivers = [HSubscribe] @ map HSystem two_clients @ [HSubscribe, HReceive 0, HSystem (EStep LDurable), HReceive 1]"

definition sample_hub_run :: "hub_event list \<Rightarrow> tree connection hub option" where
  "sample_hub_run evs = hub_run dev_profile sample_fmt durable_config (sqlite_sink tree_codec) broadcast_recv evs sample_hub"

lemma sample_hub_spawn: "spawn_hub new_store (Some (empty_database, [])) durable_config = Some sample_hub"
  by (simp add: spawn_hub_def sample_system_spawn sample_hub_def)

lemma two_receivers_run:
  obtains h where "sample_hub_run two_receivers = Some h"
    "hub_subs h = [\<lparr>rcv_start = 0, rcv_next = 1, rcv_got = [Got (EvInserted 1)]\<rparr>,
      \<lparr>rcv_start = 1, rcv_next = 2, rcv_got = [Got (EvDurableUpTo 1)]\<rparr>]"
    "events_of (hub_sy h) = [EvInserted 1, EvDurableUpTo 1]" "rt_ctl (sy_rt (hub_sy h)) = Idle"
proof -
  have "(case sample_hub_run two_receivers of None \<Rightarrow> False
      | Some h \<Rightarrow> hub_subs h = [\<lparr>rcv_start = 0, rcv_next = 1, rcv_got = [Got (EvInserted 1)]\<rparr>,
          \<lparr>rcv_start = 1, rcv_next = 2, rcv_got = [Got (EvDurableUpTo 1)]\<rparr>] \<and>
        events_of (hub_sy h) = [EvInserted 1, EvDurableUpTo 1] \<and> rt_ctl (sy_rt (hub_sy h)) = Idle)"
    by code_simp
  with that show thesis by (auto split: option.splits)
qed


subsection \<open>Receivers\<close>

text \<open>The stream of a subscriber is exact, by the promises of the channel: what its calls of \<open>recv\<close> have returned are the events sent
  since it subscribed, in order, none twice, none invented and none left out but those it was told
  it had missed; what it has not got yet is the rest. The end of the stream comes only when the loop
  has ended and no handle is left, after the last event, and no event is ever sent after it.\<close>
theorem subscriber_stream_is_exact:
  assumes "broadcast recv" and "spawn_hub store o_sink cfg = Some h0"
    and "hub_run pf fm cfg sink recv evs h0 = Some h" and "r \<in> set (hub_subs h)"
  shows "consume (rcv_got r) (drop (rcv_start r) (events_of (hub_sy h))) = Some (drop (rcv_next r) (events_of (hub_sy h))) \<and>
    (ClosedStream \<in> set (rcv_got r) \<longrightarrow>
      sy_handles (hub_sy h) = 0 \<and> rt_ctl (sy_rt (hub_sy h)) = Stopped \<and> rcv_next r = length (events_of (hub_sy h)))"
proof -
  have "receiver_ok (hub_sy h) r"
    using broadcast.hub_run_ok [OF assms(1,3) spawn_hub_ok [OF assms(2)]] assms(4)
    by (simp add: hub_ok_def list_all_iff)
  then have ok: "consume (rcv_got r) (drop (rcv_start r) (events_of (hub_sy h))) = Some (drop (rcv_next r) (events_of (hub_sy h)))"
    "rcv_next r \<le> length (events_of (hub_sy h))" "ClosedStream \<in> set (rcv_got r) \<longrightarrow> stream_closed (hub_sy h)"
    by (simp_all add: receiver_ok_def)
  from consume_closed [OF ok(1)] ok show ?thesis by (simp add: stream_closed_def)
qed

theorem subscriber_stream_is_exact_witness:
  "\<exists>h. sample_hub_run two_receivers = Some h \<and> events_of (hub_sy h) = [EvInserted 1, EvDurableUpTo 1] \<and>
    consume [Got (EvInserted 1)] (events_of (hub_sy h)) = Some [EvDurableUpTo 1]"
proof -
  obtain h where h: "sample_hub_run two_receivers = Some h"
    "hub_subs h = [\<lparr>rcv_start = 0, rcv_next = 1, rcv_got = [Got (EvInserted 1)]\<rparr>,
      \<lparr>rcv_start = 1, rcv_next = 2, rcv_got = [Got (EvDurableUpTo 1)]\<rparr>]"
    "events_of (hub_sy h) = [EvInserted 1, EvDurableUpTo 1]"
    by (rule two_receivers_run)
  from subscriber_stream_is_exact [OF bc.broadcast_axioms sample_hub_spawn h(1) [unfolded sample_hub_run_def], of "hub_subs h ! 0"] h
  show ?thesis by simp
qed

text \<open>C21. A subscriber that was never told it missed events and has read all of them has seen every
  accepted mutation, once, in order, and nothing that was rejected: whenever the loop waits for
  nothing, the events about the log sent before it subscribed, then those it got, are the events
  of the answers that the loop has given: \<open>EvInserted\<close> with the id returned, \<open>EvUpdated\<close> and
  \<open>EvVoided\<close> with the id asked for, \<open>EvUndoApplied\<close>, \<open>EvRedoApplied\<close>, one for each mutation
  answered \<open>Ok\<close> and none for any other answer. The store must be well-formed and have room for as
  many numbers as there are events.\<close>
theorem subscriber_sees_every_mutation:
  assumes "broadcast recv" and "spawn_hub store o_sink cfg = Some h0" and "store_inv store"
    and "room_for (length (system_events evs)) store" and "hub_run pf fm cfg sink recv evs h0 = Some h"
    and "r \<in> set (hub_subs h)" and "\<forall>n. Lagged n \<notin> set (rcv_got r)"
    and "rcv_next r = length (events_of (hub_sy h))"
    and "waiting_for (rt_ctl (sy_rt (hub_sy h))) = None"
  shows "changes (take (rcv_start r) (events_of (hub_sy h))) @ changes (got_events r) =
    answered_events (sy_trace pf fm cfg sink (system_events evs) (hub_sy h0))"
proof -
  obtain sy0 where sy0: "spawn_system store o_sink cfg = Some sy0" "hub_sy h0 = sy0"
    using assms(2) by (auto simp: spawn_hub_def)
  have "sy_acks (length (system_events evs) + 0) sy0" using spawn_acks [OF sy0(1) assms(3,4)] by simp
  from sy_run_told [OF hub_run_system [OF assms(5), unfolded sy0(2)] spawn_told [OF sy0(1)] this]
  have "changes (events_of (hub_sy h)) = answered_events (sy_trace pf fm cfg sink (system_events evs) sy0)"
    using assms(9) by (simp add: told_def)
  moreover have "receiver_ok (hub_sy h) r"
    using broadcast.hub_run_ok [OF assms(1,5) spawn_hub_ok [OF assms(2)]] assms(6)
    by (simp add: hub_ok_def list_all_iff)
  from receiver_got [OF this assms(7)] assms(8)
  have "events_of (hub_sy h) = take (rcv_start r) (events_of (hub_sy h)) @ got_events r" by simp
  then have "changes (events_of (hub_sy h)) = changes (take (rcv_start r) (events_of (hub_sy h)) @ got_events r)" by (rule arg_cong)
  ultimately show ?thesis by (simp add: sy0(2))
qed

text \<open>A contact is logged, voided and the void is undone; then a missing record is voided in vain.\<close>

definition three_mutations :: "hub_event list" where
  "three_mutations = [HSubscribe] @ map HSystem ([ECall 0 (CInsert (sample_draft ''K1A'')), ECall 0 (CVoid 1), ECall 0 CUndo,
    ECall 0 (CVoid 7), ESend 0, ESend 1, ESend 2, ESend 3, ETake, ETake, ETake, ETake]) @
    [HReceive 0, HReceive 0, HReceive 0]"

definition quiet_hub :: "tree connection hub" where
  "quiet_hub = the (spawn_hub new_store None default_config)"

theorem subscriber_sees_every_mutation_witness:
  "\<exists>h. hub_run dev_profile sample_fmt default_config (sqlite_sink tree_codec) broadcast_recv three_mutations quiet_hub = Some h \<and>
    got_events (hub_subs h ! 0) = [EvInserted 1, EvVoided 1, EvUndoApplied] \<and>
    answered_events (sy_trace dev_profile sample_fmt default_config (sqlite_sink tree_codec) (system_events three_mutations)
      (hub_sy quiet_hub)) = [EvInserted 1, EvVoided 1, EvUndoApplied]"
proof -
  have spawn: "spawn_hub new_store None default_config = Some quiet_hub"
    by (simp add: quiet_hub_def spawn_hub_def spawn_system_def spawn_qsolog_def)
  have "(case hub_run dev_profile sample_fmt default_config (sqlite_sink tree_codec) broadcast_recv three_mutations quiet_hub of
      None \<Rightarrow> False | Some h \<Rightarrow>
        hub_subs h = [\<lparr>rcv_start = 0, rcv_next = 3, rcv_got = [Got (EvInserted 1), Got (EvVoided 1), Got EvUndoApplied]\<rparr>] \<and>
        length (events_of (hub_sy h)) = 3 \<and> rt_ctl (sy_rt (hub_sy h)) = Idle)"
    by code_simp
  then obtain h where h: "hub_run dev_profile sample_fmt default_config (sqlite_sink tree_codec) broadcast_recv three_mutations quiet_hub = Some h"
    "hub_subs h = [\<lparr>rcv_start = 0, rcv_next = 3, rcv_got = [Got (EvInserted 1), Got (EvVoided 1), Got EvUndoApplied]\<rparr>]"
    "length (events_of (hub_sy h)) = 3" "rt_ctl (sy_rt (hub_sy h)) = Idle"
    by (auto split: option.splits)
  have room: "room_for (length (system_events three_mutations)) new_store"
    by (rule room_for_new) (simp add: three_mutations_def system_events_def)
  from subscriber_sees_every_mutation [OF bc.broadcast_axioms spawn store_inv_new room h(1), of "hub_subs h ! 0"] h
  show ?thesis by (simp add: got_events_def changes_def)
qed

text \<open>C16. A subscriber that was never told it missed events and has read all of them knows the log: whenever
  the loop is free, the order of the store is what it was at the start, then the inserts announced
  before it subscribed, then those it got, in its order. So an insert is announced exactly once,
  never before it can no longer be taken back, and a rejected one never; undo, redo, patch and void
  leave the order alone. The store must be well-formed and have room for as many numbers as there
  are events.\<close>
theorem subscriber_knows_every_insert:
  assumes "broadcast recv" and "spawn_hub store o_sink cfg = Some h0" and "store_inv store"
    and "room_for (length evs) store" and "hub_run pf fm cfg sink recv evs h0 = Some h"
    and "r \<in> set (hub_subs h)" and "\<forall>n. Lagged n \<notin> set (rcv_got r)"
    and "rcv_next r = length (events_of (hub_sy h))"
    and "rt_ctl (sy_rt (hub_sy h)) = Idle \<or> rt_ctl (sy_rt (hub_sy h)) = Stopped"
  shows "order (rt_store (sy_rt (hub_sy h))) =
    order store @ filter_map inserted_event (take (rcv_start r) (events_of (hub_sy h))) @ got_ids r"
proof -
  have "sy_in_step (order store) 0 (hub_sy h)"
    using hub_run_in_step [OF assms(5)] spawn_in_step [OF assms(2-4)] by simp
  then have ord: "order (rt_store (sy_rt (hub_sy h))) = order store @ filter_map inserted_event (events_of (hub_sy h))"
    using assms(9) by (auto simp: sy_in_step_def events_ok_def in_step_def event_ids_def events_of_def)
  have "receiver_ok (hub_sy h) r"
    using broadcast.hub_run_ok [OF assms(1,5) spawn_hub_ok [OF assms(2)]] assms(6)
    by (simp add: hub_ok_def list_all_iff)
  then have "filter_map inserted_event (drop (rcv_start r) (events_of (hub_sy h))) = got_ids r"
    using consume_all [OF _ assms(7)] assms(8) by (fastforce simp: receiver_ok_def got_ids_def)
  moreover have "filter_map inserted_event (events_of (hub_sy h)) =
      filter_map inserted_event (take (rcv_start r) (events_of (hub_sy h)) @ drop (rcv_start r) (events_of (hub_sy h)))"
    by simp
  ultimately show ?thesis by (simp add: ord del: append_take_drop_id)
qed

theorem subscriber_knows_every_insert_witness:
  "\<exists>h. sample_hub_run two_receivers = Some h \<and> hub_subs h ! 1 = \<lparr>rcv_start = 1, rcv_next = 2, rcv_got = [Got (EvDurableUpTo 1)]\<rparr> \<and>
    order (rt_store (sy_rt (hub_sy h))) = [] @ [1] @ []"
proof -
  obtain h where h: "sample_hub_run two_receivers = Some h"
    "hub_subs h = [\<lparr>rcv_start = 0, rcv_next = 1, rcv_got = [Got (EvInserted 1)]\<rparr>,
      \<lparr>rcv_start = 1, rcv_next = 2, rcv_got = [Got (EvDurableUpTo 1)]\<rparr>]"
    "events_of (hub_sy h) = [EvInserted 1, EvDurableUpTo 1]" "rt_ctl (sy_rt (hub_sy h)) = Idle"
    by (rule two_receivers_run)
  have room: "room_for (length two_receivers) new_store"
    by (rule room_for_new) (simp add: two_receivers_def two_clients_def)
  from subscriber_knows_every_insert [OF bc.broadcast_axioms sample_hub_spawn store_inv_new room
      h(1) [unfolded sample_hub_run_def], of "hub_subs h ! 1"] h
  show ?thesis by (simp add: got_ids_def new_store_def default_store_def)
qed

end
