(* ===== verification/Qso_Linear_Properties.thy ===== *)
theory Qso_Linear_Properties
  imports Qso_Linear Qso_Client_Properties
begin

section \<open>The runtime is an atomic log service\<close>

text \<open>
  The contract of the whole system, from the calls of the handle down to the indices of the store:
  concurrent clients see one log with an editor's history.
\<close>


subsection \<open>A sample run\<close>

text \<open>One client logs a contact, another reads it before the first has its answer.\<close>

definition write_and_read :: "event list" where
  "write_and_read = [ECall 0 (CInsert (sample_draft ''K1A'')), ECall 0 (CGet 1), ESend 0, ESend 1, ETake] @
    map EStep [LProgress, LRecv, LRecv, LProgress] @ [ETake]"

definition sample_trace :: "event list \<Rightarrow> (nat \<times> command \<times> response) list" where
  "sample_trace evs = sy_trace dev_profile sample_fmt durable_config (sqlite_sink tree_codec) evs sample_system"

lemma write_and_read_run:
  obtains sy where "sample_exec write_and_read = Some sy" "rt_ctl (sy_rt sy) = Idle"
    "sample_trace write_and_read = [(0, CInsert (sample_draft ''K1A''), RespId (Inr 1)),
      (1, CGet 1, RespRecord (Some (record_of_draft 1 (sample_draft ''K1A''))))]"
proof -
  have "(case sample_exec write_and_read of None \<Rightarrow> False | Some sy \<Rightarrow> rt_ctl (sy_rt sy) = Idle)"
    by code_simp
  moreover have "sample_trace write_and_read = [(0, CInsert (sample_draft ''K1A''), RespId (Inr 1)),
      (1, CGet 1, RespRecord (Some (record_of_draft 1 (sample_draft ''K1A''))))]"
    by code_simp
  ultimately show thesis using that by (auto split: option.splits)
qed


subsection \<open>Linearizability\<close>

text \<open>C1. The runtime is linearizable: for any clients and any schedule, the answers of the loop in the
  order it gives them are a run of the atomic service on one log, every call that returned has
  the answer of its own step of that run or found the channel closed, and no answer is given to
  two calls. The order respects real time: at every earlier moment the same holds with a prefix of
  the same run, so a call that had returned comes before every call not yet made. Between two
  commands the store holds the log of the service. A mutation that the journal rejects has, in the
  service, no effect but to forget what could be redone. Left out are runs in which an applied undo or
  redo was rejected, and drafts entered void.\<close>
theorem runtime_is_linearizable:
  assumes "spawn_system store o_sink cfg = Some sy0" and "store_inv store" and "undo store = []" and "redo store = []"
    and "room_for (length evs) store" and "list_all live_event evs" and "sy_run pf fm cfg sink evs sy0 = Some sy"
    and "\<not> some_lost (sy_trace pf fm cfg sink evs sy0)"
  shows "(\<exists>s. serve_all (map snd (sy_trace pf fm cfg sink evs sy0)) (start_service store) = Some s \<and>
      (waiting_for (rt_ctl (sy_rt sy)) = None \<longrightarrow> log_of (rt_store (sy_rt sy)) = present s)) \<and>
    (\<forall>evs1 evs2. evs = evs1 @ evs2 \<longrightarrow> (\<exists>sy1. sy_run pf fm cfg sink evs1 sy0 = Some sy1 \<and>
      calls_match (sy_trace pf fm cfg sink evs1 sy0) (sy_calls sy1) \<and>
      sy_trace pf fm cfg sink evs sy0 = sy_trace pf fm cfg sink evs1 sy0 @ sy_trace pf fm cfg sink evs2 sy1))"
proof (intro conjI allI impI)
  have start: "atomic_ok (start_service store) [] (length evs) sy0"
    using assms by (intro spawn_atomic)
  then have "follows (start_service store) (sy_trace pf fm cfg sink evs sy0) sy"
    using sy_run_atomic [OF assms(7,6), of "start_service store" "[]" 0] by (simp add: atomic_ok_def)
  with assms(8) obtain s where s: "serve_all (map snd (sy_trace pf fm cfg sink evs sy0)) (start_service store) = Some s"
    and now: "waiting_for (rt_ctl (sy_rt sy)) = None \<longrightarrow> behind (rt_store (sy_rt sy)) s"
    by (auto simp: follows_def split: option.splits)
  with behind_present show "\<exists>s. serve_all (map snd (sy_trace pf fm cfg sink evs sy0)) (start_service store) = Some s \<and>
      (waiting_for (rt_ctl (sy_rt sy)) = None \<longrightarrow> log_of (rt_store (sy_rt sy)) = present s)" by metis
  fix evs1 evs2 assume evs: "evs = evs1 @ evs2"
  then obtain sy1 where sy1: "sy_run pf fm cfg sink evs1 sy0 = Some sy1"
    using assms(7) by (auto simp: sy_run_append split: option.splits)
  have "atomic_ok (start_service store) (sy_trace pf fm cfg sink evs1 sy0) (length evs2) sy1"
    using sy_run_atomic [OF sy1, of "start_service store" "[]" "length evs2"] start assms(6) by (simp add: evs)
  then have "calls_match (sy_trace pf fm cfg sink evs1 sy0) (sy_calls sy1)" by (simp add: atomic_ok_def linear_def)
  with sy1 sy_trace_append [OF sy1] show "\<exists>sy1. sy_run pf fm cfg sink evs1 sy0 = Some sy1 \<and>
      calls_match (sy_trace pf fm cfg sink evs1 sy0) (sy_calls sy1) \<and>
      sy_trace pf fm cfg sink evs sy0 = sy_trace pf fm cfg sink evs1 sy0 @ sy_trace pf fm cfg sink evs2 sy1"
    by (auto simp: evs)
qed

theorem runtime_is_linearizable_witness:
  "\<exists>sy s. sample_exec write_and_read = Some sy \<and>
    serve_all [(CInsert (sample_draft ''K1A''), RespId (Inr 1)),
      (CGet 1, RespRecord (Some (record_of_draft 1 (sample_draft ''K1A''))))] (start_service new_store) = Some s \<and>
    log_of (rt_store (sy_rt sy)) = present s"
proof -
  obtain sy where sy: "sample_exec write_and_read = Some sy" "rt_ctl (sy_rt sy) = Idle"
    and tr: "sample_trace write_and_read = [(0, CInsert (sample_draft ''K1A''), RespId (Inr 1)),
      (1, CGet 1, RespRecord (Some (record_of_draft 1 (sample_draft ''K1A''))))]"
    by (rule write_and_read_run)
  have room: "room_for (length write_and_read) new_store" by (rule room_for_new) (simp add: write_and_read_def)
  have live: "list_all live_event write_and_read" by (simp add: write_and_read_def sample_draft_def)
  have "\<not> some_lost (sample_trace write_and_read)" by (simp add: tr some_lost_def lost_entry_def)
  then have lost: "\<not> some_lost (sy_trace dev_profile sample_fmt durable_config (sqlite_sink tree_codec) write_and_read sample_system)"
    by (simp add: sample_trace_def)
  have "undo new_store = []" "redo new_store = []" by (simp_all add: new_store_def default_store_def)
  from runtime_is_linearizable [OF sample_system_spawn store_inv_new this room live sy(1) [unfolded sample_exec_def] lost]
  show ?thesis using sy tr by (auto simp: sample_trace_def)
qed

text \<open>C14. Without a journal the service is exact: in every run of a log that lives in memory only, with any
  clients and any schedule, in which no draft is entered void (\<open>live_event\<close>; redo of such a draft
  goes wrong, see \<open>redo_revives_void_draft\<close>), each mutation is answered with the value or the error, and each query
  with the records, that the service gives on one log with a history of undo and redo; nothing is
  refused, rejected or lost. Each call that returned has the answer of its own step, or found the
  channel closed.\<close>
theorem memory_log_is_exact:
  assumes "spawn_system store None cfg = Some sy0" and "store_inv store" and "undo store = []" and "redo store = []"
    and "room_for (length evs) store" and "list_all live_event evs" and "sy_run pf fm cfg sink evs sy0 = Some sy"
  shows "exact_run (map snd (sy_trace pf fm cfg sink evs sy0)) (start_service store) \<and>
    calls_match (sy_trace pf fm cfg sink evs sy0) (sy_calls sy)"
proof -
  have start: "atomic_ok (start_service store) [] (length evs) sy0"
    using assms by (intro spawn_atomic)
  then have ok: "atomic_ok (start_service store) (sy_trace pf fm cfg sink evs sy0) 0 sy"
    using sy_run_atomic [OF assms(7,6), of "start_service store" "[]" 0] by simp
  have "memory_only (sy_rt sy0)"
    using assms(1) by (auto simp: spawn_system_def spawn_qsolog_def memory_only_def default_persistence_state_def)
  with start have store: "list_all (\<lambda>(n, cmd, resp). store_answer resp) (sy_trace pf fm cfg sink evs sy0)"
    by (intro memory_only_trace [OF assms(7)]) (simp_all add: atomic_ok_def)
  from store_answer_not_lost [OF this] ok obtain s where
    "serve_all (map snd (sy_trace pf fm cfg sink evs sy0)) (start_service store) = Some s"
    by (auto simp: atomic_ok_def follows_def)
  then have "exact_run (map snd (sy_trace pf fm cfg sink evs sy0)) (start_service store)"
    by (rule serve_all_exact) (use store in \<open>auto simp: list_all_iff\<close>)
  with ok show ?thesis by (simp add: atomic_ok_def linear_def)
qed

definition memory_system :: "tree connection system" where
  "memory_system = the (spawn_system new_store None default_config)"

definition undo_and_read :: "event list" where
  "undo_and_read = [ECall 0 (CInsert (sample_draft ''K1A'')), ECall 0 CUndo, ECall 0 (CRecent 5),
    ESend 1, ESend 0, ESend 2, ETake, ETake, ETake]"

theorem memory_log_is_exact_witness:
  "\<exists>tr. map fst (sy_trace dev_profile sample_fmt default_config (sqlite_sink tree_codec) undo_and_read memory_system) = [1, 0, 2] \<and>
    map snd (sy_trace dev_profile sample_fmt default_config (sqlite_sink tree_codec) undo_and_read memory_system) = tr \<and>
    exact_run tr (start_service new_store)"
proof -
  have spawn: "spawn_system new_store None default_config = Some memory_system"
    by (simp add: memory_system_def spawn_system_def spawn_qsolog_def)
  have room: "room_for (length undo_and_read) new_store" by (rule room_for_new) (simp add: undo_and_read_def)
  have live: "list_all live_event undo_and_read" by (simp add: undo_and_read_def sample_draft_def)
  have "undo new_store = []" "redo new_store = []" by (simp_all add: new_store_def default_store_def)
  note exact = memory_log_is_exact [OF spawn store_inv_new this room live]
  have "sy_run dev_profile sample_fmt default_config (sqlite_sink tree_codec) undo_and_read memory_system \<noteq> None"
    by code_simp
  then obtain sy where "sy_run dev_profile sample_fmt default_config (sqlite_sink tree_codec) undo_and_read memory_system = Some sy"
    by blast
  from exact [OF this] have
    "exact_run (map snd (sy_trace dev_profile sample_fmt default_config (sqlite_sink tree_codec) undo_and_read memory_system))
      (start_service new_store)" ..
  moreover have "map fst (sy_trace dev_profile sample_fmt default_config (sqlite_sink tree_codec) undo_and_read memory_system) = [1, 0, 2]"
    by code_simp
  ultimately show ?thesis by simp
qed

end
