(* ===== verification/Qso_Engine.thy ===== *)
theory Qso_Engine
  imports Qso_Undo "HOL-Library.Multiset" "HOL-Library.FSet" "HOL-Library.List_Lexorder"
begin

section \<open>Contest engines (engine/traits.rs)\<close>

text \<open>
  The types of \<^verbatim>\<open>src/engine/traits.rs\<close>. A contest engine is whatever implements the trait
  \<open>ContestEngine\<close>: here a record of its four methods, which every definition of the
  projector takes as an argument. \<open>'s\<close> is the engine's \<open>State\<close>, \<open>'e\<close> its \<open>Eval\<close>; a method
  on \<open>&mut State\<close> returns the new state. A \<open>HashSet\<close> is a finite set: nothing the crate
  computes from one depends on the order in which it is traversed.

  The two locales state what an engine has to promise so that incremental
  evaluation is right. \<open>engine_laws\<close>: the state is a function of the multiset of records
  applied so far, retracting takes one of them out, the dependency keys of a record are
  its own, its evaluation sees only the records it shares a key with, and the diff names
  every key that changed. \<open>separable_engine\<close>: moreover the evaluation of a record is made of
  one independent part per key, each of which can be read off it.
\<close>


subsection \<open>Keys and results\<close>

record dupe_key =
  dk_call :: string
  dk_band :: band
  dk_mode :: mode

record mult_key =
  mk_key :: string

record serial_key =
  sk_key :: string

datatype dep_key = Dupe dupe_key | Mult mult_key | Serial serial_key | Custom string

text \<open>
  Keys are ordered by constructor and then by their fields, so that a set of them can be
  traversed. A hash set is traversed in some other order; \<open>add_dep_links_any_order\<close> and
  \<open>remove_dep_links_any_order\<close> show that the order does not matter.
\<close>

fun band_rank :: "band \<Rightarrow> nat" where
  "band_rank B160m = 0" | "band_rank B80m = 1" | "band_rank B40m = 2" | "band_rank B20m = 3"
| "band_rank B15m = 4" | "band_rank B10m = 5" | "band_rank BandOther = 6"

fun mode_rank :: "mode \<Rightarrow> nat" where
  "mode_rank CW = 0" | "mode_rank SSB = 1" | "mode_rank Digital = 2" | "mode_rank ModeOther = 3"

fun key_code :: "dep_key \<Rightarrow> nat list" where
  "key_code (Dupe k) = 0 # band_rank (dk_band k) # mode_rank (dk_mode k) # map of_char (dk_call k)"
| "key_code (Mult k) = 1 # map of_char (mk_key k)"
| "key_code (Serial k) = 2 # map of_char (sk_key k)"
| "key_code (Custom s) = 3 # map of_char s"

lemma band_rank_inj: "band_rank a = band_rank b \<longleftrightarrow> a = b"
  by (cases a; cases b) simp_all

lemma mode_rank_inj: "mode_rank a = mode_rank b \<longleftrightarrow> a = b"
  by (cases a; cases b) simp_all

lemma key_code_inj: "key_code a = key_code b \<longleftrightarrow> a = b"
proof -
  have "inj (map (of_char :: char \<Rightarrow> nat))"
    by (rule inj_mapI) (simp add: inj_on_def)
  then have chars: "map (of_char :: char \<Rightarrow> nat) s = map of_char t \<longleftrightarrow> s = t" for s t
    by (auto dest: injD)
  show ?thesis
    by (cases a; cases b) (auto simp: band_rank_inj mode_rank_inj chars)
qed

instantiation dep_key :: linorder
begin

definition less_eq_dep_key :: "dep_key \<Rightarrow> dep_key \<Rightarrow> bool" where
  "less_eq_dep_key a b \<longleftrightarrow> key_code a \<le> key_code b"

definition less_dep_key :: "dep_key \<Rightarrow> dep_key \<Rightarrow> bool" where
  "less_dep_key a b \<longleftrightarrow> key_code a < key_code b"

instance
  by standard (auto simp: less_eq_dep_key_def less_dep_key_def simp flip: key_code_inj)

end

record 'e engine_applied =
  ap_eval :: 'e
  ap_deps :: "dep_key fset"

record invalidation =
  keys_changed :: "dep_key list"

record ('s, 'e) contest_engine =
  eng_new_state :: 's
  eng_apply :: "'s \<Rightarrow> qso_record \<Rightarrow> 's \<times> 'e engine_applied"
  eng_retract :: "'s \<Rightarrow> qso_record \<Rightarrow> 'e engine_applied \<Rightarrow> 's"
  eng_diff_invalidation :: "'e engine_applied \<Rightarrow> 'e engine_applied \<Rightarrow> invalidation"


subsection \<open>Full recomputation\<close>

text \<open>
  What the incremental results are compared with (\<open>full_recompute_projection\<close> of
  \<^verbatim>\<open>tests/engine_incremental.rs\<close>): apply every record that is not void, in canonical order, to
  a fresh state.
\<close>

fun full_recompute_loop ::
    "('s, 'e) contest_engine \<Rightarrow> qso_store \<Rightarrow> qso_id list \<Rightarrow> 's \<Rightarrow> (qso_id, 'e engine_applied) mapping
      \<Rightarrow> (qso_id, 'e engine_applied) mapping" where
  "full_recompute_loop e st [] s acc = acc"
| "full_recompute_loop e st (i # ids) s acc =
    (case store_get i st of
       None \<Rightarrow> full_recompute_loop e st ids s acc
     | Some rec \<Rightarrow>
        if is_void (qr_flags rec) then full_recompute_loop e st ids s acc
        else (case eng_apply e s rec of
                (s1, applied) \<Rightarrow> full_recompute_loop e st ids s1 (Mapping.update i applied acc)))"

definition full_recompute_projection ::
    "('s, 'e) contest_engine \<Rightarrow> qso_store \<Rightarrow> (qso_id, 'e engine_applied) mapping" where
  "full_recompute_projection e st =
    full_recompute_loop e st (ordered_ids st) (eng_new_state e) Mapping.empty"

text \<open>The same as a function of the list of ids: the state reached and the results.\<close>

fun evaluate :: "('s, 'e) contest_engine \<Rightarrow> (qso_id \<Rightarrow> qso_record) \<Rightarrow> qso_id list \<Rightarrow> 's
    \<Rightarrow> 's \<times> (qso_id \<rightharpoonup> 'e engine_applied)" where
  "evaluate e R [] s = (s, Map.empty)"
| "evaluate e R (i # ids) s =
    (let (s1, a) = eng_apply e s (R i); (s2, N) = evaluate e R ids s1 in (s2, N(i \<mapsto> a)))"

lemma evaluate_dom: "evaluate e R ids s = (s', N) \<Longrightarrow> dom N = set ids"
proof (induction ids arbitrary: s s' N)
  case (Cons i ids)
  then show ?case by (force split: prod.splits)
qed simp

lemma evaluate_cong:
  "(\<And>i. i \<in> set ids \<Longrightarrow> R i = Q i) \<Longrightarrow> evaluate e R ids s = evaluate e Q ids s"
  by (induction ids arbitrary: s) (simp_all split: prod.splits)

text \<open>The record and the standing of an id in a store.\<close>

definition rec_of :: "qso_store \<Rightarrow> qso_id \<Rightarrow> qso_record" where
  "rec_of st i = the (store_get i st)"

definition live_ids :: "qso_store \<Rightarrow> qso_id list" where
  "live_ids st = filter (\<lambda>i. \<not> is_void (qr_flags (rec_of st i))) (order st)"

lemma wf_get: "store_wf st \<Longrightarrow> i \<in> set (order st) \<Longrightarrow> store_get i st = Some (rec_of st i)"
  by (cases "store_get i st") (auto simp: rec_of_def store_get_def store_wf_def)

lemma full_recompute_evaluate:
  assumes "\<forall>i \<in> set ids. store_get i st = Some (rec_of st i)" "distinct ids"
    and "evaluate e (rec_of st) (filter (\<lambda>i. \<not> is_void (qr_flags (rec_of st i))) ids) s = (s', N)"
  shows "Mapping.lookup (full_recompute_loop e st ids s acc) = Mapping.lookup acc ++ N"
  using assms
proof (induction ids arbitrary: s acc N)
  case (Cons i ids)
  show ?case
  proof (cases "is_void (qr_flags (rec_of st i))")
    case False
    obtain s1 a where a: "eng_apply e s (rec_of st i) = (s1, a)" by fastforce
    obtain s2 N' where N': "evaluate e (rec_of st) (filter (\<lambda>i. \<not> is_void (qr_flags (rec_of st i))) ids) s1 = (s2, N')"
      by fastforce
    with Cons.prems(2) evaluate_dom [OF N'] have "i \<notin> dom N'" by auto
    with Cons.prems(3) False a N' have "Mapping.lookup acc ++ N = (Mapping.lookup acc)(i \<mapsto> a) ++ N'"
      by (simp add: map_add_upd_left prod_eq_iff del: fun_upd_apply) (metis map_add_upd)
    with Cons.IH [of s1 N' "Mapping.update i a acc"] Cons.prems N' a False show ?thesis
      by (simp add: update_Mapping del: fun_upd_apply)
  qed (use Cons in simp)
qed simp

lemma full_recompute_live:
  assumes "store_wf st"
  shows "Mapping.lookup (full_recompute_projection e st) = snd (evaluate e (rec_of st) (live_ids st) (eng_new_state e))"
  using full_recompute_evaluate [of "order st" st e "eng_new_state e" _ _ Mapping.empty] assms
  by (simp add: full_recompute_projection_def ordered_ids_def live_ids_def wf_get wf_distinct prod_eq_iff
      empty_Mapping)


subsection \<open>What an engine has to promise\<close>

text \<open>The records of a multiset that carry a key.\<close>

definition sharing :: "(qso_record \<Rightarrow> dep_key set) \<Rightarrow> dep_key \<Rightarrow> qso_record multiset \<Rightarrow> qso_record multiset" where
  "sharing rdeps k M = filter_mset (\<lambda>r. k \<in> rdeps r) M"

text \<open>\<open>holds s M\<close>: the state \<open>s\<close> accounts for the records of \<open>M\<close>. \<open>out M r\<close> is the result of
  applying \<open>r\<close> on top of \<open>M\<close>, \<open>rdeps r\<close> the keys of \<open>r\<close>.\<close>

locale engine_laws =
  fixes e :: "('s, 'e) contest_engine"
    and rdeps :: "qso_record \<Rightarrow> dep_key set"
    and out :: "qso_record multiset \<Rightarrow> qso_record \<Rightarrow> 'e engine_applied"
    and holds :: "'s \<Rightarrow> qso_record multiset \<Rightarrow> bool"
  assumes holds_new: "holds (eng_new_state e) {#}"
    and holds_apply: "holds s M \<Longrightarrow> eng_apply e s r = (s', a) \<Longrightarrow> holds s' (add_mset r M) \<and> a = out M r"
    and holds_retract: "holds s (add_mset r M) \<Longrightarrow> holds (eng_retract e s r (out N r)) M"
    and out_deps: "fset (ap_deps (out M r)) = rdeps r"
    and diff_deps: "k \<in> rdeps r \<longleftrightarrow> k \<notin> rdeps r' \<Longrightarrow>
      k \<in> set (keys_changed (eng_diff_invalidation e (out M r) (out N r')))"
    and diff_eval: "out M r \<noteq> out N r \<Longrightarrow>
      rdeps r \<subseteq> set (keys_changed (eng_diff_invalidation e (out M r) (out N r)))"

text \<open>A record's result depends on the records it shares a key with only.\<close>

locale local_engine = engine_laws +
  assumes out_local: "(\<And>k. k \<in> rdeps r \<Longrightarrow> sharing rdeps k M = sharing rdeps k N) \<Longrightarrow> out M r = out N r"

text \<open>A record's result is determined by one part per key, and shows every part.\<close>

locale separable_engine = engine_laws +
  fixes view :: "dep_key \<Rightarrow> qso_record multiset \<Rightarrow> qso_record \<Rightarrow> 'v"
  assumes views_determine:
      "(\<And>k. k \<in> rdeps r \<Longrightarrow> view k (sharing rdeps k M) r = view k (sharing rdeps k N) r) \<Longrightarrow> out M r = out N r"
    and views_visible:
      "out M r = out N r \<Longrightarrow> k \<in> rdeps r \<Longrightarrow> view k (sharing rdeps k M) r = view k (sharing rdeps k N) r"

sublocale separable_engine \<subseteq> local_engine
  by unfold_locales (rule views_determine, simp)


subsection \<open>What the laws give for sequences of applications and retractions\<close>

definition recs :: "(qso_id \<Rightarrow> qso_record) \<Rightarrow> qso_id list \<Rightarrow> qso_record multiset" where
  "recs R ids = image_mset R (mset ids)"

lemma recs_simps [simp]: "recs R [] = {#}" "recs R (i # ids) = add_mset (R i) (recs R ids)"
  by (simp_all add: recs_def)

lemma recs_cong: "mset ids = mset js \<Longrightarrow> (\<And>i. i \<in> set ids \<Longrightarrow> R i = Q i) \<Longrightarrow> recs R ids = recs Q js"
  unfolding recs_def by (metis image_mset_cong set_mset_mset)

lemma recs_partition: "recs R ids = recs R (filter P ids) + recs R (filter (\<lambda>i. \<not> P i) ids)"
  by (induction ids) simp_all

lemma sharing_recs: "sharing rdeps k (recs R ids) = recs R (filter (\<lambda>i. k \<in> rdeps (R i)) ids)"
  by (induction ids) (simp_all add: sharing_def)

lemma sharing_add: "sharing rdeps k (M + N) = sharing rdeps k M + sharing rdeps k N"
  by (simp add: sharing_def)

context engine_laws begin

lemma evaluate_holds:
  assumes "holds s M" "distinct ids" "evaluate e R ids s = (s', N)"
  shows "holds s' (M + recs R ids)"
    and "i \<in> set ids \<Longrightarrow> N i = Some (out (M + recs R (takeWhile (\<lambda>j. j \<noteq> i) ids)) (R i))"
proof -
  have "holds s' (M + recs R ids) \<and>
      (i \<in> set ids \<longrightarrow> N i = Some (out (M + recs R (takeWhile (\<lambda>j. j \<noteq> i) ids)) (R i)))"
    using assms
  proof (induction ids arbitrary: s M N)
    case (Cons j ids)
    obtain s1 a s2 N' where a: "eng_apply e s (R j) = (s1, a)" and N': "evaluate e R ids s1 = (s2, N')"
      by (metis surj_pair)
    with Cons.prems(3) have N: "N = N'(j \<mapsto> a)" "s2 = s'" by simp_all
    from holds_apply [OF Cons.prems(1) a] have h: "holds s1 (add_mset (R j) M)" and out: "a = out M (R j)"
      by simp_all
    from Cons.IH [OF h _ N' [unfolded N(2)]] Cons.prems(2) show ?case
      by (auto simp: N out)
  qed simp
  then show "holds s' (M + recs R ids)"
    and "i \<in> set ids \<Longrightarrow> N i = Some (out (M + recs R (takeWhile (\<lambda>j. j \<noteq> i) ids)) (R i))"
    by simp_all
qed

lemma retract_holds:
  assumes "holds s (M + recs Q ids)" "\<And>i. i \<in> set ids \<Longrightarrow> \<exists>N. A i = Some (out N (Q i))"
  shows "holds (fold (\<lambda>i s. eng_retract e s (Q i) (the (A i))) ids s) M"
  using assms
proof (induction ids arbitrary: s)
  case (Cons i ids)
  from Cons.prems(2) [of i] obtain N where "A i = Some (out N (Q i))" by auto
  with Cons.prems(1) have "holds (eng_retract e s (Q i) (the (A i))) (M + recs Q ids)"
    by (simp add: holds_retract)
  with Cons show ?case by simp
qed simp

end

end
