(* ===== verification/Qso_Projector.thy ===== *)
theory Qso_Projector
  imports Qso_Engine
begin

section \<open>The incremental projector (engine/projector.rs)\<close>

text \<open>
  \<open>Projector\<close> and every method of it, in the order of \<^verbatim>\<open>src/engine/projector.rs\<close>, for an
  arbitrary engine. A method on \<open>&mut self\<close> returns a \<^typ>\<open>('s, 'e, 'a) result\<close>: the state
  in an \<open>Err\<close> is what an early return by \<open>?\<close> leaves behind, results and dependency links
  included. The loop of \<open>incremental_reconcile\<close> has no bound in the source, so it is a
  partial function; \<open>None\<close> would be a call that does not return.

  Then: the link operations as loops over any enumeration of the set, the dependency index
  as a function of the cached results, and the effect of one pass in closed form.
\<close>


subsection \<open>State\<close>

datatype projector_error = PeMissingQso qso_id

record ('s, 'e) projector =
  pj_state :: 's
  pj_applied :: "(qso_id, 'e engine_applied) mapping"
  pj_dep_index :: "(dep_key, qso_id set) mapping"

type_synonym ('s, 'e, 'a) projector_result = "(('s, 'e) projector, projector_error, 'a) result"

definition projector_new :: "('s, 'e) contest_engine \<Rightarrow> ('s, 'e) projector" where
  "projector_new e = \<lparr>pj_state = eng_new_state e, pj_applied = Mapping.empty, pj_dep_index = Mapping.empty\<rparr>"

definition projector_applied :: "('s, 'e) projector \<Rightarrow> (qso_id, 'e engine_applied) mapping" where
  "projector_applied pj = pj_applied pj"

text \<open>\<open>if let Some(ids) = dep_index.get(key)\<close>: the ids listed under a key.\<close>

definition dep_ids :: "(dep_key, qso_id set) mapping \<Rightarrow> dep_key \<Rightarrow> qso_id set" where
  "dep_ids ix k = (case Mapping.lookup ix k of None \<Rightarrow> {} | Some ids \<Rightarrow> ids)"


subsection \<open>Dependency links\<close>

text \<open>The bodies of the two loops over \<open>deps\<close>, then the loops.\<close>

definition add_dep_link :: "qso_id \<Rightarrow> dep_key \<Rightarrow> (dep_key, qso_id set) mapping \<Rightarrow> (dep_key, qso_id set) mapping" where
  "add_dep_link i k ix = Mapping.update k (insert i (dep_ids ix k)) ix"

definition remove_dep_link :: "qso_id \<Rightarrow> dep_key \<Rightarrow> (dep_key, qso_id set) mapping \<Rightarrow> (dep_key, qso_id set) mapping" where
  "remove_dep_link i k ix =
    (case Mapping.lookup ix k of
       None \<Rightarrow> ix
     | Some ids \<Rightarrow> (let ids' = ids - {i} in if ids' = {} then Mapping.delete k ix else Mapping.update k ids' ix))"

definition add_dep_links :: "qso_id \<Rightarrow> dep_key fset \<Rightarrow> (dep_key, qso_id set) mapping \<Rightarrow> (dep_key, qso_id set) mapping" where
  "add_dep_links i deps ix = fold (add_dep_link i) (sorted_list_of_fset deps) ix"

definition remove_dep_links :: "qso_id \<Rightarrow> dep_key fset \<Rightarrow> (dep_key, qso_id set) mapping \<Rightarrow> (dep_key, qso_id set) mapping" where
  "remove_dep_links i deps ix = fold (remove_dep_link i) (sorted_list_of_fset deps) ix"


subsection \<open>One pass: retract and re-apply the impacted records\<close>

definition record_for_retract :: "qso_store \<Rightarrow> qso_id \<Rightarrow> qso_record option \<Rightarrow> qso_id \<Rightarrow> qso_record option" where
  "record_for_retract st changed_id old_record i =
    (if i = changed_id then (case old_record of Some r \<Rightarrow> Some r | None \<Rightarrow> store_get i st)
     else store_get i st)"

fun retract_pass ::
    "('s, 'e) contest_engine \<Rightarrow> qso_store \<Rightarrow> qso_id set \<Rightarrow> qso_id \<Rightarrow> qso_record option \<Rightarrow> qso_id list
      \<Rightarrow> (qso_id, 'e engine_applied) mapping \<Rightarrow> ('s, 'e) projector
      \<Rightarrow> ('s, 'e, (qso_id, 'e engine_applied) mapping) projector_result" where
  "retract_pass e st impacted c old_rec [] old_subset pj = Ok old_subset pj"
| "retract_pass e st impacted c old_rec (i # ids) old_subset pj =
    (if i \<notin> impacted then retract_pass e st impacted c old_rec ids old_subset pj
     else
       (case Mapping.lookup (pj_applied pj) i of
          None \<Rightarrow> retract_pass e st impacted c old_rec ids old_subset pj
        | Some old_applied \<Rightarrow>
          (let pj1 = pj\<lparr>pj_applied := Mapping.delete i (pj_applied pj)\<rparr> in
           case record_for_retract st c old_rec i of
             None \<Rightarrow> Err (PeMissingQso i) pj1
           | Some rec \<Rightarrow>
              retract_pass e st impacted c old_rec ids (Mapping.update i old_applied old_subset)
                (pj1\<lparr>pj_state := eng_retract e (pj_state pj1) rec old_applied,
                  pj_dep_index := remove_dep_links i (ap_deps old_applied) (pj_dep_index pj1)\<rparr>))))"

fun apply_pass ::
    "('s, 'e) contest_engine \<Rightarrow> qso_store \<Rightarrow> qso_id set \<Rightarrow> qso_id list
      \<Rightarrow> (qso_id, 'e engine_applied) mapping \<Rightarrow> ('s, 'e) projector
      \<Rightarrow> ('s, 'e, (qso_id, 'e engine_applied) mapping) projector_result" where
  "apply_pass e st impacted [] new_subset pj = Ok new_subset pj"
| "apply_pass e st impacted (i # ids) new_subset pj =
    (if i \<notin> impacted then apply_pass e st impacted ids new_subset pj
     else
       (case store_get i st of
          None \<Rightarrow> Err (PeMissingQso i) pj
        | Some rec \<Rightarrow>
          if is_void (qr_flags rec) then apply_pass e st impacted ids new_subset pj
          else
            (case eng_apply e (pj_state pj) rec of
               (s1, applied) \<Rightarrow>
                 apply_pass e st impacted ids (Mapping.update i applied new_subset)
                   (pj\<lparr>pj_state := s1,
                     pj_dep_index := add_dep_links i (ap_deps applied) (pj_dep_index pj),
                     pj_applied := Mapping.update i applied (pj_applied pj)\<rparr>))))"

text \<open>The keys that one impacted id contributes, from its old and its new result.\<close>

definition changed_keys_of ::
    "('s, 'e) contest_engine \<Rightarrow> 'e engine_applied option \<Rightarrow> 'e engine_applied option \<Rightarrow> dep_key set" where
  "changed_keys_of e old_ap new_ap =
    (case (old_ap, new_ap) of
       (Some old, Some new) \<Rightarrow>
         if old \<noteq> new then set (keys_changed (eng_diff_invalidation e old new)) else {}
     | (Some old, None) \<Rightarrow> fset (ap_deps old)
     | (None, Some new) \<Rightarrow> fset (ap_deps new)
     | (None, None) \<Rightarrow> {})"

definition recompute_impacted ::
    "('s, 'e) contest_engine \<Rightarrow> qso_store \<Rightarrow> qso_id set \<Rightarrow> qso_id \<Rightarrow> qso_record option
      \<Rightarrow> ('s, 'e) projector \<Rightarrow> ('s, 'e, dep_key set) projector_result" where
  "recompute_impacted e st impacted c old_rec pj =
    (case retract_pass e st impacted c old_rec (ordered_ids st) Mapping.empty pj of
       Panic \<Rightarrow> Panic
     | Err er pj1 \<Rightarrow> Err er pj1
     | Ok old_subset pj1 \<Rightarrow>
       (case apply_pass e st impacted (ordered_ids st) Mapping.empty pj1 of
          Panic \<Rightarrow> Panic
        | Err er pj2 \<Rightarrow> Err er pj2
        | Ok new_subset pj2 \<Rightarrow>
            Ok (\<Union>i \<in> impacted. changed_keys_of e (Mapping.lookup old_subset i) (Mapping.lookup new_subset i)) pj2))"


subsection \<open>The loop and the entry point\<close>

definition expand_impacted :: "(dep_key, qso_id set) mapping \<Rightarrow> dep_key set \<Rightarrow> qso_id set \<Rightarrow> qso_id set" where
  "expand_impacted ix keys impacted = impacted \<union> (\<Union>k \<in> keys. dep_ids ix k)"

partial_function (option) reconcile_loop ::
    "('s, 'e) contest_engine \<Rightarrow> qso_store \<Rightarrow> qso_id \<Rightarrow> qso_id set \<Rightarrow> qso_record option
      \<Rightarrow> ('s, 'e) projector \<Rightarrow> ('s, 'e, unit) projector_result option" where
  "reconcile_loop e st c impacted old_rec pj =
    (case recompute_impacted e st impacted c old_rec pj of
       Panic \<Rightarrow> Some Panic
     | Err er pj1 \<Rightarrow> Some (Err er pj1)
     | Ok changed_keys pj1 \<Rightarrow>
        (let impacted' = expand_impacted (pj_dep_index pj1) changed_keys impacted in
         if impacted' = impacted then Some (Ok () pj1)
         else reconcile_loop e st c impacted' None pj1))"

declare reconcile_loop.simps [code]

text \<open>The queue of keys is filled from the old result of the changed record and drained from
  the front; nothing refills it.\<close>

fun drain_key_queue :: "(dep_key, qso_id set) mapping \<Rightarrow> dep_key list \<Rightarrow> qso_id set \<Rightarrow> qso_id set" where
  "drain_key_queue ix [] impacted = impacted"
| "drain_key_queue ix (key # key_queue) impacted =
    drain_key_queue ix key_queue
      (case Mapping.lookup ix key of None \<Rightarrow> impacted | Some ids \<Rightarrow> impacted \<union> ids)"

definition incremental_reconcile ::
    "('s, 'e) contest_engine \<Rightarrow> qso_store \<Rightarrow> qso_id \<Rightarrow> qso_record option
      \<Rightarrow> ('s, 'e) projector \<Rightarrow> ('s, 'e, unit) projector_result option" where
  "incremental_reconcile e st c old_rec pj =
    (let key_queue = (case Mapping.lookup (pj_applied pj) c of
           None \<Rightarrow> [] | Some old_applied \<Rightarrow> sorted_list_of_fset (ap_deps old_applied));
         impacted = drain_key_queue (pj_dep_index pj) key_queue {c}
     in reconcile_loop e st c impacted old_rec pj)"

definition apply_stored_op ::
    "('s, 'e) contest_engine \<Rightarrow> qso_store \<Rightarrow> stored_op \<Rightarrow> ('s, 'e) projector
      \<Rightarrow> ('s, 'e, unit) projector_result option" where
  "apply_stored_op e st stored pj =
    (case so_op stored of
       OpInsert qso \<Rightarrow> incremental_reconcile e st (qr_id qso) None pj
     | OpPatch i _ prev \<Rightarrow>
        (case store_get i st of
           None \<Rightarrow> Some (Err (PeMissingQso i) pj)
         | Some old \<Rightarrow> incremental_reconcile e st i (Some (apply_to prev old)) pj)
     | OpVoid i prev_is_void \<Rightarrow>
        (case store_get i st of
           None \<Rightarrow> Some (Err (PeMissingQso i) pj)
         | Some old \<Rightarrow>
             incremental_reconcile e st i
               (Some (old\<lparr>qr_flags := (qr_flags old)\<lparr>is_void := prev_is_void\<rparr>\<rparr>)) pj))"


subsection \<open>Links as loops, and the index as a function of the results\<close>

text \<open>Removing a link, at one key.\<close>

definition without :: "qso_id \<Rightarrow> qso_id set option \<Rightarrow> qso_id set option" where
  "without i ids = (case ids of None \<Rightarrow> None | Some s \<Rightarrow> if s - {i} = {} then None else Some (s - {i}))"

lemma remove_dep_link_at:
  "Mapping.lookup (remove_dep_link i k ix) k' = (if k' = k then without i (Mapping.lookup ix k) else Mapping.lookup ix k')"
  by (simp add: remove_dep_link_def without_def Let_def lookup_update' lookup_delete_if split: option.split)

lemma add_loop_at:
  "distinct ds \<Longrightarrow> Mapping.lookup (fold (add_dep_link i) ds ix) k
    = (if k \<in> set ds then Some (insert i (dep_ids ix k)) else Mapping.lookup ix k)"
  by (induction ds arbitrary: ix) (auto simp: add_dep_link_def dep_ids_def lookup_update')

lemma remove_loop_at:
  "distinct ds \<Longrightarrow> Mapping.lookup (fold (remove_dep_link i) ds ix) k
    = (if k \<in> set ds then without i (Mapping.lookup ix k) else Mapping.lookup ix k)"
  by (induction ds arbitrary: ix) (auto simp: remove_dep_link_at)

lemma distinct_sorted_fset: "distinct (sorted_list_of_fset deps)"
  by (simp add: sorted_list_of_fset.rep_eq)

lemma add_dep_links_at:
  "Mapping.lookup (add_dep_links i deps ix) k
    = (if k \<in> fset deps then Some (insert i (dep_ids ix k)) else Mapping.lookup ix k)"
  by (simp add: add_dep_links_def add_loop_at distinct_sorted_fset)

lemma remove_dep_links_at:
  "Mapping.lookup (remove_dep_links i deps ix) k
    = (if k \<in> fset deps then without i (Mapping.lookup ix k) else Mapping.lookup ix k)"
  by (simp add: remove_dep_links_def remove_loop_at distinct_sorted_fset)

text \<open>Whatever order a hash set is traversed in, the loops compute the same index.\<close>

lemma add_dep_links_any_order:
  "distinct ds \<Longrightarrow> set ds = fset deps \<Longrightarrow> fold (add_dep_link i) ds ix = add_dep_links i deps ix"
  by (rule mapping_eqI) (simp add: add_loop_at add_dep_links_at)

lemma remove_dep_links_any_order:
  "distinct ds \<Longrightarrow> set ds = fset deps \<Longrightarrow> fold (remove_dep_link i) ds ix = remove_dep_links i deps ix"
  by (rule mapping_eqI) (simp add: remove_loop_at remove_dep_links_at)

definition carriers :: "(qso_id \<rightharpoonup> 'e engine_applied) \<Rightarrow> dep_key \<Rightarrow> qso_id set" where
  "carriers A k = {i. \<exists>a. A i = Some a \<and> k \<in> fset (ap_deps a)}"

definition dep_index_of :: "(qso_id \<rightharpoonup> 'e engine_applied) \<Rightarrow> (dep_key, qso_id set) mapping" where
  "dep_index_of A = Mapping.Mapping (\<lambda>k. if carriers A k = {} then None else Some (carriers A k))"

text \<open>The cached results as a partial function.\<close>

abbreviation results :: "('s, 'e) projector \<Rightarrow> (qso_id \<rightharpoonup> 'e engine_applied)" where
  "results pj \<equiv> Mapping.lookup (pj_applied pj)"

definition index_ok :: "('s, 'e) projector \<Rightarrow> bool" where
  "index_ok pj \<longleftrightarrow> pj_dep_index pj = dep_index_of (results pj)"

lemma dep_ids_index [simp]: "dep_ids (dep_index_of A) k = carriers A k"
  by (simp add: dep_ids_def dep_index_of_def)

lemma carriers_dom: "carriers A k \<subseteq> dom A"
  by (auto simp: carriers_def)

lemma carriers_empty [simp]: "carriers Map.empty k = {}"
  by (simp add: carriers_def)

lemma carriers_add:
  "A i = None \<Longrightarrow> carriers (A(i \<mapsto> a)) k = (if k \<in> fset (ap_deps a) then insert i (carriers A k) else carriers A k)"
  by (auto simp: carriers_def)

lemma carriers_remove: "carriers (A(i := None)) k = carriers A k - {i}"
  by (auto simp: carriers_def)

lemma carriers_mem: "A i = Some a \<Longrightarrow> i \<in> carriers A k \<longleftrightarrow> k \<in> fset (ap_deps a)"
  by (simp add: carriers_def)

lemma index_add:
  "A i = None \<Longrightarrow> add_dep_links i (ap_deps a) (dep_index_of A) = dep_index_of (A(i \<mapsto> a))"
  by (rule mapping_eqI) (simp add: add_dep_links_at dep_index_of_def dep_ids_def carriers_add)

lemma index_remove:
  assumes "A i = Some a"
  shows "remove_dep_links i (ap_deps a) (dep_index_of A) = dep_index_of (A(i := None))"
proof (rule mapping_eqI)
  fix k
  show "Mapping.lookup (remove_dep_links i (ap_deps a) (dep_index_of A)) k
      = Mapping.lookup (dep_index_of (A(i := None))) k"
    using carriers_mem [where A = A and i = i and a = a and k = k, OF assms]
    by (auto simp: remove_dep_links_at without_def dep_index_of_def carriers_remove)
qed

lemma index_ok_new: "index_ok (projector_new e)"
  by (simp add: index_ok_def projector_new_def dep_index_of_def empty_Mapping)


text \<open>The projector with given results and the index they determine.\<close>

definition projector_of :: "'s \<Rightarrow> (qso_id \<rightharpoonup> 'e engine_applied) \<Rightarrow> ('s, 'e) projector" where
  "projector_of s A = \<lparr>pj_state = s, pj_applied = Mapping.Mapping A, pj_dep_index = dep_index_of A\<rparr>"

lemma projector_of_sel [simp]:
  "pj_state (projector_of s A) = s" "results (projector_of s A) = A"
  "pj_dep_index (projector_of s A) = dep_index_of A" "index_ok (projector_of s A)"
  by (simp_all add: projector_of_def index_ok_def)

lemma index_ok_projector_of: "index_ok pj \<Longrightarrow> pj = projector_of (pj_state pj) (results pj)"
  by (cases pj) (simp add: index_ok_def projector_of_def)

lemma projector_of_retract:
  "A i = Some a \<Longrightarrow> (projector_of s A)\<lparr>pj_applied := Mapping.delete i (pj_applied (projector_of s A)),
      pj_state := s', pj_dep_index := remove_dep_links i (ap_deps a) (dep_index_of A)\<rparr>
    = projector_of s' (A(i := None))"
  by (simp add: projector_of_def index_remove delete_Mapping)

lemma projector_of_apply:
  "A i = None \<Longrightarrow> (projector_of s A)\<lparr>pj_state := s',
      pj_dep_index := add_dep_links i (ap_deps a) (dep_index_of A),
      pj_applied := Mapping.update i a (pj_applied (projector_of s A))\<rparr>
    = projector_of s' (A(i \<mapsto> a))"
  by (simp add: projector_of_def index_add update_Mapping)

lemma drain_key_queue_expand: "drain_key_queue ix ks I = expand_impacted ix (set ks) I"
  by (induction ks arbitrary: I) (auto simp: expand_impacted_def dep_ids_def split: option.split)

lemma incremental_reconcile_start:
  "incremental_reconcile e st c old_rec pj = reconcile_loop e st c
    (expand_impacted (pj_dep_index pj) (case results pj c of None \<Rightarrow> {} | Some a \<Rightarrow> fset (ap_deps a)) {c})
    old_rec pj"
  by (simp add: incremental_reconcile_def drain_key_queue_expand split: option.split)


subsection \<open>A pass in closed form\<close>

text \<open>With every id of the order on record, the first half takes the impacted results out
  and retracts them in order, and the second half puts in what the engine computes.\<close>

abbreviation retract_all ::
    "('s, 'e) contest_engine \<Rightarrow> (qso_id \<Rightarrow> qso_record) \<Rightarrow> (qso_id \<rightharpoonup> 'e engine_applied) \<Rightarrow> qso_id list \<Rightarrow> 's \<Rightarrow> 's" where
  "retract_all e Q A ids s \<equiv> fold (\<lambda>i s. eng_retract e s (Q i) (the (A i))) ids s"

lemma retract_pass_ok:
  assumes "\<forall>i \<in> set ids. record_for_retract st c old_rec i = Some (Q i)" "distinct ids"
  shows "retract_pass e st I c old_rec ids (Mapping.Mapping acc) (projector_of s A)
    = Ok (Mapping.Mapping (acc ++ (A |` (I \<inter> set ids))))
        (projector_of (retract_all e Q A (filter (\<lambda>i. i \<in> I \<and> i \<in> dom A) ids) s) (A |` (- (I \<inter> set ids))))"
  using assms
proof (induction ids arbitrary: acc s A)
  case (Cons i ids)
  show ?case
  proof (cases "i \<in> I \<and> i \<in> dom A")
    case False
    then have "A |` (- (I \<inter> set (i # ids))) = A |` (- (I \<inter> set ids))"
        "A |` (I \<inter> set (i # ids)) = A |` (I \<inter> set ids)"
      by (auto simp: restrict_map_def fun_eq_iff)
    with Cons False show ?thesis by (auto simp: domIff)
  next
    case True
    then obtain a where a: "A i = Some a" "i \<in> I" by auto
    let ?A = "A(i := None)" and ?s = "eng_retract e s (Q i) a"
    have "retract_pass e st I c old_rec (i # ids) (Mapping.Mapping acc) (projector_of s A)
        = retract_pass e st I c old_rec ids (Mapping.Mapping (acc(i \<mapsto> a))) (projector_of ?s ?A)"
      using a Cons.prems projector_of_retract [where A = A and i = i and a = a and s = s and s' = ?s] by (simp add: update_Mapping del: fun_upd_apply)
    moreover have "acc(i \<mapsto> a) ++ (?A |` (I \<inter> set ids)) = acc ++ (A |` (I \<inter> set (i # ids)))"
      using a Cons.prems(2) by (auto simp: fun_eq_iff map_add_def restrict_map_def split: option.split)
    moreover have "?A |` (- (I \<inter> set ids)) = A |` (- (I \<inter> set (i # ids)))"
      using a Cons.prems(2) by (auto simp: fun_eq_iff restrict_map_def)
    moreover have "retract_all e Q ?A (filter (\<lambda>j. j \<in> I \<and> j \<in> dom ?A) ids) ?s
        = retract_all e Q A (filter (\<lambda>j. j \<in> I \<and> j \<in> dom A) ids) ?s"
      using Cons.prems(2) by (intro fold_cong filter_cong) auto
    moreover have "filter (\<lambda>j. j \<in> I \<and> j \<in> dom A) (i # ids) = i # filter (\<lambda>j. j \<in> I \<and> j \<in> dom A) ids"
      using True by simp
    ultimately show ?thesis
      using Cons.IH [of "acc(i \<mapsto> a)" ?s ?A] Cons.prems a by (simp del: fun_upd_apply filter.simps)
  qed
qed (simp add: restrict_map_def)

lemma apply_pass_ok:
  assumes "\<forall>i \<in> set ids. store_get i st = Some (rec_of st i)" "distinct ids"
    and "\<forall>i \<in> I \<inter> set ids. A i = None"
    and "evaluate e (rec_of st) (filter (\<lambda>i. i \<in> I \<and> \<not> is_void (qr_flags (rec_of st i))) ids) s = (s', N)"
  shows "apply_pass e st I ids (Mapping.Mapping acc) (projector_of s A)
    = Ok (Mapping.Mapping (acc ++ N)) (projector_of s' (A ++ N))"
  using assms
proof (induction ids arbitrary: acc s A N)
  case Nil
  then have "N = Map.empty" by simp
  with Nil show ?case by simp
next
  case (Cons i ids)
  show ?case
  proof (cases "i \<in> I \<and> \<not> is_void (qr_flags (rec_of st i))")
    case False
    with Cons show ?thesis by auto
  next
    case True
    let ?xs = "filter (\<lambda>i. i \<in> I \<and> \<not> is_void (qr_flags (rec_of st i))) ids"
    obtain s1 a where a: "eng_apply e s (rec_of st i) = (s1, a)" by fastforce
    obtain s2 N' where N': "evaluate e (rec_of st) ?xs s1 = (s2, N')" by fastforce
    with a True Cons.prems(4) have N: "N = N'(i \<mapsto> a)" "s2 = s'" by simp_all
    have "i \<notin> dom N'" using Cons.prems(2) evaluate_dom [OF N'] by auto
    then have upd: "m(i \<mapsto> a) ++ N' = m ++ N" for m
      by (simp add: N map_add_upd_left)
    have "A i = None" using Cons.prems(3) True by simp
    from projector_of_apply [where A = A and i = i and a = a and s = s and s' = s1, OF this]
    have "apply_pass e st I (i # ids) (Mapping.Mapping acc) (projector_of s A)
        = apply_pass e st I ids (Mapping.Mapping (acc(i \<mapsto> a))) (projector_of s1 (A(i \<mapsto> a)))"
      using a True Cons.prems(1) by (simp add: update_Mapping del: fun_upd_apply)
    also have "\<dots> = Ok (Mapping.Mapping (acc ++ N)) (projector_of s' (A ++ N))"
    proof -
      have "\<forall>j \<in> I \<inter> set ids. (A(i \<mapsto> a)) j = None" using Cons.prems(2,3) by auto
      with Cons.IH [of "A(i \<mapsto> a)" s1 N' "acc(i \<mapsto> a)"] Cons.prems(1,2) N' show ?thesis
        by (simp add: upd N(2) del: fun_upd_apply)
    qed
    finally show ?thesis .
  qed
qed

text \<open>The whole pass over a well-formed store.\<close>

definition pass_results ::
    "('s, 'e) contest_engine \<Rightarrow> qso_store \<Rightarrow> qso_id set \<Rightarrow> (qso_id \<Rightarrow> qso_record)
      \<Rightarrow> ('s, 'e) projector \<Rightarrow> 's \<times> (qso_id \<rightharpoonup> 'e engine_applied)" where
  "pass_results e st I Q pj = evaluate e (rec_of st) (filter (\<lambda>i. i \<in> I) (live_ids st))
    (retract_all e Q (results pj) (filter (\<lambda>i. i \<in> I \<and> i \<in> dom (results pj)) (order st)) (pj_state pj))"

lemma recompute_impacted_ok:
  assumes wf: "store_wf st" and ix: "index_ok pj" and dom: "dom (results pj) \<subseteq> set (order st)"
    and Q: "\<forall>i \<in> set (order st). record_for_retract st c old_rec i = Some (Q i)"
    and res: "pass_results e st I Q pj = (s', N)"
  shows "recompute_impacted e st I c old_rec pj
    = Ok (\<Union>i \<in> I. changed_keys_of e (results pj i) (N i)) (projector_of s' ((results pj |` (- I)) ++ N))"
proof -
  let ?A = "results pj"
  have none: "?A i = None" if "i \<notin> set (order st)" for i
    using dom that by (meson domIff in_mono)
  have rest: "?A |` (- (I \<inter> set (order st))) = ?A |` (- I)"
      "?A |` (I \<inter> set (order st)) = ?A |` I"
    using none by (auto simp: fun_eq_iff restrict_map_def)
  let ?s = "retract_all e Q ?A (filter (\<lambda>i. i \<in> I \<and> i \<in> dom ?A) (order st)) (pj_state pj)"
  have "retract_pass e st I c old_rec (ordered_ids st) Mapping.empty pj
      = Ok (Mapping.Mapping (?A |` I)) (projector_of ?s (?A |` (- I)))"
    using retract_pass_ok [OF Q wf_distinct [OF wf], of e I Map.empty "pj_state pj" ?A]
      index_ok_projector_of [OF ix]
    unfolding rest ordered_ids_def empty_Mapping by simp
  moreover have "apply_pass e st I (ordered_ids st) Mapping.empty (projector_of ?s (?A |` (- I)))
      = Ok (Mapping.Mapping N) (projector_of s' ((?A |` (- I)) ++ N))"
    using apply_pass_ok [of "order st" st I "?A |` (- I)" e ?s s' N Map.empty] res wf
    by (simp add: ordered_ids_def wf_get wf_distinct pass_results_def live_ids_def conj_commute empty_Mapping)
  ultimately show ?thesis
    by (simp add: recompute_impacted_def)
qed

end
