(* ===== verification/Qso_Projector_Inv.thy ===== *)
theory Qso_Projector_Inv
  imports Qso_Projector
begin

section \<open>The projector with an arbitrary engine: termination and the mirror invariant\<close>

text \<open>
  What holds of the projector whatever the engine computes: the loop of
  \<open>incremental_reconcile\<close> returns, after at most one pass per record; over a well-formed
  store it never reports a missing record; and afterwards there is one cached result per
  record that is not void, and the dependency index lists under each key exactly the ids
  whose cached result carries the key.
\<close>


subsection \<open>Termination\<close>

lemma expand_grows: "I \<subseteq> expand_impacted ix K I"
  by (auto simp: expand_impacted_def)

lemma card_expand_less:
  fixes I :: "qso_id set"
  assumes "expand_impacted ix K I \<noteq> I"
  shows "card (- expand_impacted ix K I) < card (- I)"
  using assms expand_grows [of I ix K] by (intro psubset_card_mono) auto

lemma reconcile_loop_total: "\<exists>r. reconcile_loop e st c I old_rec pj = Some r"
proof (induction I arbitrary: old_rec pj rule: measure_induct_rule [where f = "\<lambda>I. card (- I)"])
  case (less I)
  show ?case
    using less card_expand_less [of _ _ I]
    by (subst reconcile_loop.simps) (auto simp: Let_def split: result.split)
qed

text \<open>Total correctness of the loop from an invariant of its passes.\<close>

lemma reconcile_loop_rule:
  assumes step: "\<And>I old_rec pj. P I old_rec pj \<Longrightarrow> \<exists>K pj1. recompute_impacted e st I c old_rec pj = Ok K pj1 \<and>
      (let I' = expand_impacted (pj_dep_index pj1) K I in if I' = I then Post pj1 else P I' None pj1)"
    and init: "P I old_rec pj"
  shows "\<exists>pj'. reconcile_loop e st c I old_rec pj = Some (Ok () pj') \<and> Post pj'"
  using init
proof (induction I arbitrary: old_rec pj rule: measure_induct_rule [where f = "\<lambda>I. card (- I)"])
  case (less I)
  from step [OF less.prems] obtain K pj1 where
    pass: "recompute_impacted e st I c old_rec pj = Ok K pj1" and
    next_I: "let I' = expand_impacted (pj_dep_index pj1) K I in if I' = I then Post pj1 else P I' None pj1"
    by blast
  show ?case
  proof (cases "expand_impacted (pj_dep_index pj1) K I = I")
    case True
    with pass next_I show ?thesis by (subst reconcile_loop.simps) (simp add: Let_def)
  next
    case False
    with next_I less.IH [OF card_expand_less] have
      "\<exists>pj'. reconcile_loop e st c (expand_impacted (pj_dep_index pj1) K I) None pj1 = Some (Ok () pj') \<and> Post pj'"
      by (simp add: Let_def)
    with pass False show ?thesis by (subst reconcile_loop.simps) (simp add: Let_def)
  qed
qed

text \<open>The loop cut off after \<open>n\<close> passes.\<close>

fun reconcile_within ::
    "nat \<Rightarrow> ('s, 'e) contest_engine \<Rightarrow> qso_store \<Rightarrow> qso_id \<Rightarrow> qso_id set \<Rightarrow> qso_record option
      \<Rightarrow> ('s, 'e) projector \<Rightarrow> ('s, 'e, unit) projector_result option" where
  "reconcile_within 0 e st c impacted old_rec pj = None"
| "reconcile_within (Suc n) e st c impacted old_rec pj =
    (case recompute_impacted e st impacted c old_rec pj of
       Panic \<Rightarrow> Some Panic
     | Err er pj1 \<Rightarrow> Some (Err er pj1)
     | Ok changed_keys pj1 \<Rightarrow>
        (let impacted' = expand_impacted (pj_dep_index pj1) changed_keys impacted in
         if impacted' = impacted then Some (Ok () pj1)
         else reconcile_within n e st c impacted' None pj1))"

lemma reconcile_within_loop:
  "reconcile_within n e st c I old_rec pj = Some r \<Longrightarrow> reconcile_loop e st c I old_rec pj = Some r"
proof (induction n arbitrary: I old_rec pj)
  case (Suc n)
  then show ?case
    by (subst reconcile_loop.simps) (auto simp: Let_def split: result.splits if_splits)
qed simp


subsection \<open>The mirror invariant\<close>

definition mirrors :: "qso_store \<Rightarrow> ('s, 'e) projector \<Rightarrow> bool" where
  "mirrors st pj \<longleftrightarrow> index_ok pj \<and> dom (results pj) = set (live_ids st)"

text \<open>In the middle of a reconciliation only impacted ids may be out of step.\<close>

definition loop_ready :: "qso_store \<Rightarrow> qso_id set \<Rightarrow> ('s, 'e) projector \<Rightarrow> bool" where
  "loop_ready st I pj \<longleftrightarrow> index_ok pj \<and> dom (results pj) \<subseteq> set (order st) \<and>
    dom (results pj) - I = set (live_ids st) - I"

lemma mirrors_new: "mirrors new_store (projector_new e)"
  by (simp add: mirrors_def index_ok_new live_ids_def)
    (simp add: projector_new_def new_store_def default_store_def empty_Mapping)

lemma live_order: "set (live_ids st) \<subseteq> set (order st)"
  by (auto simp: live_ids_def)

lemma mirrors_ready: "mirrors st pj \<Longrightarrow> loop_ready st I pj"
  using live_order [of st] by (simp add: mirrors_def loop_ready_def)

definition retract_rec :: "qso_store \<Rightarrow> qso_id \<Rightarrow> qso_record option \<Rightarrow> qso_id \<Rightarrow> qso_record" where
  "retract_rec st c old_rec i = the (record_for_retract st c old_rec i)"

lemma wf_retract_rec:
  "store_wf st \<Longrightarrow> \<forall>i \<in> set (order st). record_for_retract st c old_rec i = Some (retract_rec st c old_rec i)"
  by (auto simp: retract_rec_def record_for_retract_def wf_get split: option.split)

lemma recompute_ready:
  assumes wf: "store_wf st" and ready: "loop_ready st I pj"
    and res: "pass_results e st I (retract_rec st c old_rec) pj = (s', N)"
  shows "recompute_impacted e st I c old_rec pj
      = Ok (\<Union>i \<in> I. changed_keys_of e (results pj i) (N i))
        (projector_of s' ((results pj |` (- I)) ++ N))"
    and "mirrors st (projector_of s' ((results pj |` (- I)) ++ N))"
proof -
  have "dom N = set (live_ids st) \<inter> I"
    using res evaluate_dom [of e "rec_of st" "filter (\<lambda>i. i \<in> I) (live_ids st)"]
    by (fastforce simp: pass_results_def)
  with ready show "mirrors st (projector_of s' ((results pj |` (- I)) ++ N))"
    by (auto simp: mirrors_def index_ok_def loop_ready_def)
  show "recompute_impacted e st I c old_rec pj
      = Ok (\<Union>i \<in> I. changed_keys_of e (results pj i) (N i))
        (projector_of s' ((results pj |` (- I)) ++ N))"
    using ready by (intro recompute_impacted_ok [OF wf _ _ wf_retract_rec [OF wf] res]) (simp_all add: loop_ready_def)
qed

lemma recompute_ready_Ok:
  assumes "store_wf st" "loop_ready st I pj"
  obtains K pj1 where "recompute_impacted e st I c old_rec pj = Ok K pj1" "mirrors st pj1"
proof -
  obtain s' N where "pass_results e st I (retract_rec st c old_rec) pj = (s', N)"
    by fastforce
  from recompute_ready [OF assms this] show ?thesis by (rule that)
qed

lemma reconcile_mirrors:
  assumes "store_wf st" "loop_ready st I pj"
  shows "\<exists>pj'. reconcile_loop e st c I old_rec pj = Some (Ok () pj') \<and> mirrors st pj'"
proof (rule reconcile_loop_rule [where P = "\<lambda>I _. loop_ready st I"])
  fix I old_rec and pj :: "('a, 'b) projector"
  assume "loop_ready st I pj"
  with assms(1) obtain K pj1 where "recompute_impacted e st I c old_rec pj = Ok K pj1" "mirrors st pj1"
    by (rule recompute_ready_Ok)
  moreover from this(2) have
    "let I' = expand_impacted (pj_dep_index pj1) K I in if I' = I then mirrors st pj1 else loop_ready st I' pj1"
    by (simp add: Let_def mirrors_ready)
  ultimately show "\<exists>K pj1. recompute_impacted e st I c old_rec pj = Ok K pj1 \<and>
      (let I' = expand_impacted (pj_dep_index pj1) K I in if I' = I then mirrors st pj1 else loop_ready st I' pj1)"
    by blast
qed (rule assms(2))

text \<open>Each pass but the last brings in a record that is not void.\<close>

lemma reconcile_within_bound:
  assumes "store_wf st" "loop_ready st I pj" "card (set (live_ids st) - I) < n"
  shows "\<exists>pj'. reconcile_within n e st c I old_rec pj = Some (Ok () pj') \<and> mirrors st pj'"
  using assms(2,3)
proof (induction n arbitrary: I old_rec pj)
  case (Suc n)
  from assms(1) Suc.prems(1) obtain K pj1 where
    pass: "recompute_impacted e st I c old_rec pj = Ok K pj1" and mir: "mirrors st pj1"
    by (rule recompute_ready_Ok)
  let ?I' = "expand_impacted (pj_dep_index pj1) K I"
  show ?case
  proof (cases "?I' = I")
    case True
    with pass mir show ?thesis by (simp add: Let_def)
  next
    case False
    have "?I' \<subseteq> I \<union> set (live_ids st)"
      using mir carriers_dom [of "results pj1"] by (auto simp: expand_impacted_def mirrors_def index_ok_def)
    moreover have "I \<subset> ?I'"
      using False expand_grows [of I "pj_dep_index pj1" K] by (simp add: psubset_eq)
    ultimately have "set (live_ids st) - ?I' \<subset> set (live_ids st) - I"
      by blast
    then have "card (set (live_ids st) - ?I') < card (set (live_ids st) - I)"
      by (intro psubset_card_mono) simp
    with Suc.prems(2) have "card (set (live_ids st) - ?I') < n" by simp
    from Suc.IH [OF mirrors_ready [OF mir] this] pass False show ?thesis
      by (simp add: Let_def)
  qed
qed simp


subsection \<open>One operation\<close>

text \<open>The store changed at one id only, which it still has.\<close>

definition changes_only :: "qso_id \<Rightarrow> qso_store \<Rightarrow> qso_store \<Rightarrow> bool" where
  "changes_only c st st' \<longleftrightarrow> store_wf st \<and> store_wf st' \<and> c \<in> set (order st') \<and>
    filter (\<lambda>i. i \<noteq> c) (order st') = filter (\<lambda>i. i \<noteq> c) (order st) \<and>
    (\<forall>i \<in> set (order st). i \<noteq> c \<longrightarrow> rec_of st' i = rec_of st i)"

lemma changes_only_order: "changes_only c st st' \<Longrightarrow> i \<noteq> c \<Longrightarrow> i \<in> set (order st') \<longleftrightarrow> i \<in> set (order st)"
  by (drule arg_cong [where f = set, OF conjunct1 [OF conjunct2 [OF conjunct2 [OF conjunct2
        [OF changes_only_def [THEN iffD1]]]]]]) auto

lemma changes_only_live:
  assumes "changes_only c st st'"
  shows "filter (\<lambda>i. i \<noteq> c) (live_ids st') = filter (\<lambda>i. i \<noteq> c) (live_ids st)"
proof -
  have "filter (\<lambda>i. \<not> is_void (qr_flags (rec_of st' i))) (filter (\<lambda>i. i \<noteq> c) (order st'))
      = filter (\<lambda>i. \<not> is_void (qr_flags (rec_of st i))) (filter (\<lambda>i. i \<noteq> c) (order st))"
    using assms by (auto simp: changes_only_def intro!: filter_cong)
  then show ?thesis
    by (simp add: live_ids_def conj_commute)
qed

lemma changes_only_live_iff:
  assumes "changes_only c st st'" "i \<noteq> c"
  shows "i \<in> set (live_ids st') \<longleftrightarrow> i \<in> set (live_ids st)"
  using arg_cong [OF changes_only_live [OF assms(1)], of set] assms(2) by auto

lemma changes_ready:
  assumes "changes_only c st st'" "mirrors st pj" "c \<in> I"
  shows "loop_ready st' I pj"
proof -
  have c: "c \<in> set (order st')"
    using assms(1) by (simp add: changes_only_def)
  have "set (live_ids st) - I = set (live_ids st') - I"
    by (rule set_eqI) (metis DiffD2 Diff_iff assms(3) changes_only_live_iff [OF assms(1)])
  moreover have "i \<in> set (order st')" if "i \<in> set (live_ids st)" for i
    using that c live_order [of st] changes_only_order [OF assms(1), of i] by (cases "i = c") auto
  then have "set (live_ids st) \<subseteq> set (order st')" by blast
  ultimately show ?thesis
    using assms(2) by (simp add: mirrors_def loop_ready_def)
qed

lemma incremental_reconcile_mirrors:
  assumes "changes_only c st st'" "mirrors st pj"
  shows "\<exists>pj'. incremental_reconcile e st' c old_rec pj = Some (Ok () pj') \<and> mirrors st' pj'"
  unfolding incremental_reconcile_start
  using assms by (intro reconcile_mirrors changes_ready) (auto simp: changes_only_def expand_impacted_def)

end
