(* ===== verification/Qso_Projector_Correct.thy ===== *)
theory Qso_Projector_Correct
  imports Qso_Projector_Inv
begin

section \<open>The projector with a lawful engine: incremental equals full recomputation\<close>

text \<open>
  In the contexts of the engine locales: what one pass computes, the invariant of the
  passes of one reconciliation, and, for a separable engine, that the results at the end are
  those of a full recomputation over the new store. The argument: a record that was not
  re-evaluated shares no key with the changed one; a record that was re-evaluated saw the
  right records under every key whose records were all re-evaluated, and under the other
  keys its part is what it was before, or the difference would have brought them in.
\<close>


context engine_laws begin

definition result_at :: "qso_store \<Rightarrow> qso_id \<Rightarrow> 'e engine_applied" where
  "result_at st i = out (recs (rec_of st) (takeWhile (\<lambda>j. j \<noteq> i) (live_ids st))) (rec_of st i)"

definition up_to_date :: "qso_store \<Rightarrow> ('s, 'e) projector \<Rightarrow> bool" where
  "up_to_date st pj \<longleftrightarrow> mirrors st pj \<and> holds (pj_state pj) (recs (rec_of st) (live_ids st)) \<and>
    (\<forall>i \<in> set (live_ids st). results pj i = Some (result_at st i))"

text \<open>The ids that carry a key in a store.\<close>

definition class_of :: "qso_store \<Rightarrow> dep_key \<Rightarrow> qso_id set" where
  "class_of st k = {i \<in> set (live_ids st). k \<in> rdeps (rec_of st i)}"

lemma live_distinct: "store_wf st \<Longrightarrow> distinct (live_ids st)"
  by (simp add: live_ids_def wf_distinct)

lemma up_to_date_new: "up_to_date new_store (projector_new e)"
  using mirrors_new [of e] holds_new
  by (simp add: up_to_date_def live_ids_def) (simp add: projector_new_def new_store_def default_store_def empty_Mapping)

lemma up_to_date_full:
  assumes "store_wf st" "up_to_date st pj"
  shows "pj_applied pj = full_recompute_projection e st"
proof -
  obtain s' N where N: "evaluate e (rec_of st) (live_ids st) (eng_new_state e) = (s', N)" by fastforce
  have "results pj i = N i" for i
  proof (cases "i \<in> set (live_ids st)")
    case True
    with evaluate_holds(2) [OF holds_new live_distinct [OF assms(1)] N] assms(2) show ?thesis
      by (simp add: up_to_date_def result_at_def)
  next
    case False
    with evaluate_dom [OF N] assms(2) have "i \<notin> dom (results pj)" "i \<notin> dom N"
      by (simp_all add: up_to_date_def mirrors_def)
    then show ?thesis by (simp add: domIff)
  qed
  with N show ?thesis
    by (intro mapping_eqI) (simp add: full_recompute_live [OF assms(1)])
qed


subsection \<open>One pass\<close>

text \<open>Where the cached results came from: the records \<open>Q\<close> at the ids \<open>xs\<close>.\<close>

definition source :: "qso_store \<Rightarrow> qso_id \<Rightarrow> qso_id set \<Rightarrow> qso_record option \<Rightarrow> ('s, 'e) projector
    \<Rightarrow> qso_id list \<Rightarrow> (qso_id \<Rightarrow> qso_record) \<Rightarrow> bool" where
  "source st c I old_rec pj xs Q \<longleftrightarrow> distinct xs \<and> dom (results pj) = set xs \<and>
    holds (pj_state pj) (recs Q xs) \<and> (\<forall>i \<in> set xs. \<exists>M. results pj i = Some (out M (Q i))) \<and>
    filter (\<lambda>i. i \<notin> I) xs = filter (\<lambda>i. i \<notin> I) (live_ids st) \<and>
    (\<forall>i \<in> set xs. retract_rec st c old_rec i = Q i \<and> (i \<noteq> c \<longrightarrow> Q i = rec_of st i))"

lemma source_rest: "source st c I old_rec pj xs Q \<Longrightarrow> i \<notin> I \<Longrightarrow> i \<in> set xs \<longleftrightarrow> i \<in> set (live_ids st)"
proof -
  assume "source st c I old_rec pj xs Q" "i \<notin> I"
  then have "filter (\<lambda>i. i \<notin> I) xs = filter (\<lambda>i. i \<notin> I) (live_ids st)"
    by (simp add: source_def)
  from arg_cong [OF this, of "\<lambda>ys. i \<in> set ys"] \<open>i \<notin> I\<close> show ?thesis by simp
qed

text \<open>The records that a source gives are the current ones, but for the changed id.\<close>

lemma source_out:
  assumes "source st c I old_rec pj xs Q" "i \<in> set xs" "i \<noteq> c"
  obtains M where "results pj i = Some (out M (rec_of st i))"
  using assms unfolding source_def by metis

text \<open>What an impacted id sees: everything not impacted, and the impacted ids before it.\<close>

definition seen :: "qso_store \<Rightarrow> qso_id set \<Rightarrow> qso_id \<Rightarrow> qso_record multiset" where
  "seen st I i = recs (rec_of st) (filter (\<lambda>j. j \<notin> I) (live_ids st))
    + recs (rec_of st) (takeWhile (\<lambda>j. j \<noteq> i) (filter (\<lambda>j. j \<in> I) (live_ids st)))"

lemma pass_spec:
  assumes wf: "store_wf st" and ready: "loop_ready st I pj" and c: "c \<in> I"
    and src: "source st c I old_rec pj xs Q"
    and res: "pass_results e st I (retract_rec st c old_rec) pj = (s', N)"
  shows "holds s' (recs (rec_of st) (live_ids st))"
    and "dom N = set (live_ids st) \<inter> I"
    and "\<And>i. i \<in> set (live_ids st) \<Longrightarrow> i \<in> I \<Longrightarrow> N i = Some (out (seen st I i) (rec_of st i))"
proof -
  let ?A = "results pj" and ?R = "rec_of st" and ?live = "live_ids st"
  let ?zs = "filter (\<lambda>i. i \<in> I \<and> i \<in> dom ?A) (order st)"
  let ?s1 = "fold (\<lambda>i s. eng_retract e s (retract_rec st c old_rec i) (the (?A i))) ?zs (pj_state pj)"
  have dom: "dom ?A = set xs" "set xs \<subseteq> set (order st)" "distinct xs"
    using src ready by (auto simp: source_def loop_ready_def)
  have zs: "mset ?zs = mset (filter (\<lambda>i. i \<in> I) xs)"
    using dom wf_distinct [OF wf] by (intro iffD1 [OF set_eq_iff_mset_eq_distinct]) auto
  have eq: "recs Q (filter (\<lambda>i. i \<in> I) xs) = recs (retract_rec st c old_rec) ?zs"
    using zs src by (intro recs_cong) (auto simp: source_def)
  have rest: "recs Q (filter (\<lambda>i. i \<notin> I) xs) = recs ?R (filter (\<lambda>i. i \<notin> I) ?live)"
  proof (rule recs_cong)
    show "mset (filter (\<lambda>i. i \<notin> I) xs) = mset (filter (\<lambda>i. i \<notin> I) ?live)"
      using src by (simp add: source_def)
    show "\<And>i. i \<in> set (filter (\<lambda>i. i \<notin> I) xs) \<Longrightarrow> Q i = ?R i"
      using src c by (auto simp: source_def)
  qed
  have "holds (pj_state pj) (recs ?R (filter (\<lambda>i. i \<notin> I) ?live) + recs (retract_rec st c old_rec) ?zs)"
  proof -
    have "recs Q xs = recs ?R (filter (\<lambda>i. i \<notin> I) ?live) + recs (retract_rec st c old_rec) ?zs"
      unfolding eq [symmetric] rest [symmetric]
      using recs_partition [of Q xs "\<lambda>i. i \<in> I"] by (simp add: add.commute)
    moreover have "holds (pj_state pj) (recs Q xs)"
      using src by (simp add: source_def)
    ultimately show ?thesis by (rule subst)
  qed
  moreover have "\<exists>M. ?A i = Some (out M (retract_rec st c old_rec i))" if "i \<in> set ?zs" for i
    using that src dom(1) by (auto simp: source_def)
  ultimately have s1: "holds ?s1 (recs ?R (filter (\<lambda>i. i \<notin> I) ?live))"
    by (rule retract_holds)
  have ev: "evaluate e ?R (filter (\<lambda>i. i \<in> I) ?live) ?s1 = (s', N)"
    using res by (simp add: pass_results_def)
  note ev_holds = evaluate_holds [OF s1 distinct_filter [OF live_distinct [OF wf]] ev]
  show "holds s' (recs ?R ?live)"
    using ev_holds(1) recs_partition [of ?R ?live "\<lambda>i. i \<in> I"] by (simp add: add.commute)
  show "dom N = set ?live \<inter> I"
    using evaluate_dom [OF ev] by auto
  show "\<And>i. i \<in> set ?live \<Longrightarrow> i \<in> I \<Longrightarrow> N i = Some (out (seen st I i) (?R i))"
    using ev_holds(2) by (simp add: seen_def)
qed


subsection \<open>The invariant of the passes\<close>

text \<open>Operation at \<open>c\<close>, from \<open>st\<close> to \<open>st'\<close>. The classes of the old keys of \<open>c\<close> and of the keys
  its cached result has are impacted; an impacted record either still has its result from
  before the operation or all its classes are impacted.\<close>

definition passes_inv :: "qso_store \<Rightarrow> qso_store \<Rightarrow> qso_id \<Rightarrow> qso_id set \<Rightarrow> qso_record option
    \<Rightarrow> ('s, 'e) projector \<Rightarrow> bool" where
  "passes_inv st st' c I old_rec pj \<longleftrightarrow> loop_ready st' I pj \<and> c \<in> I \<and>
    (c \<in> set (live_ids st) \<longrightarrow> (\<forall>k \<in> rdeps (rec_of st c). class_of st' k \<subseteq> I)) \<and>
    (\<exists>xs Q. source st' c I old_rec pj xs Q \<and>
      (c \<in> set xs \<longrightarrow> (\<forall>k \<in> rdeps (Q c). class_of st' k \<subseteq> I))) \<and>
    (\<forall>i \<in> set (live_ids st'). i \<noteq> c \<longrightarrow>
      results pj i = Some (result_at st i) \<or> i \<in> I \<and> (\<forall>k \<in> rdeps (rec_of st' i). class_of st' k \<subseteq> I))"

text \<open>What holds after every pass over \<open>I\<close>.\<close>

definition passed :: "qso_store \<Rightarrow> qso_id set \<Rightarrow> ('s, 'e) projector \<Rightarrow> bool" where
  "passed st' I pj \<longleftrightarrow> mirrors st' pj \<and> holds (pj_state pj) (recs (rec_of st') (live_ids st')) \<and>
    (\<forall>i \<in> set (live_ids st'). i \<in> I \<longrightarrow> results pj i = Some (out (seen st' I i) (rec_of st' i))) \<and>
    (\<forall>i \<in> set (live_ids st'). \<exists>M. results pj i = Some (out M (rec_of st' i)))"

lemma passed_source:
  assumes "store_wf st'" "passed st' I pj"
  shows "source st' c J None pj (live_ids st') (rec_of st')"
  using assms by (auto simp: passed_def source_def mirrors_def live_distinct retract_rec_def
      record_for_retract_def rec_of_def)

lemma passed_carriers:
  assumes "passed st' I pj"
  shows "dep_ids (pj_dep_index pj) k = class_of st' k"
proof -
  have ix: "pj_dep_index pj = dep_index_of (results pj)" and dom: "dom (results pj) = set (live_ids st')"
    using assms by (simp_all add: passed_def mirrors_def index_ok_def)
  have "i \<in> carriers (results pj) k \<longleftrightarrow> i \<in> class_of st' k" for i
  proof (cases "i \<in> set (live_ids st')")
    case True
    with assms obtain M where "results pj i = Some (out M (rec_of st' i))" by (auto simp: passed_def)
    with True show ?thesis by (simp add: carriers_mem out_deps class_of_def)
  next
    case False
    with dom carriers_dom [of "results pj" k] show ?thesis by (auto simp: class_of_def)
  qed
  with ix show ?thesis by auto
qed

lemma pass_passed:
  assumes wf: "store_wf st'" and inv: "passes_inv st st' c I old_rec pj"
  obtains N pj1 where
    "recompute_impacted e st' I c old_rec pj = Ok (\<Union>i \<in> I. changed_keys_of e (results pj i) (N i)) pj1"
    "passed st' I pj1" "results pj1 = (results pj |` (- I)) ++ N" "dom N = set (live_ids st') \<inter> I"
proof -
  from inv obtain xs Q where ready: "loop_ready st' I pj" and c: "c \<in> I"
    and src: "source st' c I old_rec pj xs Q"
    by (auto simp: passes_inv_def)
  obtain s' N where res: "pass_results e st' I (retract_rec st' c old_rec) pj = (s', N)" by fastforce
  note spec = pass_spec [OF wf ready c src res]
  let ?pj = "projector_of s' ((results pj |` (- I)) ++ N)"
  have "\<exists>M. results ?pj i = Some (out M (rec_of st' i))" if i: "i \<in> set (live_ids st')" for i
  proof (cases "i \<in> I")
    case True
    with spec(3) [OF i] show ?thesis by auto
  next
    case False
    then have "i \<in> set xs" "i \<noteq> c" "i \<notin> dom N"
      using i source_rest [OF src] c spec(2) by auto
    with False source_out [OF src this(1,2)] show ?thesis by (auto simp: map_add_def domIff)
  qed
  then have "passed st' I ?pj"
    using recompute_ready(2) [OF wf ready res] spec by (auto simp: passed_def)
  with that [OF recompute_ready(1) [OF wf ready res]] spec(2) show ?thesis by simp
qed


text \<open>A pass keeps the invariant for the impacted set it asks for.\<close>

lemma diff_brings_class:
  assumes "passed st' I pj1" "k \<in> K"
  shows "class_of st' k \<subseteq> expand_impacted (pj_dep_index pj1) K I"
  using assms passed_carriers [OF assms(1)] by (auto simp: expand_impacted_def)

lemma changed_class_impacted:
  assumes wf: "store_wf st'" and inv: "passes_inv st st' c I old_rec pj"
    and pass: "passed st' I pj1" "results pj1 = (results pj |` (- I)) ++ N" "dom N = set (live_ids st') \<inter> I"
    and live: "c \<in> set (live_ids st')" and k: "k \<in> rdeps (rec_of st' c)"
  shows "class_of st' k
    \<subseteq> expand_impacted (pj_dep_index pj1) (\<Union>i \<in> I. changed_keys_of e (results pj i) (N i)) I"
proof -
  let ?K = "\<Union>i \<in> I. changed_keys_of e (results pj i) (N i)"
  from inv obtain xs Q where c: "c \<in> I" and src: "source st' c I old_rec pj xs Q"
    and cov: "c \<in> set xs \<Longrightarrow> \<forall>k \<in> rdeps (Q c). class_of st' k \<subseteq> I"
    by (auto simp: passes_inv_def)
  have "c \<in> dom N" using pass(3) live c by simp
  then obtain M where N: "N c = Some (out M (rec_of st' c))"
    using pass(1,2) live by (fastforce simp: passed_def map_add_def)
  consider "class_of st' k \<subseteq> I" | "k \<in> ?K"
  proof (cases "c \<in> set xs \<and> k \<in> rdeps (Q c)")
    case True
    with cov that(1) show ?thesis by blast
  next
    case False
    have "k \<in> changed_keys_of e (results pj c) (N c)"
    proof (cases "results pj c")
      case None
      with N k show ?thesis by (simp add: changed_keys_of_def out_deps)
    next
      case (Some a)
      then have "c \<in> set xs" using src by (auto simp: source_def)
      with src Some obtain M' where a: "a = out M' (Q c)" by (fastforce simp: source_def)
      from False \<open>c \<in> set xs\<close> have nk: "k \<notin> rdeps (Q c)" by simp
      with k have "a \<noteq> out M (rec_of st' c)" by (metis a out_deps)
      with Some N nk k diff_deps [of k "Q c" "rec_of st' c" M' M] show ?thesis
        by (simp add: changed_keys_of_def a)
    qed
    with c that(2) show ?thesis by blast
  qed
  then show ?thesis
  proof cases
    case 1
    with expand_grows [of I "pj_dep_index pj1" ?K] show ?thesis by blast
  qed (rule diff_brings_class [OF pass(1)])
qed

lemma pass_settles:
  assumes wf: "store_wf st'" and inv: "passes_inv st st' c I old_rec pj"
    and pass: "passed st' I pj1" "results pj1 = (results pj |` (- I)) ++ N" "dom N = set (live_ids st') \<inter> I"
    and live: "i \<in> set (live_ids st')" and ic: "i \<noteq> c"
  defines "I' \<equiv> expand_impacted (pj_dep_index pj1) (\<Union>i \<in> I. changed_keys_of e (results pj i) (N i)) I"
  shows "results pj1 i = Some (result_at st i) \<or> i \<in> I' \<and> (\<forall>k \<in> rdeps (rec_of st' i). class_of st' k \<subseteq> I')"
proof -
  let ?K = "\<Union>i \<in> I. changed_keys_of e (results pj i) (N i)"
  have grows: "I \<subseteq> I'" unfolding I'_def by (rule expand_grows)
  from inv obtain xs Q where ready: "loop_ready st' I pj" and src: "source st' c I old_rec pj xs Q"
    and old: "results pj i = Some (result_at st i) \<or> i \<in> I \<and> (\<forall>k \<in> rdeps (rec_of st' i). class_of st' k \<subseteq> I)"
    using live ic by (auto simp: passes_inv_def)
  consider (all) "i \<in> I \<and> (\<forall>k \<in> rdeps (rec_of st' i). class_of st' k \<subseteq> I)"
    | (out) "results pj i = Some (result_at st i)" "i \<notin> I"
    | (same) "results pj i = Some (result_at st i)" "i \<in> I" "N i = results pj i"
    | (diff) "results pj i = Some (result_at st i)" "i \<in> I" "N i \<noteq> results pj i"
    using old by blast
  then show ?thesis
  proof cases
    case all
    with grows show ?thesis by blast
  next
    case out
    then show ?thesis using pass(3) by (auto simp: pass(2) map_add_def domIff split: option.split)
  next
    case same
    then show ?thesis by (simp add: pass(2) map_add_def)
  next
    case diff
    from diff(1) have "i \<in> set xs" using src by (auto simp: source_def)
    from source_out [OF src this ic] obtain M where M: "results pj i = Some (out M (rec_of st' i))" .
    have "i \<in> dom N" using pass(3) live diff(2) by simp
    then obtain M' where N: "N i = Some (out M' (rec_of st' i))"
      using pass(1,2) live by (fastforce simp: passed_def map_add_def)
    from diff(3) M N diff_eval [of M "rec_of st' i" M'] have "rdeps (rec_of st' i) \<subseteq> changed_keys_of e (results pj i) (N i)"
      by (auto simp: changed_keys_of_def)
    with diff(2) have "rdeps (rec_of st' i) \<subseteq> ?K" by blast
    then have "\<forall>k \<in> rdeps (rec_of st' i). class_of st' k \<subseteq> I'"
      unfolding I'_def using diff_brings_class [OF pass(1)] by blast
    with grows diff(2) show ?thesis by blast
  qed
qed

lemma passes_step:
  assumes wf: "store_wf st'" and inv: "passes_inv st st' c I old_rec pj"
  shows "\<exists>K pj1. recompute_impacted e st' I c old_rec pj = Ok K pj1 \<and> passed st' I pj1 \<and>
    passes_inv st st' c (expand_impacted (pj_dep_index pj1) K I) None pj1 \<and>
    (c \<in> set (live_ids st') \<longrightarrow> (\<forall>k \<in> rdeps (rec_of st' c). class_of st' k \<subseteq> expand_impacted (pj_dep_index pj1) K I))"
proof -
  from pass_passed [OF assms] obtain N pj1 where
    run: "recompute_impacted e st' I c old_rec pj = Ok (\<Union>i \<in> I. changed_keys_of e (results pj i) (N i)) pj1"
    and pass: "passed st' I pj1" "results pj1 = (results pj |` (- I)) ++ N" "dom N = set (live_ids st') \<inter> I" .
  let ?I' = "expand_impacted (pj_dep_index pj1) (\<Union>i \<in> I. changed_keys_of e (results pj i) (N i)) I"
  have grows: "I \<subseteq> ?I'" by (rule expand_grows)
  have c: "\<forall>k \<in> rdeps (rec_of st' c). class_of st' k \<subseteq> ?I'" if "c \<in> set (live_ids st')"
    using changed_class_impacted [OF wf inv pass that] by blast
  have "passes_inv st st' c ?I' None pj1"
    unfolding passes_inv_def
  proof (intro conjI exI [of _ "live_ids st'"] exI [of _ "rec_of st'"] impI)
    show "loop_ready st' ?I' pj1" using pass(1) by (intro mirrors_ready) (simp add: passed_def)
    show "c \<in> ?I'" using inv grows by (auto simp: passes_inv_def)
    show "\<forall>k \<in> rdeps (rec_of st c). class_of st' k \<subseteq> ?I'" if "c \<in> set (live_ids st)"
      using inv that grows unfolding passes_inv_def by blast
    show "source st' c ?I' None pj1 (live_ids st') (rec_of st')" by (rule passed_source [OF wf pass(1)])
    show "\<forall>k \<in> rdeps (rec_of st' c). class_of st' k \<subseteq> ?I'" if "c \<in> set (live_ids st')"
      by (rule c [OF that])
    show "\<forall>i \<in> set (live_ids st'). i \<noteq> c \<longrightarrow> results pj1 i = Some (result_at st i) \<or>
        i \<in> ?I' \<and> (\<forall>k \<in> rdeps (rec_of st' i). class_of st' k \<subseteq> ?I')"
      using pass_settles [OF wf inv pass] by blast
  qed
  with run pass(1) c show ?thesis by blast
qed


subsection \<open>Where the passes start\<close>

lemma changes_rec: "changes_only c st st' \<Longrightarrow> i \<in> set (live_ids st) \<Longrightarrow> i \<noteq> c \<Longrightarrow> rec_of st' i = rec_of st i"
  using live_order [of st] by (auto simp: changes_only_def)

lemma changes_class:
  assumes "changes_only c st st'"
  shows "class_of st' k \<subseteq> insert c (class_of st k)"
  using changes_only_live_iff [OF assms] changes_rec [OF assms] by (auto simp: class_of_def)

lemma changes_filter:
  assumes "changes_only c st st'" "c \<in> I"
  shows "filter (\<lambda>i. i \<notin> I) (live_ids st) = filter (\<lambda>i. i \<notin> I) (live_ids st')"
proof -
  have "filter (\<lambda>i. i \<notin> I) xs = filter (\<lambda>i. i \<notin> I) (filter (\<lambda>i. i \<noteq> c) xs)" for xs
    using assms(2) by (auto intro: filter_cong)
  then show ?thesis
    by (metis changes_only_live [OF assms(1)])
qed

lemma up_to_date_carriers:
  assumes "up_to_date st pj"
  shows "dep_ids (pj_dep_index pj) k = class_of st k"
  by (rule passed_carriers [where I = "{}"]) (use assms in \<open>auto simp: passed_def up_to_date_def result_at_def\<close>)

lemma passes_start:
  assumes ch: "changes_only c st st'" and up: "up_to_date st pj"
    and old: "c \<in> set (live_ids st) \<Longrightarrow> old_rec = Some (rec_of st c)"
  shows "passes_inv st st' c (expand_impacted (pj_dep_index pj)
    (case results pj c of None \<Rightarrow> {} | Some a \<Rightarrow> fset (ap_deps a)) {c}) old_rec pj" (is "passes_inv st st' c ?I old_rec pj")
proof -
  have wf: "store_wf st" "store_wf st'" using ch by (simp_all add: changes_only_def)
  have dom: "dom (results pj) = set (live_ids st)" and mir: "mirrors st pj"
    using up by (simp_all add: up_to_date_def mirrors_def)
  have c: "c \<in> ?I" by (simp add: expand_impacted_def)
  have cls: "\<forall>k \<in> rdeps (rec_of st c). class_of st' k \<subseteq> ?I" if "c \<in> set (live_ids st)"
  proof -
    have "results pj c = Some (result_at st c)" using up that by (simp add: up_to_date_def)
    then have "\<forall>k \<in> rdeps (rec_of st c). class_of st k \<subseteq> ?I"
      by (auto simp: expand_impacted_def up_to_date_carriers [OF up] result_at_def out_deps)
    with changes_class [OF ch] c show ?thesis by blast
  qed
  have get: "store_get i st' = Some (rec_of st i)" if "i \<in> set (live_ids st)" "i \<noteq> c" for i
    using that changes_rec [OF ch that] live_order [of st] changes_only_order [OF ch, of i] wf_get [OF wf(2), of i] by auto
  have src: "source st' c ?I old_rec pj (live_ids st) (rec_of st)"
    unfolding source_def
  proof (intro conjI ballI)
    show "retract_rec st' c old_rec i = rec_of st i" if "i \<in> set (live_ids st)" for i
      using that old get [OF that] by (cases "i = c") (simp_all add: retract_rec_def record_for_retract_def)
    show "i \<noteq> c \<longrightarrow> rec_of st i = rec_of st' i" if "i \<in> set (live_ids st)" for i
      using changes_rec [OF ch that] by simp
    show "filter (\<lambda>i. i \<notin> ?I) (live_ids st) = filter (\<lambda>i. i \<notin> ?I) (live_ids st')"
      by (rule changes_filter [OF ch c])
  qed (use up wf dom in \<open>auto simp: up_to_date_def live_distinct result_at_def\<close>)
  have settled: "\<forall>i \<in> set (live_ids st'). i \<noteq> c \<longrightarrow> results pj i = Some (result_at st i)"
    using up by (auto simp: up_to_date_def changes_only_live_iff [OF ch])
  show ?thesis
    unfolding passes_inv_def using changes_ready [OF ch mir c] c cls src settled by blast
qed


subsection \<open>Where the passes end\<close>

lemma takeWhile_filter_neq:
  "P i \<Longrightarrow> takeWhile (\<lambda>j. j \<noteq> i) (filter P xs) = filter P (takeWhile (\<lambda>j. j \<noteq> i) xs)"
  by (induction xs) auto

text \<open>Under a key whose class is impacted, an id saw the records that precede it.\<close>

lemma sharing_seen:
  assumes "class_of st k \<subseteq> I" "i \<in> I"
  shows "sharing rdeps k (seen st I i) = sharing rdeps k (recs (rec_of st) (takeWhile (\<lambda>j. j \<noteq> i) (live_ids st)))"
proof -
  have none: "filter (\<lambda>j. k \<in> rdeps (rec_of st j)) (filter (\<lambda>j. j \<notin> I) (live_ids st)) = []"
    using assms(1) by (auto simp: class_of_def filter_empty_conv)
  have sub: "set (takeWhile (\<lambda>j. j \<noteq> i) (live_ids st)) \<subseteq> set (live_ids st)"
    by (auto dest: set_takeWhileD)
  have "filter (\<lambda>j. k \<in> rdeps (rec_of st j)) (filter (\<lambda>j. j \<in> I) (takeWhile (\<lambda>j. j \<noteq> i) (live_ids st)))
      = filter (\<lambda>j. k \<in> rdeps (rec_of st j)) (takeWhile (\<lambda>j. j \<noteq> i) (live_ids st))"
    unfolding filter_filter using assms(1) sub by (intro filter_cong) (auto simp: class_of_def)
  then show ?thesis
    by (simp only: seen_def sharing_add sharing_recs none recs_simps takeWhile_filter_neq [of "\<lambda>j. j \<in> I", OF assms(2)]
        add_0)
qed

text \<open>Under a key that the changed record neither had nor has, an id sees what it saw before.\<close>

lemma sharing_before:
  assumes ch: "changes_only c st st'" and ic: "i \<noteq> c"
    and old: "c \<in> set (live_ids st) \<Longrightarrow> k \<notin> rdeps (rec_of st c)"
    and new: "c \<in> set (live_ids st') \<Longrightarrow> k \<notin> rdeps (rec_of st' c)"
  shows "sharing rdeps k (recs (rec_of st) (takeWhile (\<lambda>j. j \<noteq> i) (live_ids st)))
    = sharing rdeps k (recs (rec_of st') (takeWhile (\<lambda>j. j \<noteq> i) (live_ids st')))"
proof -
  have drop: "filter (\<lambda>j. k \<in> rdeps (rec_of s j)) (takeWhile (\<lambda>j. j \<noteq> i) (live_ids s))
      = filter (\<lambda>j. k \<in> rdeps (rec_of s j)) (takeWhile (\<lambda>j. j \<noteq> i) (filter (\<lambda>j. j \<noteq> c) (live_ids s)))"
    if "c \<in> set (live_ids s) \<Longrightarrow> k \<notin> rdeps (rec_of s c)" for s
    unfolding takeWhile_filter_neq [of "\<lambda>j. j \<noteq> c", OF ic] filter_filter
    using that by (intro filter_cong) (auto dest: set_takeWhileD)
  let ?ys = "takeWhile (\<lambda>j. j \<noteq> i) (filter (\<lambda>j. j \<noteq> c) (live_ids st))"
  have same: "rec_of st j = rec_of st' j" if "j \<in> set ?ys" for j
    using that changes_rec [OF ch, of j] by (auto dest!: set_takeWhileD)
  have "recs (rec_of st) (filter (\<lambda>j. k \<in> rdeps (rec_of st j)) ?ys)
      = recs (rec_of st') (filter (\<lambda>j. k \<in> rdeps (rec_of st' j)) ?ys)"
    using same by (intro recs_cong arg_cong [where f = mset] filter_cong) auto
  moreover note drop [of st] drop [of st'] changes_only_live [OF ch]
  ultimately show ?thesis
    unfolding sharing_recs using old new by metis
qed

end


context separable_engine begin

lemma passes_end:
  assumes ch: "changes_only c st st'" and pass: "passed st' I pj" and inv: "passes_inv st st' c I None pj"
    and cls: "c \<in> set (live_ids st') \<Longrightarrow> \<forall>k \<in> rdeps (rec_of st' c). class_of st' k \<subseteq> I"
  shows "up_to_date st' pj"
proof -
  have "results pj i = Some (result_at st' i)" if live: "i \<in> set (live_ids st')" for i
  proof -
    let ?r = "rec_of st' i"
    have untouched: "sharing rdeps k (recs (rec_of st) (takeWhile (\<lambda>j. j \<noteq> i) (live_ids st)))
        = sharing rdeps k (recs (rec_of st') (takeWhile (\<lambda>j. j \<noteq> i) (live_ids st')))"
      if "i \<noteq> c" "\<not> class_of st' k \<subseteq> I" for k
      using inv cls that by (intro sharing_before [OF ch]) (auto simp: passes_inv_def)
    have settled: "results pj i = Some (result_at st i) \<or> i \<in> I \<and> (\<forall>k \<in> rdeps ?r. class_of st' k \<subseteq> I)"
      if "i \<noteq> c"
      using inv live that unfolding passes_inv_def by blast
    have rec: "rec_of st i = ?r" if "i \<noteq> c"
      using changes_rec [OF ch _ that] changes_only_live_iff [OF ch that] live by simp
    show ?thesis
    proof (cases "i \<in> I")
      case False
      then have ic: "i \<noteq> c" and res: "results pj i = Some (result_at st i)"
        using inv live settled unfolding passes_inv_def by blast+
      have "\<not> class_of st' k \<subseteq> I" if "k \<in> rdeps ?r" for k
        using False live that by (auto simp: class_of_def)
      then have "result_at st i = result_at st' i"
        unfolding result_at_def rec [OF ic] using untouched [OF ic] by (intro out_local) simp
      with res show ?thesis by simp
    next
      case True
      have now: "results pj i = Some (out (seen st' I i) ?r)"
        using pass live True by (simp add: passed_def)
      have "out (seen st' I i) ?r = result_at st' i"
        unfolding result_at_def
      proof (rule views_determine)
        fix k assume k: "k \<in> rdeps ?r"
        show "view k (sharing rdeps k (seen st' I i)) ?r
            = view k (sharing rdeps k (recs (rec_of st') (takeWhile (\<lambda>j. j \<noteq> i) (live_ids st')))) ?r"
        proof (cases "class_of st' k \<subseteq> I")
          case True
          then show ?thesis by (simp add: sharing_seen [OF True \<open>i \<in> I\<close>])
        next
          case False
          with k cls have ic: "i \<noteq> c" using live by blast
          from settled [OF this] False k have "results pj i = Some (result_at st i)" by blast
          with now have "out (seen st' I i) ?r = result_at st i" by simp
          from views_visible [OF this [unfolded result_at_def rec [OF ic]] k] show ?thesis
            by (simp add: untouched [OF ic False])
        qed
      qed
      with now show ?thesis by simp
    qed
  qed
  with pass show ?thesis
    by (simp add: up_to_date_def passed_def)
qed

text \<open>The theorem: one operation keeps the projector up to date.\<close>

lemma incremental_reconcile_up_to_date:
  assumes ch: "changes_only c st st'" and up: "up_to_date st pj"
    and old: "c \<in> set (live_ids st) \<Longrightarrow> old_rec = Some (rec_of st c)"
  shows "\<exists>pj'. incremental_reconcile e st' c old_rec pj = Some (Ok () pj') \<and> up_to_date st' pj'"
  unfolding incremental_reconcile_start
proof (rule reconcile_loop_rule [where P = "passes_inv st st' c"])
  fix I old_rec pj
  assume inv: "passes_inv st st' c I old_rec pj"
  have wf: "store_wf st'" using ch by (simp add: changes_only_def)
  from passes_step [OF wf inv] obtain K pj1 where
    run: "recompute_impacted e st' I c old_rec pj = Ok K pj1" and pass: "passed st' I pj1"
    and inv': "passes_inv st st' c (expand_impacted (pj_dep_index pj1) K I) None pj1"
    and cls: "c \<in> set (live_ids st') \<longrightarrow>
      (\<forall>k \<in> rdeps (rec_of st' c). class_of st' k \<subseteq> expand_impacted (pj_dep_index pj1) K I)"
    by blast
  have "up_to_date st' pj1" if "expand_impacted (pj_dep_index pj1) K I = I"
    using passes_end [OF ch pass] inv' cls by (simp add: that)
  with run inv' show "\<exists>K pj1. recompute_impacted e st' I c old_rec pj = Ok K pj1 \<and>
      (let I' = expand_impacted (pj_dep_index pj1) K I in
       if I' = I then up_to_date st' pj1 else passes_inv st st' c I' None pj1)"
    by (simp add: Let_def)
qed (rule passes_start [OF assms])

end

end
