(* ===== verification/Qso_Projector_Run.thy ===== *)
theory Qso_Projector_Run
  imports Qso_Projector_Correct
begin

section \<open>A store and a projector that follows it\<close>

text \<open>
  A client that hands the stored operation of every successful mutation to the projector,
  as the tests of the crate do. The store's refinement of the log tells what a command
  changes; the projector's theorems then apply to each step and to whole runs.
\<close>


text \<open>\<open>None\<close>: a panic of the store, an error of the projector, or a call that does not return.\<close>

fun project_run ::
    "profile \<Rightarrow> ('s, 'e) contest_engine \<Rightarrow> (int \<times> store_cmd) list \<Rightarrow> qso_store \<Rightarrow> ('s, 'e) projector
      \<Rightarrow> (qso_store \<times> ('s, 'e) projector) option" where
  "project_run pf e [] st pj = Some (st, pj)"
| "project_run pf e ((clk, cmd) # cmds) st pj =
    (case run_cmd pf clk cmd st of
       Panic \<Rightarrow> None
     | Err _ st' \<Rightarrow> project_run pf e cmds st' pj
     | Ok stored st' \<Rightarrow>
        (case apply_stored_op e st' stored pj of
           Some (Ok _ pj') \<Rightarrow> project_run pf e cmds st' pj'
         | _ \<Rightarrow> None))"


text \<open>\<open>apply_stored_op\<close> with its loop cut off after \<open>n\<close> passes.\<close>

definition incremental_within ::
    "nat \<Rightarrow> ('s, 'e) contest_engine \<Rightarrow> qso_store \<Rightarrow> qso_id \<Rightarrow> qso_record option
      \<Rightarrow> ('s, 'e) projector \<Rightarrow> ('s, 'e, unit) projector_result option" where
  "incremental_within n e st c old_rec pj = reconcile_within n e st c
    (expand_impacted (pj_dep_index pj) (case results pj c of None \<Rightarrow> {} | Some a \<Rightarrow> fset (ap_deps a)) {c})
    old_rec pj"

definition apply_stored_op_within ::
    "nat \<Rightarrow> ('s, 'e) contest_engine \<Rightarrow> qso_store \<Rightarrow> stored_op \<Rightarrow> ('s, 'e) projector
      \<Rightarrow> ('s, 'e, unit) projector_result option" where
  "apply_stored_op_within n e st stored pj =
    (case so_op stored of
       OpInsert qso \<Rightarrow> incremental_within n e st (qr_id qso) None pj
     | OpPatch i _ prev \<Rightarrow>
        (case store_get i st of
           None \<Rightarrow> Some (Err (PeMissingQso i) pj)
         | Some old \<Rightarrow> incremental_within n e st i (Some (apply_to prev old)) pj)
     | OpVoid i prev_is_void \<Rightarrow>
        (case store_get i st of
           None \<Rightarrow> Some (Err (PeMissingQso i) pj)
         | Some old \<Rightarrow>
             incremental_within n e st i
               (Some (old\<lparr>qr_flags := (qr_flags old)\<lparr>is_void := prev_is_void\<rparr>\<rparr>)) pj))"

lemma incremental_within_loop:
  "incremental_within n e st c old_rec pj = Some r \<Longrightarrow> incremental_reconcile e st c old_rec pj = Some r"
  by (simp add: incremental_within_def incremental_reconcile_start reconcile_within_loop)


subsection \<open>What a command changes\<close>

fun op_id :: "op \<Rightarrow> qso_id" where
  "op_id (OpInsert r) = qr_id r"
| "op_id (OpPatch i _ _) = i"
| "op_id (OpVoid i _) = i"

lemma rec_of_log: "store_wf st \<Longrightarrow> rec_of st i = the (log_find i (log_of st))"
  by (simp add: rec_of_def store_get_def wf_lookup)

lemma log_changes_only:
  assumes wf: "store_wf st" "store_wf st'" and ap: "log_apply op (log_of st) = Some (log_of st')"
  shows "changes_only (op_id op) st st'"
proof -
  have ord: "order st = map qr_id (log_of st)" "order st' = map qr_id (log_of st')"
    using wf by (simp_all add: wf_order_ids)
  have ids: "i \<in> log_ids (log_of st)" if "i \<in> set (order st)" for i
    using that by (simp add: wf_log_ids [OF wf(1)])
  show ?thesis
  proof (cases op)
    case (OpInsert r)
    with ap have L': "log_of st' = log_of st @ [r]" by (simp split: if_splits)
    have "rec_of st' i = rec_of st i" if "i \<in> set (order st)" for i
      using ids [OF that] log_find_in [of i "log_of st"] by (auto simp: rec_of_log wf L' log_find_append)
    with OpInsert wf show ?thesis by (simp add: changes_only_def ord L')
  next
    case (OpPatch i p q)
    with ap have L': "i \<in> log_ids (log_of st)" "log_of st' = log_update i (apply_to p) (log_of st)"
      by (simp_all split: if_splits)
    then show ?thesis
      using OpPatch wf by (simp add: changes_only_def ord map_id_update rec_of_log log_find_update flip: log_ids_def)
  next
    case (OpVoid i b)
    with ap have L': "i \<in> log_ids (log_of st)" "log_of st' = log_update i (set_void (\<not> b)) (log_of st)"
      by (simp_all split: if_splits)
    then show ?thesis
      using OpVoid wf by (simp add: changes_only_def ord map_id_update rec_of_log log_find_update flip: log_ids_def)
  qed
qed

lemma effect_changes_only:
  "cmd_effect cmd op so st st' \<Longrightarrow> store_inv st \<Longrightarrow> changes_only (op_id op) st st'"
  by (rule log_changes_only) (simp_all add: cmd_effect_def store_inv_def)

text \<open>The old record that the projector works out is the record before the command.\<close>

lemma effect_reconcile:
  assumes eff: "cmd_effect cmd op so st st'" and inv: "store_inv st"
  obtains old_rec where "apply_stored_op e st' so pj = incremental_reconcile e st' (op_id op) old_rec pj"
    and "\<And>n. apply_stored_op_within n e st' so pj = incremental_within n e st' (op_id op) old_rec pj"
    and "log_exact op (log_of st) \<or> (\<exists>r. op = OpInsert r) \<Longrightarrow> op_id op \<in> set (order st) \<Longrightarrow>
      old_rec = Some (rec_of st (op_id op))"
proof -
  let ?L = "log_of st" and ?L' = "log_of st'"
  have so: "so_op so = log_emit op ?L" and ap: "log_apply op ?L = Some ?L'" and wf: "store_wf st" "store_wf st'"
    using assms by (simp_all add: cmd_effect_def store_inv_def)
  show ?thesis
  proof (cases op)
    case (OpInsert r)
    have "qr_id r \<notin> set (order st)"
      using OpInsert ap by (simp add: wf_log_ids [OF wf(1)] split: if_splits)
    with OpInsert so that [of None] show ?thesis by (simp add: apply_stored_op_def apply_stored_op_within_def)
  next
    case (OpPatch i p q)
    with ap have i: "i \<in> log_ids ?L" and L': "?L' = log_update i (apply_to p) ?L"
      by (simp_all split: if_splits)
    then obtain r where r: "log_find i ?L = Some r" "qr_id r = i" using log_find_in by blast
    then have get: "store_get i st' = Some (apply_to p r)"
      by (simp add: store_get_def wf_lookup [OF wf(2)] L' log_find_update)
    have "apply_stored_op e st' so pj = incremental_reconcile e st' i (Some r) pj"
      "apply_stored_op_within n e st' so pj = incremental_within n e st' i (Some r) pj" for n
      using OpPatch so r get by (simp_all add: apply_stored_op_def apply_stored_op_within_def)
    with OpPatch r that show ?thesis by (simp add: rec_of_log [OF wf(1)])
  next
    case (OpVoid i b)
    with ap have i: "i \<in> log_ids ?L" and L': "?L' = log_update i (set_void (\<not> b)) ?L"
      by (simp_all split: if_splits)
    then obtain r where r: "log_find i ?L = Some r" "qr_id r = i" using log_find_in by blast
    then have get: "store_get i st' = Some (set_void (\<not> b) r)"
      by (simp add: store_get_def wf_lookup [OF wf(2)] L' log_find_update)
    have "apply_stored_op e st' so pj = incremental_reconcile e st' i (Some (set_void b r)) pj"
      "apply_stored_op_within n e st' so pj = incremental_within n e st' i (Some (set_void b r)) pj" for n
      using OpVoid so get by (simp_all add: apply_stored_op_def apply_stored_op_within_def flip: set_void_def)
    moreover have "log_exact op ?L \<Longrightarrow> set_void b r = r"
      using OpVoid r by (simp add: set_void_self)
    ultimately show ?thesis using OpVoid r that by (simp add: rec_of_log [OF wf(1)])
  qed
qed

text \<open>A failed command changes nothing the projector reads.\<close>

lemma same_log_reads:
  assumes "store_wf st" "store_wf st'" "log_of st' = log_of st"
  shows "live_ids st' = live_ids st" "rec_of st' = rec_of st" "mirrors st' pj = mirrors st pj"
proof -
  have "order st' = order st" using assms by (metis wf_order_ids)
  moreover show r: "rec_of st' = rec_of st" using assms by (simp add: fun_eq_iff rec_of_log)
  ultimately show l: "live_ids st' = live_ids st" by (simp add: live_ids_def)
  then show "mirrors st' pj = mirrors st pj" by (simp add: mirrors_def)
qed


subsection \<open>Runs with an arbitrary engine\<close>

lemma effect_mirrors:
  assumes eff: "cmd_effect cmd op so st st'" and inv: "store_inv st" and mir: "mirrors st pj"
  shows "\<exists>pj'. apply_stored_op e st' so pj = Some (Ok () pj') \<and> mirrors st' pj'"
proof -
  from effect_reconcile [OF eff inv] obtain old_rec where
    "apply_stored_op e st' so pj = incremental_reconcile e st' (op_id op) old_rec pj" by blast
  with incremental_reconcile_mirrors [OF effect_changes_only [OF eff inv] mir] show ?thesis by simp
qed

text \<open>The projector of the store before the command needs at most one pass more than there are
  valid records after it.\<close>

lemma effect_within:
  assumes eff: "cmd_effect cmd op so st st'" and inv: "store_inv st" and mir: "mirrors st pj"
    and n: "length (live_ids st') < n"
  shows "\<exists>pj'. apply_stored_op_within n e st' so pj = Some (Ok () pj') \<and> apply_stored_op e st' so pj = Some (Ok () pj') \<and>
    mirrors st' pj'"
proof -
  obtain old_rec where run: "apply_stored_op e st' so pj = incremental_reconcile e st' (op_id op) old_rec pj"
    "apply_stored_op_within n e st' so pj = incremental_within n e st' (op_id op) old_rec pj"
    using effect_reconcile [OF eff inv] by metis
  note ch = effect_changes_only [OF eff inv]
  let ?I = "expand_impacted (pj_dep_index pj) (case results pj (op_id op) of None \<Rightarrow> {} | Some a \<Rightarrow> fset (ap_deps a)) {op_id op}"
  have "op_id op \<in> ?I" by (simp add: expand_impacted_def)
  from changes_ready [OF ch mir this] have ready: "loop_ready st' ?I pj" .
  have "card (set (live_ids st') - ?I) \<le> card (set (live_ids st'))" by (rule card_mono) auto
  also have "\<dots> \<le> length (live_ids st')" by (rule card_length)
  finally obtain pj' where pj': "incremental_within n e st' (op_id op) old_rec pj = Some (Ok () pj')" "mirrors st' pj'"
    using reconcile_within_bound [OF _ ready, of n e "op_id op" old_rec] n ch
    by (auto simp: changes_only_def incremental_within_def)
  with incremental_within_loop [OF pj'(1)] run show ?thesis by simp
qed

lemma project_run_mirrors:
  assumes "store_inv st" "room_for (length cmds) st" "mirrors st pj"
  shows "\<exists>st' pj'. project_run pf e cmds st pj = Some (st', pj') \<and> run_cmds pf cmds st = Some st' \<and>
    store_inv st' \<and> mirrors st' pj'"
  using assms
proof (induction cmds arbitrary: st pj)
  case (Cons c cmds)
  obtain clk cmd where c: "c = (clk, cmd)" by fastforce
  have room: "room_for (Suc (length cmds)) st" using Cons.prems(2) by simp
  from run_cmd_cases [OF Cons.prems(1) room_for_Suc [OF room], of pf clk cmd] show ?case
  proof cases
    case (1 op so st1)
    have "room_for (length cmds) st1"
      by (rule room_for_step [OF room]) (use 1(3) in \<open>auto simp: cmd_effect_def split: store_cmd.splits\<close>)
    moreover obtain pj1 where "apply_stored_op e st1 so pj = Some (Ok () pj1)" "mirrors st1 pj1"
      using effect_mirrors [OF 1(3) Cons.prems(1,3)] by blast
    ultimately show ?thesis
      using Cons.IH [OF cmd_effect_inv [OF 1(3)]] 1(1) by (simp add: c)
  next
    case (2 er st1)
    have "room_for (length cmds) st1"
      by (rule room_for_step [OF room]) (use 2(2) in \<open>auto simp: cmd_failure_def\<close>)
    moreover have "store_inv st1" and log: "log_of st1 = log_of st" and wf: "store_wf st" "store_wf st1"
      using 2(2) Cons.prems(1) by (simp_all add: cmd_failure_def store_inv_def)
    moreover have "mirrors st1 pj"
      unfolding same_log_reads(3) [OF wf log] by (rule Cons.prems(3))
    ultimately show ?thesis
      using Cons.IH 2(1) by (simp add: c)
  qed
qed simp


subsection \<open>Runs with a separable engine\<close>

text \<open>What undo and redo apply is exact, as long as drafts are not void.\<close>

lemma cmd_op_exact:
  assumes rel: "hist_rel st h" and op: "cmd_op cmd st = Some op" and ap: "log_apply op (log_of st) = Some L'"
  shows "log_exact op (log_of st) \<or> (\<exists>r. op = OpInsert r)"
proof -
  obtain ps L fs where h: "h = (ps, L, fs)" by (cases h)
  have L: "log_of st = L" "distinct (map qr_id L)"
    and u: "chain log_apply log_exact L (rev (undo st)) ps" and r: "chain log_apply log_exact L (rev (redo st)) fs"
    using rel wf_log_distinct [of st] by (auto simp: hist_rel_def h store_inv_def)
  show ?thesis
  proof (cases cmd)
    case (CmdPatch i p)
    with op ap L show ?thesis by (auto split: if_splits)
  next
    case (CmdVoid i)
    with op L show ?thesis by (auto split: option.splits)
  next
    case CmdUndo
    with op obtain rest where "vec_pop (undo st) = Some (op, rest)" by auto
    then have "rev (undo st) = op # rev rest" by (simp add: vec_pop_Some)
    with u L(1) show ?thesis by (auto elim: chain_ConsE)
  next
    case CmdRedo
    with op obtain rest where "vec_pop (redo st) = Some (op, rest)" by auto
    then have "rev (redo st) = op # rev rest" by (simp add: vec_pop_Some)
    with r L(1) show ?thesis by (auto elim: chain_ConsE)
  qed (use op in auto)
qed

text \<open>One command in a store whose history is known.\<close>

lemma hist_cmd_cases:
  assumes rel: "hist_rel st h" and room: "room_for (Suc n) st" and live: "cmd_live cmd"
  obtains op so st' where "run_cmd pf clk cmd st = Ok so st'" "cmd_effect cmd op so st st'"
      "hist_rel st' (hist_step cmd (next_qso_id st) h)" "room_for n st'"
      "log_exact op (log_of st) \<or> (\<exists>r. op = OpInsert r)"
    | er st' where "run_cmd pf clk cmd st = Err er st'" "hist_rel st' h" "log_of st' = log_of st" "room_for n st'"
proof -
  obtain ps L fs where h: "h = (ps, L, fs)" by (cases h)
  have inv: "store_inv st" and wf: "store_wf st" using rel by (auto simp: hist_rel_def h store_inv_def)
  have hr: "has_room st" by (rule room_for_Suc [OF room])
  show ?thesis
  proof (cases "\<exists>op L'. cmd_op cmd st = Some op \<and> log_apply op (log_of st) = Some L'")
    case True
    then obtain op L' where op: "cmd_op cmd st = Some op" "log_apply op (log_of st) = Some L'" by blast
    obtain so st' where st': "run_cmd pf clk cmd st = Ok so st'" "cmd_effect cmd op so st st'" "log_of st' = L'"
      using run_cmd_Ok [OF inv hr op] by blast
    have "room_for n st'"
      by (rule room_for_step [OF room]) (use st'(2) in \<open>auto simp: cmd_effect_def split: store_cmd.splits\<close>)
    with that(1) [OF st'(1,2)] hist_cmd_ok [OF rel [unfolded h] live op st'(2,3)] cmd_op_exact [OF rel op]
    show ?thesis by (simp add: h)
  next
    case False
    then have none: "cmd_op cmd st = None \<or> (\<exists>op. cmd_op cmd st = Some op \<and> log_apply op (log_of st) = None)"
      by (cases "cmd_op cmd st") auto
    note same = hist_cmd_none [OF rel [unfolded h] none]
    obtain m er where m: "m \<in> {next_op_seq st, next_op_seq st + 1}"
      "run_cmd pf clk cmd st = Err er ((cmd_pop cmd st)\<lparr>next_op_seq := m\<rparr>)"
      using none run_cmd_Err [OF wf hr] same(3) by fastforce
    then have "room_for n ((cmd_pop cmd st)\<lparr>next_op_seq := m\<rparr>)"
      by (intro room_for_step [OF room]) (auto simp: same(3))
    with that(2) [OF m(2)] same(2) show ?thesis by (simp add: h)
  qed
qed

context separable_engine begin

lemma project_run_up_to_date:
  assumes "hist_rel st h" "room_for (length cmds) st" "\<forall>c \<in> set cmds. cmd_live (snd c)" "up_to_date st pj"
  shows "\<exists>st' pj'. project_run pf e cmds st pj = Some (st', pj') \<and> run_cmds pf cmds st = Some st' \<and>
    store_wf st' \<and> up_to_date st' pj'"
  using assms
proof (induction cmds arbitrary: st h pj)
  case Nil
  then show ?case by (auto simp: hist_rel_def store_inv_def split: prod.splits)
next
  case (Cons c cmds)
  obtain clk cmd where c: "c = (clk, cmd)" by fastforce
  have room: "room_for (Suc (length cmds)) st" and live: "cmd_live cmd" using Cons.prems(2,3) by (simp_all add: c)
  have inv: "store_inv st" using Cons.prems(1) by (auto simp: hist_rel_def split: prod.splits)
  from Cons.prems(1) room live show ?case
  proof (cases rule: hist_cmd_cases [where pf = pf and clk = clk])
    case (1 op so st1)
    have ch: "changes_only (op_id op) st st1" by (rule effect_changes_only [OF 1(2) inv])
    obtain old_rec where run: "apply_stored_op e st1 so pj = incremental_reconcile e st1 (op_id op) old_rec pj"
      and old: "op_id op \<in> set (order st) \<Longrightarrow> old_rec = Some (rec_of st (op_id op))"
      using effect_reconcile [OF 1(2) inv, of e pj] 1(5) by metis
    obtain pj1 where "apply_stored_op e st1 so pj = Some (Ok () pj1)" "up_to_date st1 pj1"
      using incremental_reconcile_up_to_date [OF ch Cons.prems(4) old] live_order [of st] run by auto
    with Cons.IH [OF 1(3,4)] Cons.prems(3) 1(1) show ?thesis by (simp add: c)
  next
    case (2 er st1)
    have "store_wf st" "store_wf st1"
      using inv 2(2) by (auto simp: hist_rel_def store_inv_def split: prod.splits)
    note same = same_log_reads [OF this 2(3)]
    have "up_to_date st1 pj"
      unfolding up_to_date_def result_at_def same
      using Cons.prems(4) by (simp add: up_to_date_def result_at_def)
    with Cons.IH [OF 2(2,4)] Cons.prems(3) 2(1) show ?thesis by (simp add: c)
  qed
qed

lemma project_run_full:
  assumes "length cmds < 18446744073709551615" "\<forall>c \<in> set cmds. cmd_live (snd c)"
  shows "\<exists>st pj. project_run pf e cmds new_store (projector_new e) = Some (st, pj) \<and>
    run_cmds pf cmds new_store = Some st \<and> pj_applied pj = full_recompute_projection e st"
  using project_run_up_to_date [OF hist_rel_new room_for_new [OF assms(1)] assms(2) up_to_date_new]
    up_to_date_full by blast

end

end
