(* ===== verification/Qso_Test_Engine.thy ===== *)
theory Qso_Test_Engine
  imports Qso_Projector_Run
begin

section \<open>Two engines\<close>

text \<open>
  \<open>toy_engine\<close> is \<open>ToyEngine\<close> of \<^verbatim>\<open>tests/engine_incremental.rs\<close>, the only implementation of
  \<open>ContestEngine\<close> in the repository: duplicates by call, band and mode, multipliers by band
  and first character. It is a separable engine. \<open>score_engine\<close> differs in what it reports,
  one number instead of two flags: it keeps all the laws of a local engine, and it is not
  separable.

  The diff of both lists keys in ascending order; a hash set would give them in some other
  order, and the projector only looks at the set.
\<close>


subsection \<open>ToyEngine\<close>

record toy_eval =
  te_points :: u32
  te_is_dupe :: bool
  te_is_new_mult :: bool

record toy_state =
  ts_dupe_counts :: "(dupe_key, nat) mapping"
  ts_mult_counts :: "(string, nat) mapping"

text \<open>\<open>*counts.get(k).unwrap_or(&0)\<close>, \<open>*counts.entry(k).or_insert(0) += 1\<close>, and the body of the
  loop of \<open>retract\<close>: count down and drop the entry at zero.\<close>

definition get_count :: "('k, nat) mapping \<Rightarrow> 'k \<Rightarrow> nat" where
  "get_count m k = (case Mapping.lookup m k of None \<Rightarrow> 0 | Some n \<Rightarrow> n)"

definition count_up :: "'k \<Rightarrow> ('k, nat) mapping \<Rightarrow> ('k, nat) mapping" where
  "count_up k m = Mapping.update k (get_count m k + 1) m"

definition count_down :: "'k \<Rightarrow> ('k, nat) mapping \<Rightarrow> ('k, nat) mapping" where
  "count_down k m =
    (case Mapping.lookup m k of
       None \<Rightarrow> m
     | Some v \<Rightarrow> (let v' = v - 1 in if v' = 0 then Mapping.delete k m else Mapping.update k v' m))"

text \<open>\<open>format!("{:?}", band)\<close> and the first character; a string is its UTF-8 bytes, so the
  first character is a leading byte with the continuation bytes that follow it.\<close>

fun band_debug :: "band \<Rightarrow> string" where
  "band_debug B160m = ''B160m''" | "band_debug B80m = ''B80m''" | "band_debug B40m = ''B40m''"
| "band_debug B20m = ''B20m''" | "band_debug B15m = ''B15m''" | "band_debug B10m = ''B10m''"
| "band_debug BandOther = ''Other''"

definition continuation_byte :: "char \<Rightarrow> bool" where
  "continuation_byte ch \<longleftrightarrow> 128 \<le> (of_char ch :: nat) \<and> (of_char ch :: nat) < 192"

fun first_char :: "string \<Rightarrow> string" where
  "first_char [] = ''_''"
| "first_char (b # bs) = b # takeWhile continuation_byte bs"

definition toy_dupe_key :: "qso_record \<Rightarrow> dupe_key" where
  "toy_dupe_key r = \<lparr>dk_call = qr_callsign_norm r, dk_band = qr_band r, dk_mode = qr_mode r\<rparr>"

definition toy_mult_bucket :: "qso_record \<Rightarrow> string" where
  "toy_mult_bucket r = band_debug (qr_band r) @ '':'' @ first_char (qr_callsign_norm r)"

definition toy_new_state :: toy_state where
  "toy_new_state = \<lparr>ts_dupe_counts = Mapping.empty, ts_mult_counts = Mapping.empty\<rparr>"

definition toy_apply :: "toy_state \<Rightarrow> qso_record \<Rightarrow> toy_state \<times> toy_eval engine_applied" where
  "toy_apply s r =
    (let dupe_key = toy_dupe_key r;
         mult_bucket = toy_mult_bucket r;
         prev_dupe_count = get_count (ts_dupe_counts s) dupe_key;
         s1 = s\<lparr>ts_dupe_counts := count_up dupe_key (ts_dupe_counts s)\<rparr>;
         prev_mult_count = get_count (ts_mult_counts s1) mult_bucket;
         s2 = s1\<lparr>ts_mult_counts := count_up mult_bucket (ts_mult_counts s1)\<rparr>
     in (s2, \<lparr>ap_eval = \<lparr>te_points = (if prev_dupe_count > 0 then 0 else 1),
                te_is_dupe = prev_dupe_count > 0, te_is_new_mult = prev_mult_count = 0\<rparr>,
              ap_deps = {|Dupe dupe_key, Mult \<lparr>mk_key = mult_bucket\<rparr>|}\<rparr>))"

fun toy_retract_dep :: "dep_key \<Rightarrow> toy_state \<Rightarrow> toy_state" where
  "toy_retract_dep (Dupe k) s = s\<lparr>ts_dupe_counts := count_down k (ts_dupe_counts s)\<rparr>"
| "toy_retract_dep (Mult k) s = s\<lparr>ts_mult_counts := count_down (mk_key k) (ts_mult_counts s)\<rparr>"
| "toy_retract_dep _ s = s"

definition toy_retract :: "toy_state \<Rightarrow> qso_record \<Rightarrow> toy_eval engine_applied \<Rightarrow> toy_state" where
  "toy_retract s r applied = fold toy_retract_dep (sorted_list_of_fset (ap_deps applied)) s"

definition toy_diff_invalidation :: "'e engine_applied \<Rightarrow> 'e engine_applied \<Rightarrow> invalidation" where
  "toy_diff_invalidation old new =
    (let changed = sorted_list_of_fset ((ap_deps old |-| ap_deps new) |\<union>| (ap_deps new |-| ap_deps old));
         changed' = (if ap_eval old \<noteq> ap_eval new
           then changed @ sorted_list_of_fset (ap_deps old |\<union>| ap_deps new) else changed)
     in \<lparr>keys_changed = changed'\<rparr>)"

definition toy_engine :: "(toy_state, toy_eval) contest_engine" where
  "toy_engine = \<lparr>eng_new_state = toy_new_state, eng_apply = toy_apply, eng_retract = toy_retract,
    eng_diff_invalidation = toy_diff_invalidation\<rparr>"


subsection \<open>ToyEngine is separable\<close>

definition count_of :: "nat \<Rightarrow> nat option" where
  "count_of n = (if n = 0 then None else Some n)"

definition tally :: "(qso_record \<Rightarrow> 'k) \<Rightarrow> qso_record multiset \<Rightarrow> ('k, nat) mapping" where
  "tally f M = Mapping.Mapping (\<lambda>k. count_of (size (filter_mset (\<lambda>r. f r = k) M)))"

lemma lookup_tally: "Mapping.lookup (tally f M) k = count_of (size (filter_mset (\<lambda>r. f r = k) M))"
  by (simp add: tally_def)

lemma tally_empty: "tally f {#} = Mapping.empty"
  by (rule mapping_eqI) (simp add: lookup_tally count_of_def)

lemma get_count_of: "Mapping.lookup m k = count_of n \<Longrightarrow> get_count m k = n"
  by (simp add: get_count_def count_of_def)

lemma get_tally: "get_count (tally f M) k = size (filter_mset (\<lambda>r. f r = k) M)"
  by (rule get_count_of) (rule lookup_tally)

lemma lookup_count_up: "Mapping.lookup (count_up k m) k' = (if k' = k then Some (get_count m k + 1) else Mapping.lookup m k')"
  by (simp add: count_up_def lookup_update')

lemma lookup_count_down:
  "Mapping.lookup (count_down k m) k' = (if k' = k then
      (case Mapping.lookup m k of None \<Rightarrow> None | Some v \<Rightarrow> count_of (v - 1)) else Mapping.lookup m k')"
  by (simp add: count_down_def count_of_def Let_def lookup_update' lookup_delete_if split: option.split)

lemma count_up_tally: "count_up (f r) (tally f M) = tally f (add_mset r M)"
  by (rule mapping_eqI) (simp add: lookup_count_up get_tally lookup_tally count_of_def)

lemma count_down_tally: "count_down (f r) (tally f (add_mset r M)) = tally f M"
  by (rule mapping_eqI) (simp add: lookup_count_down lookup_tally count_of_def)

definition toy_keys :: "qso_record \<Rightarrow> dep_key set" where
  "toy_keys r = {Dupe (toy_dupe_key r), Mult \<lparr>mk_key = toy_mult_bucket r\<rparr>}"

lemma sorted_pair: "a < b \<Longrightarrow> sorted_list_of_fset {|a, b|} = [a, b]"
  by (simp add: sorted_list_of_fset.rep_eq less_imp_le)

lemma key_less [simp]: "Dupe k < Mult m" "Mult m < Custom s"
  by (simp_all add: less_dep_key_def)

definition toy_out :: "qso_record multiset \<Rightarrow> qso_record \<Rightarrow> toy_eval engine_applied" where
  "toy_out M r =
    (let dupe = sharing toy_keys (Dupe (toy_dupe_key r)) M \<noteq> {#};
         new_mult = sharing toy_keys (Mult \<lparr>mk_key = toy_mult_bucket r\<rparr>) M = {#}
     in \<lparr>ap_eval = \<lparr>te_points = (if dupe then 0 else 1), te_is_dupe = dupe, te_is_new_mult = new_mult\<rparr>,
         ap_deps = {|Dupe (toy_dupe_key r), Mult \<lparr>mk_key = toy_mult_bucket r\<rparr>|}\<rparr>)"

definition toy_holds :: "toy_state \<Rightarrow> qso_record multiset \<Rightarrow> bool" where
  "toy_holds s M \<longleftrightarrow> s = \<lparr>ts_dupe_counts = tally toy_dupe_key M, ts_mult_counts = tally toy_mult_bucket M\<rparr>"

definition toy_view :: "dep_key \<Rightarrow> qso_record multiset \<Rightarrow> qso_record \<Rightarrow> bool" where
  "toy_view k X r \<longleftrightarrow> X = {#}"

lemma toy_sharing:
  "sharing toy_keys (Dupe k) M = filter_mset (\<lambda>r. toy_dupe_key r = k) M"
  "sharing toy_keys (Mult m) M = filter_mset (\<lambda>r. toy_mult_bucket r = mk_key m) M"
  by (auto simp: sharing_def toy_keys_def intro!: filter_mset_cong)

lemma diff_keys:
  "set (keys_changed (toy_diff_invalidation a b)) =
    (if ap_eval a \<noteq> ap_eval b then fset (ap_deps a) \<union> fset (ap_deps b)
     else (fset (ap_deps a) - fset (ap_deps b)) \<union> (fset (ap_deps b) - fset (ap_deps a)))"
  by (auto simp: toy_diff_invalidation_def Let_def)

lemma toy_apply_out:
  assumes "toy_holds s M"
  shows "toy_apply s r = (\<lparr>ts_dupe_counts = tally toy_dupe_key (add_mset r M),
    ts_mult_counts = tally toy_mult_bucket (add_mset r M)\<rparr>, toy_out M r)"
  using assms
  by (simp add: toy_holds_def toy_apply_def toy_out_def Let_def count_up_tally get_tally toy_sharing
      toy_keys_def flip: neq0_conv)

lemma toy_retract_out: "toy_holds s (add_mset r M) \<Longrightarrow> toy_holds (toy_retract s r (toy_out N r)) M"
  by (simp add: toy_holds_def toy_retract_def toy_out_def Let_def sorted_pair count_down_tally)

interpretation toy: separable_engine toy_engine toy_keys toy_out toy_holds toy_view
proof unfold_locales
  show "toy_holds (eng_new_state toy_engine) {#}"
    by (simp add: toy_engine_def toy_new_state_def toy_holds_def tally_empty)
  show "toy_holds s' (add_mset r M) \<and> a = toy_out M r"
    if "toy_holds s M" "eng_apply toy_engine s r = (s', a)" for s M r s' a
    using that toy_apply_out [OF that(1), of r] by (simp add: toy_engine_def toy_holds_def)
  show "toy_holds (eng_retract toy_engine s r (toy_out N r)) M" if "toy_holds s (add_mset r M)" for s r M N
    using toy_retract_out [OF that] by (simp add: toy_engine_def)
  show "fset (ap_deps (toy_out M r)) = toy_keys r" for M r
    by (simp add: toy_out_def toy_keys_def Let_def)
  then show "k \<in> set (keys_changed (eng_diff_invalidation toy_engine (toy_out M r) (toy_out N r')))"
    if "k \<in> toy_keys r \<longleftrightarrow> k \<notin> toy_keys r'" for k r r' M N
    using that by (auto simp: toy_engine_def diff_keys toy_keys_def)
  show "toy_keys r \<subseteq> set (keys_changed (eng_diff_invalidation toy_engine (toy_out M r) (toy_out N r)))"
    if "toy_out M r \<noteq> toy_out N r" for M r N
    using that by (auto simp: toy_engine_def diff_keys toy_out_def Let_def toy_keys_def)
  show "toy_out M r = toy_out N r"
    if "\<And>k. k \<in> toy_keys r \<Longrightarrow> toy_view k (sharing toy_keys k M) r = toy_view k (sharing toy_keys k N) r" for r M N
    using that [of "Dupe (toy_dupe_key r)"] that [of "Mult \<lparr>mk_key = toy_mult_bucket r\<rparr>"]
    by (simp add: toy_out_def toy_view_def toy_keys_def Let_def)
  show "toy_view k (sharing toy_keys k M) r = toy_view k (sharing toy_keys k N) r"
    if "toy_out M r = toy_out N r" "k \<in> toy_keys r" for M r N k
    using that by (auto simp: toy_out_def toy_view_def toy_keys_def Let_def)
qed


subsection \<open>An engine that reports one number\<close>

text \<open>One point for a station not worked before, one for a band not used before.\<close>

type_synonym score_state = "(dep_key, nat) mapping"

definition score_keys :: "qso_record \<Rightarrow> dep_key set" where
  "score_keys r = {Custom (qr_callsign_norm r), Mult \<lparr>mk_key = band_debug (qr_band r)\<rparr>}"

definition score_apply :: "score_state \<Rightarrow> qso_record \<Rightarrow> score_state \<times> u32 engine_applied" where
  "score_apply s r =
    (let call = Custom (qr_callsign_norm r);
         band = Mult \<lparr>mk_key = band_debug (qr_band r)\<rparr>
     in (count_up band (count_up call s),
         \<lparr>ap_eval = (if get_count s call = 0 then 1 else 0) + (if get_count s band = 0 then 1 else 0),
          ap_deps = {|call, band|}\<rparr>))"

definition score_retract :: "score_state \<Rightarrow> qso_record \<Rightarrow> u32 engine_applied \<Rightarrow> score_state" where
  "score_retract s r applied = fold count_down (sorted_list_of_fset (ap_deps applied)) s"

definition score_engine :: "(score_state, u32) contest_engine" where
  "score_engine = \<lparr>eng_new_state = Mapping.empty, eng_apply = score_apply, eng_retract = score_retract,
    eng_diff_invalidation = toy_diff_invalidation\<rparr>"

definition score_out :: "qso_record multiset \<Rightarrow> qso_record \<Rightarrow> u32 engine_applied" where
  "score_out M r = \<lparr>ap_eval =
      (if sharing score_keys (Custom (qr_callsign_norm r)) M = {#} then 1 else 0) +
      (if sharing score_keys (Mult \<lparr>mk_key = band_debug (qr_band r)\<rparr>) M = {#} then 1 else 0),
    ap_deps = {|Custom (qr_callsign_norm r), Mult \<lparr>mk_key = band_debug (qr_band r)\<rparr>|}\<rparr>"

definition score_holds :: "score_state \<Rightarrow> qso_record multiset \<Rightarrow> bool" where
  "score_holds s M \<longleftrightarrow> (\<forall>k. Mapping.lookup s k = count_of (size (sharing score_keys k M)))"

lemma score_count: "score_holds s M \<Longrightarrow> get_count s k = size (sharing score_keys k M)"
  by (rule get_count_of) (simp add: score_holds_def)

lemma score_apply_out: "score_holds s M \<Longrightarrow> snd (score_apply s r) = score_out M r"
  by (simp add: score_apply_def score_count score_out_def score_keys_def Let_def)

lemma score_apply_holds: "score_holds s M \<Longrightarrow> score_holds (fst (score_apply s r)) (add_mset r M)"
  by (auto simp: score_apply_def Let_def lookup_count_up get_count_def score_holds_def sharing_def
      count_of_def score_keys_def)

lemma score_retract_holds:
  "score_holds s (add_mset r M) \<Longrightarrow> score_holds (score_retract s r (score_out N r)) M"
  by (simp add: score_retract_def score_out_def finsert_commute [of "Custom _"] sorted_pair)
    (auto simp: score_holds_def lookup_count_down count_of_def sharing_def score_keys_def)

interpretation score: local_engine score_engine score_keys score_out score_holds
proof unfold_locales
  show "score_holds (eng_new_state score_engine) {#}"
    by (simp add: score_engine_def score_holds_def sharing_def count_of_def)
  show "score_holds s' (add_mset r M) \<and> a = score_out M r"
    if "score_holds s M" "eng_apply score_engine s r = (s', a)" for s M r s' a
    using that(2) score_apply_out [OF that(1), of r] score_apply_holds [OF that(1), of r]
    by (simp add: score_engine_def)
  show "score_holds (eng_retract score_engine s r (score_out N r)) M"
    if "score_holds s (add_mset r M)" for s r M N
    using score_retract_holds [OF that] by (simp add: score_engine_def)
  show "fset (ap_deps (score_out M r)) = score_keys r" for M r
    by (simp add: score_out_def score_keys_def)
  show "k \<in> set (keys_changed (eng_diff_invalidation score_engine (score_out M r) (score_out N r')))"
    if "k \<in> score_keys r \<longleftrightarrow> k \<notin> score_keys r'" for k r r' M N
    using that by (auto simp: score_engine_def diff_keys score_out_def score_keys_def)
  show "score_keys r \<subseteq> set (keys_changed (eng_diff_invalidation score_engine (score_out M r) (score_out N r)))"
    if "score_out M r \<noteq> score_out N r" for M r N
    using that by (auto simp: score_engine_def diff_keys score_out_def score_keys_def)
  show "score_out M r = score_out N r"
    if "\<And>k. k \<in> score_keys r \<Longrightarrow> sharing score_keys k M = sharing score_keys k N" for r M N
    using that by (simp add: score_out_def score_keys_def)
qed

end
