(* ===== verification/Qso_Projector_Properties.thy ===== *)
theory Qso_Projector_Properties
  imports Qso_Test_Engine Qso_Examples
begin

section \<open>Properties of the projector\<close>

text \<open>The theorems about \<open>Projector\<close>, each with a witness where it has hypotheses, and the run
  in which an engine that is not separable ends with a stale result.\<close>

lemma live_ids_iff:
  "store_wf st \<Longrightarrow> i \<in> set (live_ids st) \<longleftrightarrow> (\<exists>r. store_get i st = Some r \<and> \<not> is_void (qr_flags r))"
  using wf_get [of st i] wf_lookup_in [of st i] by (auto simp: live_ids_def rec_of_def store_get_def)

lemma mirrors_iff:
  assumes "store_wf st"
  shows "mirrors st pj \<longleftrightarrow>
    (\<forall>i. (\<exists>a. Mapping.lookup (pj_applied pj) i = Some a) \<longleftrightarrow>
      (\<exists>r. store_get i st = Some r \<and> \<not> is_void (qr_flags r))) \<and>
    (\<forall>k. Mapping.lookup (pj_dep_index pj) k =
      (let ids = {i. \<exists>a. Mapping.lookup (pj_applied pj) i = Some a \<and> k |\<in>| ap_deps a}
       in if ids = {} then None else Some ids))"
proof -
  have "index_ok pj \<longleftrightarrow> (\<forall>k. Mapping.lookup (pj_dep_index pj) k = Mapping.lookup (dep_index_of (results pj)) k)"
    by (auto simp: index_ok_def intro: mapping_eqI)
  moreover have "dom (results pj) = set (live_ids st) \<longleftrightarrow> (\<forall>i. (\<exists>a. results pj i = Some a) \<longleftrightarrow> i \<in> set (live_ids st))"
    by (auto simp: dom_def)
  ultimately show ?thesis
    by (simp add: mirrors_def dep_index_of_def carriers_def Let_def live_ids_iff [OF assms] conj_commute)
qed

lemma project_run_new:
  assumes "length cmds < 18446744073709551615"
  obtains st pj where "project_run pf e cmds new_store (projector_new e) = Some (st, pj)"
    "run_cmds pf cmds new_store = Some st" "store_wf st" "mirrors st pj"
  using project_run_mirrors [where e = e and pf = pf, OF store_inv_new room_for_new [OF assms] mirrors_new [of e]]
  by (auto simp: store_inv_def)

text \<open>C20. Whatever the engine computes and whatever state the projector, the store and the
  operation are in, \<open>apply_stored_op\<close> returns: the loop of \<open>incremental_reconcile\<close>, which has
  no bound in the source, always ends.\<close>
theorem projector_returns: "\<exists>r. apply_stored_op e st stored pj = Some r"
proof -
  have "\<exists>r. incremental_reconcile e st c old_rec pj = Some r" for c old_rec
    unfolding incremental_reconcile_start by (rule reconcile_loop_total)
  then show ?thesis
    by (simp add: apply_stored_op_def split: op.split option.split)
qed

text \<open>C31. The number of passes is bounded. When a store and a projector that followed it from the
  start meet one more successful command, handing its operation to that projector, with the new
  store, succeeds after at most one pass more than the new store has records that are not void:
  cutting the loop off there gives the same result.\<close>
theorem projector_pass_bound:
  assumes "length cmds < 18446744073709551614"
    and "project_run pf e cmds new_store (projector_new e) = Some (st, pj)"
    and "run_cmd pf clk cmd st = Ok so st'"
  shows "\<exists>pj'. apply_stored_op_within (Suc (length (live_ids st'))) e st' so pj = Some (Ok () pj') \<and>
    apply_stored_op e st' so pj = Some (Ok () pj')"
proof -
  have "length cmds < 18446744073709551615" using assms(1) by simp
  from project_run_new [OF this, of pf e] have mir: "mirrors st pj" and st: "run_cmds pf cmds new_store = Some st"
    using assms(2) by auto
  have room: "room_for (length cmds + 1) new_store" by (rule room_for_new) (use assms(1) in simp)
  have inv: "store_inv st" "has_room st"
    using run_cmds_room [OF store_inv_new room, of pf] st room_for_Suc [of 0 st] by auto
  obtain op where "cmd_effect cmd op so st st'"
    by (rule run_cmd_cases [OF inv, of pf clk cmd]) (use assms(3) in auto)
  from effect_within [OF this inv(1) mir lessI] show ?thesis by blast
qed

text \<open>The first contact of the sample run is moved to another call.\<close>

theorem projector_pass_bound_witness:
  "\<exists>st pj so st' pj'. project_run dev_profile toy_engine sample_cmds new_store (projector_new toy_engine) = Some (st, pj) \<and>
    run_cmd dev_profile 9 (CmdPatch 1 (call_patch ''K9Z'')) st = Ok so st' \<and>
    apply_stored_op_within (Suc (length (live_ids st'))) toy_engine st' so pj = Some (Ok () pj')"
proof -
  have len: "length sample_cmds < 18446744073709551615" "length sample_cmds < 18446744073709551614"
    by (simp_all add: sample_cmds_def)
  obtain st pj where run: "project_run dev_profile toy_engine sample_cmds new_store (projector_new toy_engine) = Some (st, pj)"
      "run_cmds dev_profile sample_cmds new_store = Some st"
    using project_run_new [OF len(1)] .
  then have "st = sample_store" using sample_store_run by simp
  moreover have "(case run_cmd dev_profile 9 (CmdPatch 1 (call_patch ''K9Z'')) sample_store of Ok so st' \<Rightarrow> True | _ \<Rightarrow> False)"
    by code_simp
  ultimately obtain so st' where "run_cmd dev_profile 9 (CmdPatch 1 (call_patch ''K9Z'')) st = Ok so st'"
    by (auto split: result.splits)
  with projector_pass_bound [OF len(2) run(1) this] run(1) show ?thesis by blast
qed

text \<open>C19. Along every run of commands from an empty store, with any engine, the projector
  reports no error and does not miss a change: it has one result per record that is not
  void, and its index lists under each key the ids whose result carries it, with no empty
  entry.\<close>
theorem projector_mirrors_store:
  assumes "length cmds < 18446744073709551615"
  shows "\<exists>st pj. project_run pf e cmds new_store (projector_new e) = Some (st, pj) \<and>
    run_cmds pf cmds new_store = Some st \<and>
    (\<forall>i. (\<exists>a. Mapping.lookup (pj_applied pj) i = Some a) \<longleftrightarrow>
      (\<exists>r. store_get i st = Some r \<and> \<not> is_void (qr_flags r))) \<and>
    (\<forall>k. Mapping.lookup (pj_dep_index pj) k =
      (let ids = {i. \<exists>a. Mapping.lookup (pj_applied pj) i = Some a \<and> k |\<in>| ap_deps a}
       in if ids = {} then None else Some ids))"
proof -
  obtain st pj where "project_run pf e cmds new_store (projector_new e) = Some (st, pj)"
    "run_cmds pf cmds new_store = Some st" "store_wf st" "mirrors st pj"
    using project_run_new [OF assms] .
  with mirrors_iff [of st pj] show ?thesis by blast
qed

theorem projector_mirrors_store_witness:
  "\<exists>st pj. project_run dev_profile toy_engine sample_cmds new_store (projector_new toy_engine) = Some (st, pj) \<and>
    run_cmds dev_profile sample_cmds new_store = Some st"
  using projector_mirrors_store [of sample_cmds dev_profile toy_engine] by (auto simp: sample_cmds_def)

text \<open>C7. With a separable engine, the incremental results after any run of commands in which no draft
  is entered void are the results of a full recomputation over the store. The redo of a draft that
  was entered void journals the wrong previous flag (\<open>redo_revives_void_draft\<close>), so the projector
  would work out a wrong old record for it; such runs are not covered.\<close>
theorem projector_matches_full_recompute:
  assumes "separable_engine e rdeps out holds view"
    and "length cmds < 18446744073709551615" "\<forall>c \<in> set cmds. cmd_live (snd c)"
  shows "\<exists>st pj. project_run pf e cmds new_store (projector_new e) = Some (st, pj) \<and>
    run_cmds pf cmds new_store = Some st \<and> projector_applied pj = full_recompute_projection e st"
  unfolding projector_applied_def by (rule separable_engine.project_run_full [OF assms])

theorem projector_matches_full_recompute_witness:
  "\<exists>st pj. project_run dev_profile toy_engine sample_cmds new_store (projector_new toy_engine) = Some (st, pj) \<and>
    run_cmds dev_profile sample_cmds new_store = Some st \<and> projector_applied pj = full_recompute_projection toy_engine st"
  by (rule projector_matches_full_recompute [OF toy.separable_engine_axioms])
    (simp_all add: sample_cmds_def sample_draft_def)

text \<open>An operation on a record the store does not have is refused with its id, and the
  projector is left as it was.\<close>
theorem projector_refuses_missing_record:
  assumes "store_get i st = None"
    and "so_op stored = OpPatch i p prev \<or> so_op stored = OpVoid i b"
  shows "apply_stored_op e st stored pj = Some (Err (PeMissingQso i) pj)"
  using assms by (auto simp: apply_stored_op_def)

theorem projector_refuses_missing_record_witness:
  "apply_stored_op toy_engine new_store \<lparr>so_seq = 1, so_ts_ms = 0, so_op = OpVoid 7 False\<rparr> (projector_new toy_engine)
    = Some (Err (PeMissingQso 7) (projector_new toy_engine))"
  by (rule projector_refuses_missing_record [where b = False]) (simp_all add: new_store_def default_store_def store_get_def)

definition on_band :: "band \<Rightarrow> string \<Rightarrow> qso_draft" where
  "on_band b call = (sample_draft call)\<lparr>qd_band := b\<rparr>"

text \<open>K is worked on two bands, W on the second; then the first contact is voided.\<close>
definition stale_cmds :: "(int \<times> store_cmd) list" where
  "stale_cmds = [(0, CmdInsert (on_band B20m ''K'')), (1, CmdInsert (on_band B40m ''K'')),
    (2, CmdInsert (on_band B40m ''W'')), (3, CmdVoid 1)]"

text \<open>C32. Without separability the results can be stale, even for an engine that keeps every
  other law: the second contact is re-evaluated with the third already in place, gains the
  point for the station, loses the one for the band, and is taken to be unchanged.\<close>
theorem projector_keeps_stale_result:
  "local_engine score_engine score_keys score_out score_holds \<and>
    (\<exists>st pj. project_run dev_profile score_engine stale_cmds new_store (projector_new score_engine) = Some (st, pj) \<and>
      map_option ap_eval (Mapping.lookup (pj_applied pj) 2) = Some 1 \<and>
      map_option ap_eval (Mapping.lookup (full_recompute_projection score_engine st) 2) = Some 2)"
proof -
  have "case project_run dev_profile score_engine stale_cmds new_store (projector_new score_engine) of
      None \<Rightarrow> False
    | Some (st, pj) \<Rightarrow> map_option ap_eval (Mapping.lookup (pj_applied pj) 2) = Some 1 \<and>
        map_option ap_eval (Mapping.lookup (full_recompute_projection score_engine st) 2) = Some 2"
    by code_simp
  then show ?thesis
    using score.local_engine_axioms by (auto split: option.splits)
qed

end
