(* ===== verification/Qso_Restart.thy ===== *)
theory Qso_Restart
  imports Qso_Client_Live Qso_Recovery
begin

section \<open>Restart of the whole system\<close>

text \<open>
  Store, loop, worker and SQLite sink together. At every moment of a run whose database
  engine does not fail, the database and the operations still in flight (the worker's buffer,
  then its queue) rebuild the store: \<^const>\<open>load_store\<close> succeeds, and replaying what is in flight
  on its result gives the data of the store. So a crash loses what is in flight and nothing
  else, and when nothing is in flight, as after a flush or a shutdown, a restart gives the store
  back. Automatic and explicit checkpoints, with compaction or without, batching, the timer and
  both acknowledgment modes are covered.
\<close>


subsection \<open>Rebuilding a store from a start and a list of operations\<close>

definition rebuilds :: "profile \<Rightarrow> qso_store \<Rightarrow> stored_op list \<Rightarrow> qso_store \<Rightarrow> bool" where
  "rebuilds pf st0 js st \<longleftrightarrow> (\<forall>clk. \<exists>rs. replay_all pf clk js st0 = Ok () rs \<and> replica st rs)"

lemma rebuilds_start: "replica st st0 \<Longrightarrow> rebuilds pf st0 [] st"
  by (simp add: rebuilds_def)

lemma rebuilds_step:
  assumes "rebuilds pf st0 js st" "cmd_effect cmd op so st st1" "store_inv st" "has_room st" "cmd_op cmd st = Some op"
  shows "rebuilds pf st0 (js @ [so]) st1"
  unfolding rebuilds_def
proof
  fix clk
  obtain rs where rs: "replay_all pf clk js st0 = Ok () rs" "replica st rs"
    using assms(1) by (auto simp: rebuilds_def)
  from replica_effect [OF assms(2-5) rs(2), of pf "clk (length js)"] obtain rs1 where
    "apply_replayed_op pf (clk (length js)) so rs = Ok () rs1" "replica st1 rs1" by blast
  with rs(1) show "\<exists>rs. replay_all pf clk (js @ [so]) st0 = Ok () rs \<and> replica st1 rs"
    by (simp add: replay_all_append)
qed

text \<open>The same data, and possibly a gap in the sequence numbers.\<close>

definition same_data :: "qso_store \<Rightarrow> qso_store \<Rightarrow> bool" where
  "same_data st st' \<longleftrightarrow> log_of st' = log_of st \<and> next_qso_id st' = next_qso_id st \<and> next_op_seq st \<le> next_op_seq st'"

lemma rebuilds_same: "rebuilds pf st0 js st \<Longrightarrow> same_data st st' \<Longrightarrow> rebuilds pf st0 js st'"
  by (fastforce simp: rebuilds_def replica_def same_data_def)


subsection \<open>What the database says of the store\<close>

text \<open>The latest snapshot, or nothing, is where loading starts; the rows of the journal are
  \<open>old\<close>, which the snapshot covers, and then \<open>js\<close>, which follows it; \<open>ops\<close> is in flight.\<close>

definition journal_from ::
    "'p codec \<Rightarrow> 'p database \<Rightarrow> qso_store \<Rightarrow> stored_op list \<Rightarrow> stored_op list \<Rightarrow> stored_op list \<Rightarrow> bool" where
  "journal_from cdc db st0 old js ops \<longleftrightarrow> meta_current (db_meta db) \<and> replica st0 st0 \<and> ids_below st0 \<and>
    (\<exists>osnap. load_latest_snapshot cdc no_faults db = Inr osnap \<and>
      (case osnap of Some snap \<Rightarrow> from_snapshot snap | None \<Rightarrow> Inr new_store) = Inr st0) \<and>
    db_events db = map (entry_row cdc) (old @ js) \<and> journal_ok (old @ js @ ops) \<and>
    0 < next_op_seq st0 \<and> (\<forall>so \<in> set old. so_seq so < next_op_seq st0) \<and>
    (\<forall>so \<in> set (js @ ops). next_op_seq st0 \<le> so_seq so)"

definition journalled :: "profile \<Rightarrow> 'p codec \<Rightarrow> 'p database \<Rightarrow> stored_op list \<Rightarrow> qso_store \<Rightarrow> bool" where
  "journalled pf cdc db ops st \<longleftrightarrow> (\<exists>st0 old js. journal_from cdc db st0 old js ops \<and>
    next_op_seq st0 \<le> next_op_seq st \<and> next_op_seq st < 2 ^ 63 \<and>
    (\<forall>so \<in> set (old @ js @ ops). so_seq so < next_op_seq st) \<and> rebuilds pf st0 (js @ ops) st)"

lemma journalled_new:
  assumes "meta_current (db_meta db)" "db_events db = []" "db_snapshots db = []"
  shows "journalled pf cdc db [] new_store"
proof -
  have "journal_from cdc db new_store [] [] []"
    using assms replica_new
    by (simp add: journal_from_def load_latest_snapshot_def select_latest_snapshot_def journal_ok_def)
      (simp add: new_store_def default_store_def no_faults_def sql_try_def)
  moreover have "next_op_seq new_store < 2 ^ 63" by (simp add: new_store_def)
  ultimately show ?thesis
    using rebuilds_start [OF replica_new] unfolding journalled_def by fastforce
qed

lemma journalled_same:
  assumes "journalled pf cdc db ops st" "same_data st st'" "next_op_seq st' < 2 ^ 63"
  shows "journalled pf cdc db ops st'"
proof -
  obtain st0 old js where jf: "journal_from cdc db st0 old js ops" "next_op_seq st0 \<le> next_op_seq st"
    "\<forall>so \<in> set (old @ js @ ops). so_seq so < next_op_seq st" "rebuilds pf st0 (js @ ops) st"
    using assms(1) by (auto simp: journalled_def)
  have le: "next_op_seq st \<le> next_op_seq st'" using assms(2) by (simp add: same_data_def)
  then have "next_op_seq st0 \<le> next_op_seq st'" "\<forall>so \<in> set (old @ js @ ops). so_seq so < next_op_seq st'"
    using jf(2,3) by (auto intro: order.strict_trans2 [OF _ le])
  with jf(1) rebuilds_same [OF jf(4) assms(2)] assms(3) show ?thesis
    unfolding journalled_def by blast
qed

lemma journal_ok_snoc:
  "journal_ok xs \<Longrightarrow> \<forall>x \<in> set xs. so_seq x < so_seq so \<Longrightarrow> so_seq so < 2 ^ 63 \<Longrightarrow> journal_ok (xs @ [so])"
  by (auto simp: journal_ok_def sorted_wrt_append)

lemma journalled_accept:
  assumes jn: "journalled pf cdc db ops st" and eff: "cmd_effect cmd op so st st1"
    and st: "store_inv st" "has_room st" "cmd_op cmd st = Some op" and small: "next_op_seq st1 < 2 ^ 63"
  shows "journalled pf cdc db (ops @ [so]) st1"
proof -
  obtain st0 old js where jf: "journal_from cdc db st0 old js ops" "next_op_seq st0 \<le> next_op_seq st"
    and seqs: "\<forall>so \<in> set (old @ js @ ops). so_seq so < next_op_seq st" and rb: "rebuilds pf st0 (js @ ops) st"
    using jn by (auto simp: journalled_def)
  have so: "so_seq so = next_op_seq st" "next_op_seq st1 = next_op_seq st + 1" "next_op_seq st \<noteq> u64_max"
    using eff st(2) by (simp_all add: cmd_effect_def has_room_def)
  have lt: "next_op_seq st < next_op_seq st1" using less_succ [OF so(3)] so(2) by simp
  then have "so_seq so < 2 ^ 63" using small so(1) by simp
  with journal_ok_snoc [of "old @ js @ ops" so] jf(1) seqs so(1) have "journal_ok (old @ js @ ops @ [so])"
    by (simp add: journal_from_def)
  with jf so(1) have "journal_from cdc db st0 old js (ops @ [so])"
    by (simp add: journal_from_def)
  moreover have "rebuilds pf st0 (js @ ops @ [so]) st1"
    using rebuilds_step [OF rb eff st] by simp
  moreover have "\<forall>so' \<in> set (old @ js @ ops @ [so]). so_seq so' < next_op_seq st1"
    using seqs so(1) lt by (auto intro: less_trans [OF _ lt])
  moreover have "next_op_seq st0 \<le> next_op_seq st1" using jf(2) lt by simp
  ultimately show ?thesis
    using small unfolding journalled_def by blast
qed

text \<open>Appending moves operations from the flight to the journal.\<close>

lemma journalled_append:
  assumes cdc: "codec_ok cdc" and jn: "journalled pf cdc db (ops @ rest) st" and ne: "ops \<noteq> []"
  obtains db' where "append_ops cdc no_faults ops db = (Inr (so_seq (last ops)), db')" "journalled pf cdc db' rest st"
proof -
  obtain st0 old js where jf: "journal_from cdc db st0 old js (ops @ rest)" and
    st: "next_op_seq st0 \<le> next_op_seq st" "next_op_seq st < 2 ^ 63"
      "\<forall>so \<in> set (old @ js @ ops @ rest). so_seq so < next_op_seq st" "rebuilds pf st0 (js @ ops @ rest) st"
    using jn by (auto simp: journalled_def)
  let ?db = "db\<lparr>db_events := map (entry_row cdc) ((old @ js) @ ops)\<rparr>"
  have "journal_ok ((old @ js) @ ops)" "db_events db = map (entry_row cdc) (old @ js)"
    using jf journal_ok_append [of "(old @ js) @ ops" rest] by (simp_all add: journal_from_def)
  note app = append_ops_journal [OF cdc this ne]
  have "journal_from cdc ?db st0 old (js @ ops) rest"
    using jf by (auto simp: journal_from_def load_latest_snapshot_def)
  with st have "journalled pf cdc ?db rest st"
    unfolding journalled_def by (intro exI [of _ st0] exI [of _ old] exI [of _ "js @ ops"]) auto
  with app that show thesis by blast
qed

text \<open>A snapshot of the store itself becomes the new start; compaction then empties the journal.\<close>

lemma journalled_snapshot:
  assumes cdc: "codec_ok cdc" and jn: "journalled pf cdc db [] st" and inv: "store_inv st"
  obtains rows where "write_snapshot cdc no_faults clk (export_snapshot st) n db = (Inr (), db\<lparr>db_snapshots := rows\<rparr>)"
    "journalled pf cdc (db\<lparr>db_snapshots := rows\<rparr>) [] st"
    "snd (compact_through no_faults (latest_op_seq st) (db\<lparr>db_snapshots := rows\<rparr>)) = db\<lparr>db_snapshots := rows, db_events := []\<rparr>"
    "journalled pf cdc (db\<lparr>db_snapshots := rows, db_events := []\<rparr>) [] st"
proof -
  obtain st0 old js where jf: "journal_from cdc db st0 old js []" and
    st: "next_op_seq st0 \<le> next_op_seq st" "next_op_seq st < 2 ^ 63" "\<forall>so \<in> set (old @ js). so_seq so < next_op_seq st"
    using jn by (auto simp: journalled_def)
  obtain rows where wr: "write_snapshot cdc no_faults clk (export_snapshot st) n db = (Inr (), db\<lparr>db_snapshots := rows\<rparr>)"
    and ld: "\<And>evs. load_latest_snapshot cdc no_faults (db\<lparr>db_snapshots := rows, db_events := evs\<rparr>) = Inr (Some (export_snapshot st))"
    using write_snapshot_ok [OF cdc] by blast
  obtain rs where rs: "from_snapshot (export_snapshot st) = Inr rs" "replica st rs" "next_op_seq rs = next_op_seq st"
    using snapshot_replica inv by (auto simp: store_inv_def)
  then have self: "replica rs rs" "ids_below rs" "meta_current (db_meta db)"
    using jf inv by (auto simp: replica_def journal_from_def store_inv_def ids_below_log)
  have js: "journal_ok (old @ js)" "db_events db = map (entry_row cdc) (old @ js)" "0 < next_op_seq st"
    using jf st(1) by (auto simp: journal_from_def intro: order.strict_trans2)
  have all: "journalled pf cdc (db\<lparr>db_snapshots := rows, db_events := map (entry_row cdc) evs\<rparr>) [] st"
    if "evs = old @ js \<or> evs = []" for evs
  proof -
    have "journal_from cdc (db\<lparr>db_snapshots := rows, db_events := map (entry_row cdc) evs\<rparr>) rs evs [] []"
      using that js st(3) rs ld self by (auto simp: journal_from_def journal_ok_def)
    then show ?thesis
      using that st(2,3) rs rebuilds_start [OF rs(2)] unfolding journalled_def
      by (intro exI [of _ rs] exI [of _ evs] exI [of _ "[]"]) auto
  qed
  have "db\<lparr>db_snapshots := rows, db_events := map (entry_row cdc) (old @ js)\<rparr> = db\<lparr>db_snapshots := rows\<rparr>"
    using js(2) by (cases db) simp
  with all [of "old @ js"] have "journalled pf cdc (db\<lparr>db_snapshots := rows\<rparr>) [] st" by simp
  moreover have "snd (compact_through no_faults (latest_op_seq st) (db\<lparr>db_snapshots := rows\<rparr>)) = db\<lparr>db_snapshots := rows, db_events := []\<rparr>"
    using js st(3) by (intro compact_journal [OF _ _ _ st(2)]) (auto simp: journal_ok_def)
  ultimately show thesis using that wr all [of "[]"] by simp
qed


subsection \<open>The worker on an engine that does not fail\<close>

definition fault_free :: "'p connection \<Rightarrow> bool" where
  "fault_free c \<longleftrightarrow> list_all (\<lambda>(flt, clk). flt = no_faults) (snd c)"

lemma with_conn_free:
  assumes "fault_free c"
  obtains clk c' where "with_conn f c = (fst (f no_faults clk (fst c)), c')"
    "fst c' = snd (f no_faults clk (fst c))" "fault_free c'"
proof (cases "snd c")
  case Nil
  with that [of 0 "(snd (f no_faults 0 (fst c)), [])"] show thesis
    by (cases c) (simp add: fault_free_def split: prod.splits)
next
  case (Cons x env)
  obtain clk where "x = (no_faults, clk)" "list_all (\<lambda>(flt, clk). flt = no_faults) env"
    using assms Cons by (auto simp: fault_free_def)
  with Cons that [of clk "(snd (f no_faults clk (fst c)), env)"] show thesis
    by (cases c) (simp add: fault_free_def split: prod.splits)
qed

definition worker_sound :: "profile \<Rightarrow> 'p codec \<Rightarrow> 'p connection worker \<Rightarrow> qso_store \<Rightarrow> bool" where
  "worker_sound pf cdc w st \<longleftrightarrow> fault_free (wk_sink w) \<and>
    journalled pf cdc (fst (wk_sink w)) (wk_buf w @ queued_ops (wk_queue w)) st \<and>
    (\<forall>e. wk_reply w \<noteq> Some (ReplyFlush (Inl e)))"

lemma sqlite_flush_free: "fault_free c \<Longrightarrow>
  \<exists>c'. sink_flush (sqlite_sink cdc) c = (Inr (), c') \<and> fst c' = fst c \<and> fault_free c'"
  by (rule with_conn_free [of c "\<lambda>flt _. sqlite_flush flt"])
    (auto simp: sqlite_sink_def sqlite_flush_def no_faults_def sql_try_def)

lemma sqlite_append_free:
  assumes "codec_ok cdc" "fault_free c" "journalled pf cdc (fst c) (ops @ rest) st" "ops \<noteq> []"
  shows "\<exists>c'. sink_append_ops (sqlite_sink cdc) ops c = (Inr (so_seq (last ops)), c') \<and>
    journalled pf cdc (fst c') rest st \<and> fault_free c'"
proof -
  obtain db' where "append_ops cdc no_faults ops (fst c) = (Inr (so_seq (last ops)), db')" "journalled pf cdc db' rest st"
    by (rule journalled_append [OF assms(1,3,4)])
  moreover obtain clk c' where
      "with_conn (\<lambda>flt _. append_ops cdc flt ops) c = (fst (append_ops cdc no_faults ops (fst c)), c')"
      "fst c' = snd (append_ops cdc no_faults ops (fst c))" "fault_free c'"
    by (rule with_conn_free [OF assms(2), of "\<lambda>flt _. append_ops cdc flt ops"])
  ultimately have "sink_append_ops (sqlite_sink cdc) ops c = (Inr (so_seq (last ops)), c')"
    "journalled pf cdc (fst c') rest st" "fault_free c'"
    by (simp_all add: sqlite_sink_def)
  then show ?thesis by blast
qed

lemma flush_sound:
  assumes cdc: "codec_ok cdc" and snd: "worker_sound pf cdc w st" and fl: "flush_buf fm (sqlite_sink cdc) cf w = (out, w')"
  shows "out = Inr () \<and> worker_sound pf cdc w' st"
proof (cases "wk_buf w = []")
  case True
  with fl snd sqlite_flush_free [of "wk_sink w" cdc] show ?thesis
    by (auto simp: flush_buf_def worker_sound_def split: if_splits)
next
  case False
  have free: "fault_free (wk_sink w)" and jn: "journalled pf cdc (fst (wk_sink w)) (wk_buf w @ queued_ops (wk_queue w)) st"
    using snd by (simp_all add: worker_sound_def)
  obtain c1 where c1: "sink_append_ops (sqlite_sink cdc) (wk_buf w) (wk_sink w) = (Inr (so_seq (last (wk_buf w))), c1)"
      "journalled pf cdc (fst c1) (queued_ops (wk_queue w)) st" "fault_free c1"
    using sqlite_append_free [OF cdc free jn False] by blast
  obtain c2 where c2: "sink_flush (sqlite_sink cdc) c1 = (Inr (), c2)" "fst c2 = fst c1" "fault_free c2"
    using sqlite_flush_free [OF c1(3)] by blast
  obtain s where s: "append_and_flush (sqlite_sink cdc) (wk_buf w) cf (wk_sink w) = (Inr (so_seq (last (wk_buf w))), s)"
      "journalled pf cdc (fst s) (queued_ops (wk_queue w)) st" "fault_free s"
    using c1 c2 by (cases cf) (auto simp: append_and_flush_def)
  define m where "m = max (wk_last_durable w) (so_seq (last (wk_buf w)))"
  have "flush_buf fm (sqlite_sink cdc) cf w
      = (Inr (), report (Inr m) (w\<lparr>wk_buf := [], wk_sink := s, wk_last_durable := m\<rparr>))"
    using False s(1) by (simp add: flush_buf_def Let_def m_def)
  with fl have "out = Inr ()" and w': "w' = report (Inr m) (w\<lparr>wk_buf := [], wk_sink := s, wk_last_durable := m\<rparr>)"
    by simp_all
  moreover have "worker_sound pf cdc w' st"
    using s(2,3) snd by (simp add: worker_sound_def w')
  ultimately show ?thesis by simp
qed

text \<open>The snapshot of a checkpoint message is the one of the store, which waits with the loop.\<close>

fun snap_current :: "qso_store \<Rightarrow> persist_msg \<Rightarrow> bool" where
  "snap_current st (MsgCheckpoint snap n c) \<longleftrightarrow> snap = export_snapshot st \<and> n = latest_op_seq st"
| "snap_current st _ \<longleftrightarrow> True"

lemma checkpoint_free:
  assumes cdc: "codec_ok cdc" and free: "fault_free c" and jn: "journalled pf cdc (fst c) [] st" and inv: "store_inv st"
  shows "journalled pf cdc (fst (snd (write_checkpoint (sqlite_sink cdc) (export_snapshot st) (latest_op_seq st) cp c))) [] st \<and>
    fault_free (snd (write_checkpoint (sqlite_sink cdc) (export_snapshot st) (latest_op_seq st) cp c))"
proof -
  obtain clk c1 where wr: "with_conn (\<lambda>flt clk. write_snapshot cdc flt clk (export_snapshot st) (latest_op_seq st)) c
        = (fst (write_snapshot cdc no_faults clk (export_snapshot st) (latest_op_seq st) (fst c)), c1)"
      "fst c1 = snd (write_snapshot cdc no_faults clk (export_snapshot st) (latest_op_seq st) (fst c))" "fault_free c1"
    by (rule with_conn_free [OF free])
  obtain rows where rows: "write_snapshot cdc no_faults clk (export_snapshot st) (latest_op_seq st) (fst c) = (Inr (), (fst c)\<lparr>db_snapshots := rows\<rparr>)"
      "journalled pf cdc ((fst c)\<lparr>db_snapshots := rows\<rparr>) [] st"
      "snd (compact_through no_faults (latest_op_seq st) ((fst c)\<lparr>db_snapshots := rows\<rparr>)) = (fst c)\<lparr>db_snapshots := rows, db_events := []\<rparr>"
      "journalled pf cdc ((fst c)\<lparr>db_snapshots := rows, db_events := []\<rparr>) [] st"
    by (rule journalled_snapshot [OF cdc jn inv])
  obtain clk2 c2 where cm: "with_conn (\<lambda>flt _. compact_through flt (latest_op_seq st)) c1
        = (fst (compact_through no_faults (latest_op_seq st) (fst c1)), c2)"
      "fst c2 = snd (compact_through no_faults (latest_op_seq st) (fst c1))" "fault_free c2"
    by (rule with_conn_free [OF wr(3), of "\<lambda>flt _. compact_through flt (latest_op_seq st)"])
  have "snd (write_checkpoint (sqlite_sink cdc) (export_snapshot st) (latest_op_seq st) cp c) = (if cp then c2 else c1)"
    using wr(1) cm(1) rows(1) by (simp add: write_checkpoint_def sqlite_sink_def split: sum.split)
  with wr cm rows show ?thesis by simp
qed

lemma worker_handle_sound:
  assumes cdc: "codec_ok cdc" and q: "wk_queue w = m # rest" and sd: "worker_sound pf cdc w st" and inv: "store_inv st"
    and snap: "snap_current st m" "\<And>s n c. m = MsgCheckpoint s n c \<Longrightarrow> queued_ops rest = []"
  shows "worker_sound pf cdc (worker_handle fm cfg (sqlite_sink cdc) m (w\<lparr>wk_queue := rest\<rparr>)) st"
proof (cases m)
  case (MsgOp so)
  let ?w = "w\<lparr>wk_queue := rest, wk_buf := wk_buf w @ [so]\<rparr>"
  have "worker_sound pf cdc ?w st" using sd q MsgOp by (simp add: worker_sound_def)
  with flush_sound [OF cdc this] show ?thesis
    by (cases "flush_buf fm (sqlite_sink cdc) True ?w") (simp add: MsgOp Let_def)
next
  case MsgFlush
  obtain out w1 where fl: "flush_buf fm (sqlite_sink cdc) True (w\<lparr>wk_queue := rest\<rparr>) = (out, w1)" by fastforce
  have "worker_sound pf cdc (w\<lparr>wk_queue := rest\<rparr>) st" using sd q MsgFlush by (simp add: worker_sound_def)
  from flush_sound [OF cdc this fl] MsgFlush fl show ?thesis
    by (simp add: worker_sound_def)
next
  case (MsgCheckpoint s n c)
  obtain out w1 where fl: "flush_buf fm (sqlite_sink cdc) True (w\<lparr>wk_queue := rest\<rparr>) = (out, w1)" by fastforce
  have "worker_sound pf cdc (w\<lparr>wk_queue := rest\<rparr>) st" using sd q MsgCheckpoint by (simp add: worker_sound_def)
  from flush_sound [OF cdc this fl] have out: "out = Inr ()" and w1: "worker_sound pf cdc w1 st" by simp_all
  have "wk_buf w1 @ queued_ops (wk_queue w1) = []"
    using flush_buf_wiring [OF fl] snap(2) [OF MsgCheckpoint] by (simp add: same_wiring_def)
  with w1 have "fault_free (wk_sink w1)" "journalled pf cdc (fst (wk_sink w1)) [] st"
    by (simp_all add: worker_sound_def)
  moreover obtain out' c' where wr: "write_checkpoint (sqlite_sink cdc) s n c (wk_sink w1) = (out', c')" by (metis surj_pair)
  ultimately have "journalled pf cdc (fst c') [] st" "fault_free c'"
    using checkpoint_free [OF cdc _ _ inv, of "wk_sink w1" pf c] snap(1) MsgCheckpoint by simp_all
  with fl out wr \<open>wk_buf w1 @ queued_ops (wk_queue w1) = []\<close> show ?thesis
    by (simp add: MsgCheckpoint worker_sound_def)
next
  case MsgShutdown
  have "worker_sound pf cdc (w\<lparr>wk_queue := rest\<rparr>) st" using sd q MsgShutdown by (simp add: worker_sound_def)
  with flush_sound [OF cdc this] show ?thesis
    by (cases "flush_buf fm (sqlite_sink cdc) True (w\<lparr>wk_queue := rest\<rparr>)") (simp add: MsgShutdown worker_sound_def)
qed


subsection \<open>What loading gives\<close>

lemma apply_replayed_op_clock: "apply_replayed_op pf clk so st = apply_replayed_op pf clk' so st"
  by (cases "so_op so")
    (simp_all add: apply_replayed_op_def apply_insert_with_seq_def apply_patch_with_seq_def
      apply_void_with_seq_def Let_def split: option.split)

lemma replay_all_clock: "replay_all pf clk js st = replay_all pf clk' js st"
proof (induction js arbitrary: clk clk' st)
  case (Cons so js)
  have "apply_replayed_op pf (clk 0) so st = apply_replayed_op pf (clk' 0) so st"
    by (rule apply_replayed_op_clock)
  moreover have "replay_all pf (\<lambda>n. clk (Suc n)) js = replay_all pf (\<lambda>n. clk' (Suc n)) js"
    by (rule ext) (rule Cons.IH)
  ultimately show ?case by simp
qed simp

text \<open>What a replayed operation does, whatever it is.\<close>

lemma replay_step:
  assumes "apply_replayed_op pf clk so st = Ok () st1" "store_wf st"
  shows "store_wf st1 \<and> log_apply (so_op so) (log_of st) = Some (log_of st1) \<and> undo st1 = [] \<and> redo st1 = [] \<and>
    pending_ops st1 = pending_ops st \<and> next_op_seq st1 = max (next_op_seq st) (saturating_add (so_seq so) 1) \<and>
    next_qso_id st1 = op_next_id (so_op so) (next_qso_id st)"
proof (cases "log_apply (so_op so) (log_of st)")
  case None
  with assms show ?thesis by (simp add: apply_replayed_op_seq apply_with_seq_None)
next
  case (Some L)
  then obtain x st' where "apply_with_seq pf clk (so_op so) (so_seq so) st = Ok x st'"
      "refined_store st (so_seq so) (so_op so) L st'"
    using apply_with_seq_Some [OF assms(2)] by blast
  with assms(1) Some show ?thesis
    by (auto simp: apply_replayed_op_seq refined_store_def log_of_def)
qed

lemma op_next_id_ge: "n \<le> op_next_id op n"
  by (cases op) simp_all

lemma replay_grows:
  "replay_all pf clk js st = Ok () rs \<Longrightarrow> store_wf st \<Longrightarrow>
    store_wf rs \<and> next_op_seq st \<le> next_op_seq rs \<and> next_qso_id st \<le> next_qso_id rs \<and>
    log_ids (log_of st) \<subseteq> log_ids (log_of rs)"
proof (induction js arbitrary: clk st)
  case (Cons so js)
  then obtain st1 where st1: "apply_replayed_op pf (clk 0) so st = Ok () st1"
      "replay_all pf (\<lambda>n. clk (Suc n)) js st1 = Ok () rs"
    by (auto simp: and_then_Ok_iff)
  note step = replay_step [OF st1(1) Cons.prems(2)]
  have "log_ids (log_of st1) = (case so_op so of OpInsert r \<Rightarrow> insert (qr_id r) (log_ids (log_of st)) | _ \<Rightarrow> log_ids (log_of st))"
    using step by (intro log_apply_ids) simp
  then have "log_ids (log_of st) \<subseteq> log_ids (log_of st1)" by (cases "so_op so") auto
  moreover have "next_op_seq st \<le> next_op_seq st1" "next_qso_id st \<le> next_qso_id st1"
    using step op_next_id_ge [of "next_qso_id st" "so_op so"] by simp_all
  ultimately show ?case
    using Cons.IH [OF st1(2)] step by (meson order_trans)
qed simp

lemma small_not_max: "n < (2 ^ 63 :: u64) \<Longrightarrow> n \<noteq> u64_max"
  by (auto simp: word_less_nat_alt unsigned_minus_1_eq_mask mask_eq_exp_minus_1)

lemma saturating_less: "n \<noteq> u64_max \<Longrightarrow> saturating_add n 1 \<le> m \<Longrightarrow> n < m"
  by (simp add: saturating_succ succ_le_iff)

lemma replay_inv:
  "replay_all pf clk js st = Ok () rs \<Longrightarrow> replica st st \<Longrightarrow> ids_below st \<Longrightarrow>
    \<forall>i \<in> log_ids (log_of rs). i \<noteq> u64_max \<Longrightarrow> \<forall>so \<in> set js. so_seq so \<noteq> u64_max \<Longrightarrow>
    replica rs rs \<and> ids_below rs \<and> (\<forall>so \<in> set js. so_seq so < next_op_seq rs)"
proof (induction js arbitrary: clk st)
  case (Cons so js)
  then obtain st1 where st1: "apply_replayed_op pf (clk 0) so st = Ok () st1"
      "replay_all pf (\<lambda>n. clk (Suc n)) js st1 = Ok () rs"
    by (auto simp: and_then_Ok_iff)
  have wf: "store_wf st" using Cons.prems(2) by (simp add: replica_def)
  note step = replay_step [OF st1(1) wf]
  have grows: "next_op_seq st1 \<le> next_op_seq rs" "log_ids (log_of st1) \<subseteq> log_ids (log_of rs)"
    using replay_grows [OF st1(2)] step by simp_all
  have "saturating_add (so_seq so) 1 \<le> next_op_seq rs"
    using step grows(1) by (auto intro: order_trans)
  then have so: "so_seq so < next_op_seq rs" using Cons.prems(5) saturating_less by simp
  have "i < next_qso_id st1" if i: "i \<in> log_ids (log_of st1)" for i
  proof (cases "i \<in> log_ids (log_of st)")
    case True
    then have "i < next_qso_id st" using Cons.prems(3) wf by (simp add: ids_below_log)
    with step op_next_id_ge [of "next_qso_id st" "so_op so"] show ?thesis by simp
  next
    case False
    with i step obtain r where "so_op so = OpInsert r" "i = qr_id r"
      using log_apply_ids [of "so_op so" "log_of st" "log_of st1"] by (auto split: op.splits)
    moreover have "i \<noteq> u64_max" using i grows(2) Cons.prems(4) by blast
    ultimately show ?thesis using step by (intro saturating_less) simp_all
  qed
  then have "ids_below st1" using step by (simp add: ids_below_log)
  moreover have "replica st1 st1" using step Cons.prems(2) by (simp add: replica_def)
  ultimately show ?case
    using Cons.IH [OF st1(2)] Cons.prems(4,5) so by simp
qed simp

text \<open>The loaded store is again one that the database rebuilds, with nothing in flight: the next
  session can go on from it.\<close>

lemma journalled_loads:
  assumes cdc: "codec_ok cdc" and jn: "journalled pf cdc db ops st" and inv: "store_inv st"
  obtains rs rs' where "\<forall>clk. load_store pf clk cdc no_faults no_faults db = Some (Inr rs)"
    "\<forall>clk. replay_all pf clk ops rs = Ok () rs'" "replica st rs'"
    "journalled pf cdc db [] rs" "store_inv rs" "next_op_seq rs \<le> next_op_seq st" "next_qso_id rs \<le> next_qso_id st"
proof -
  obtain st0 old js where jf: "journal_from cdc db st0 old js ops"
    and st0: "next_op_seq st0 \<le> next_op_seq st" "next_op_seq st < 2 ^ 63"
    and rb: "rebuilds pf st0 (js @ ops) st"
    using jn by (auto simp: journalled_def)
  obtain osnap where snap: "load_latest_snapshot cdc no_faults db = Inr osnap"
        "(case osnap of Some snap \<Rightarrow> from_snapshot snap | None \<Rightarrow> Inr new_store) = Inr st0"
    and start: "meta_current (db_meta db)" "replica st0 st0" "ids_below st0" "0 < next_op_seq st0"
    and rows: "db_events db = map (entry_row cdc) (old @ js)" "journal_ok (old @ js @ ops)"
    and seqs: "\<forall>so \<in> set old. so_seq so < next_op_seq st0" "\<forall>so \<in> set js. next_op_seq st0 \<le> so_seq so"
    using jf by (auto simp: journal_from_def)
  have ok: "journal_ok (old @ js)" using rows(2) journal_ok_append [of "old @ js" ops] by simp
  obtain rs' where rs': "replay_all pf (\<lambda>_. 0) (js @ ops) st0 = Ok () rs'" "replica st rs'"
    using rb by (auto simp: rebuilds_def)
  then obtain rs where rs: "replay_all pf (\<lambda>_. 0) js st0 = Ok () rs" "replay_all pf (\<lambda>_. 0) ops rs = Ok () rs'"
    by (auto simp: replay_all_append and_then_Ok_iff)
  have load: "load_store pf clk cdc no_faults no_faults db = Some (Inr rs)" for clk
    using load_store_replay [OF cdc ok rows(1) snap(2,1) start(4) _ seqs] st0 rs(1)
      replay_all_clock [of pf clk js st0 "\<lambda>_. 0"] by simp
  have wf: "store_wf st0" using start(2) by (simp add: replica_def)
  note grows0 = replay_grows [OF rs(1) wf]
  then have grows: "next_op_seq rs \<le> next_op_seq rs'" "next_qso_id rs \<le> next_qso_id rs'"
      "log_ids (log_of rs) \<subseteq> log_ids (log_of rs')"
    using replay_grows [OF rs(2)] by simp_all
  have le: "next_op_seq rs \<le> next_op_seq st" "next_qso_id rs \<le> next_qso_id st"
    using grows rs'(2) by (auto simp: replica_def)
  have "\<forall>i \<in> log_ids (log_of rs). i < next_qso_id st"
    using grows(3) rs'(2) inv by (auto simp: replica_def store_inv_def ids_below_log)
  then have "\<forall>i \<in> log_ids (log_of rs). i \<noteq> u64_max" by (metis word_order.extremum_strict)
  moreover have "\<forall>so \<in> set js. so_seq so \<noteq> u64_max" using ok small_not_max by (simp add: journal_ok_def)
  ultimately have rs_inv: "replica rs rs" "ids_below rs" "\<forall>so \<in> set js. so_seq so < next_op_seq rs"
    using replay_inv [OF rs(1) start(2,3)] by simp_all
  have "journal_from cdc db st0 old js []"
    using snap start rows(1) ok seqs by (simp add: journal_from_def)
  moreover have "rebuilds pf st0 (js @ []) rs"
    using rs(1) rs_inv(1) replay_all_clock [of pf _ js st0 "\<lambda>_. 0"] by (simp add: rebuilds_def)
  moreover have "\<forall>so \<in> set (old @ js @ []). so_seq so < next_op_seq rs"
    using rs_inv(3) seqs(1) grows0 by (auto intro: order.strict_trans2)
  moreover have "next_op_seq rs < 2 ^ 63" using le(1) st0(2) by simp
  ultimately have "journalled pf cdc db [] rs"
    using grows0 unfolding journalled_def by blast
  moreover have "store_inv rs"
    using rs_inv grows0 by (simp add: store_inv_def replica_def no_inserts_def)
  moreover have "replay_all pf clk ops rs = Ok () rs'" for clk
    using rs(2) replay_all_clock [of pf clk ops rs "\<lambda>_. 0"] by simp
  ultimately show thesis using that load rs'(2) le by blast
qed

end
