(* ===== verification/Qso_Restart_Run.thy ===== *)
theory Qso_Restart_Run
  imports Qso_Restart
begin

section \<open>Restart after any run\<close>

text \<open>
  The invariant of \<^verbatim>\<open>Qso_Restart\<close>, kept by every step of loop and worker. A rejected undo, redo,
  patch or void is left out: the rollback of a second rejected undo can change the data, see
  \<open>rejected_undos_corrupt_record\<close>. So the statements are about runs in which no client got
  \<open>PersistQueueFull\<close> from one of them; rejected inserts are covered.
\<close>


subsection \<open>Responses are only added\<close>

definition full_queue_seen :: "'s runtime \<Rightarrow> bool" where
  "full_queue_seen rt \<longleftrightarrow> RespUnit (Inl PersistQueueFull) \<in> set (rt_responses rt)"

lemma goes_on_seen: "goes_on cmd rt rt' \<Longrightarrow> full_queue_seen rt \<Longrightarrow> full_queue_seen rt'"
  by (auto simp: goes_on_def answered_def full_queue_seen_def)

text \<open>Whatever the loop waits for, some command waits for it.\<close>

lemma wait_fits_some: "\<exists>cmd. wait_fits cmd wt"
proof -
  have "\<exists>cmd. takes cmd resp" for resp
    by (cases resp) (use takes_simps in blast)+
  moreover have "\<exists>cmd. takes cmd (announce_response ann) \<and> (\<forall>e. takes cmd (announce_error ann e))" for ann
    by (cases ann) (simp_all, (use takes_simps in blast)+)
  ultimately show ?thesis by (cases wt) auto
qed

lemma step_seen:
  assumes "rt_step pf fm cfg sink rt rt'" "full_queue_seen rt"
  shows "full_queue_seen rt'"
  using assms(1)
proof (cases rule: rt_step.cases)
  case (command clk cmd)
  from goes_on_command [OF command(2)] assms(2) show ?thesis by (rule goes_on_seen)
next
  case progress
  then obtain wt where "waiting_for (rt_ctl rt) = Some wt"
    by (cases "rt_ctl rt") (auto simp: idle_no_progress)
  then obtain cmd where "serves cmd (rt_ctl rt)"
    using wait_fits_some by (auto simp: serves_def)
  from goes_on_progress [OF progress this] assms(2) show ?thesis by (rule goes_on_seen)
next
  case durable
  then show ?thesis
    by (rule loop_durable_cases)
      (use assms(2) in \<open>auto simp: full_queue_seen_def handle_durable_def split: sum.split\<close>)
qed (use assms(2) in \<open>simp_all add: full_queue_seen_def\<close>)


subsection \<open>What a mutation does to store and worker\<close>

text \<open>Either the data is as before and nothing was queued; or the operation is in the queue and
  the store has its effect; or the queue was full.\<close>

lemma rejected_insert_same:
  assumes "store_inv st" "has_room st" "run_cmd pf clk (CmdInsert d) st = Ok so st1"
  shows "\<exists>st2. rollback_mutation pf (take_checkpoint st) so (clear_pending_ops st1) = Ok () st2 \<and>
    same_data st st2 \<and> next_op_seq st2 = next_op_seq st"
  using rollback_plain_cmd [OF assms(1,2) _ _ assms(3)] by (simp add: same_data_def log_of_def)

lemma accepted_snapshot:
  "rt_ctl (mutation_accepted cfg ann rt) = Sending m wt \<Longrightarrow> snap_current (rt_store rt) m"
  by (auto simp: mutation_accepted_def maybe_auto_checkpoint_def Let_def split: announce.splits if_splits)

lemma persist_after_restart:
  assumes run: "persist_after_mutation pf fm cfg ann cp so rt = Some rt'"
    and w: "rt_worker rt = Some w" "wk_running w"
  obtains (queued) "rt_worker rt' = Some (pushed so w)" "rt_store rt' = rt_store rt"
      "\<And>m wt. rt_ctl rt' = Sending m wt \<Longrightarrow> snap_current (rt_store rt') m"
    | (full) rt1 where "mutation_rejected pf ann cp so PersistQueueFull rt1 = Some rt'"
      "rt_worker rt1 = Some w" "rt_store rt1 = rt_store rt"
proof (cases "enqueue_persist cfg so w")
  case (Inl e)
  then have "e = PersistQueueFull" using w(2) by (auto simp: enqueue_persist_def split: if_splits)
  with Inl run w(1) full [of "mark_persist_unhealthy (debug_runtime_error fm e) rt"] show thesis
    by (simp add: persist_after_mutation_def)
next
  case (Inr w1)
  then have w1: "w1 = pushed so w" by (auto simp: enqueue_persist_ok pushed_def)
  show thesis
  proof (cases "cfg_ack_mode cfg = Durable")
    case True
    with Inr run w(1) w1 queued show thesis
      by (auto simp: persist_after_mutation_def Let_def)
  next
    case False
    then obtain rt1 where "rt' = mutation_accepted cfg ann rt1" "rt_worker rt1 = Some w1" "rt_store rt1 = rt_store rt"
      using Inr run w(1) by (auto simp: persist_after_mutation_def Let_def split: if_splits)
    with w1 accepted_cases [of cfg ann rt1] accepted_snapshot [of cfg ann rt1] show thesis
      by (intro queued) auto
  qed
qed

lemma handle_mutation_restart:
  assumes run: "handle_mutation pf fm cfg clk cmd rt = Some rt'"
    and w: "rt_worker rt = Some w" "wk_running w" and st: "store_inv (rt_store rt)" "has_room (rt_store rt)"
  obtains (same) "rt_worker rt' = Some w" "rt_ctl rt' = Idle" "same_data (rt_store rt) (rt_store rt')"
      "next_op_seq (rt_store rt') \<in> {next_op_seq (rt_store rt), next_op_seq (rt_store rt) + 1}"
    | (accepted) so st1 op where "cmd_op (cmd_of cmd) (rt_store rt) = Some op"
      "cmd_effect (cmd_of cmd) op so (rt_store rt) st1" "rt_worker rt' = Some (pushed so w)"
      "rt_store rt' = clear_pending_ops st1" "\<And>m wt. rt_ctl rt' = Sending m wt \<Longrightarrow> snap_current (rt_store rt') m"
    | (full) "full_queue_seen rt'"
proof (cases "ensure_mutation_allowed (cfg_ack_mode cfg) (rt_health rt)")
  case (Inl e)
  with run w(1) same show thesis by (auto simp: handle_mutation_def same_data_def)
next
  case (Inr u)
  from run_mutation_cases [OF st, of pf clk cmd] show thesis
  proof cases
    case (2 e st1)
    then have "rt' = respond (command_error cmd (RtStore e)) (rt\<lparr>rt_store := st1\<rparr>)"
      using run Inr by (simp add: handle_mutation_def Let_def)
    with 2(2) w(1) st(2) less_succ [of "next_op_seq (rt_store rt)"] same show thesis
      by (auto simp: cmd_failure_def same_data_def has_room_def)
  next
    case (1 ann so st1 op)
    note mut = this
    then have run': "persist_after_mutation pf fm cfg ann (take_checkpoint (rt_store rt)) so
        (rt\<lparr>rt_store := clear_pending_ops st1\<rparr>) = Some rt'"
      using run Inr by (simp add: handle_mutation_def Let_def)
    have w': "rt_worker (rt\<lparr>rt_store := clear_pending_ops st1\<rparr>) = Some w" using w(1) by simp
    from persist_after_restart [OF run' w' w(2)] show thesis
    proof cases
      case 1
      with mut accepted show thesis by simp
    next
      case (2 rt1)
      show thesis
      proof (cases "\<exists>d. cmd = CInsert d")
        case False
        then have "announce_error ann e = RespUnit (Inl e)" for e
          using mut(1) by (cases cmd) (auto simp: run_mutation_def and_then_Ok_iff)
        moreover obtain st2 where "rollback_mutation pf (take_checkpoint (rt_store rt)) so (clear_pending_ops st1) = Ok () st2"
          using rollback_inv [OF st(1) mut(3)] by blast
        ultimately have "full_queue_seen rt'"
          using 2 by (auto simp: mutation_rejected_def full_queue_seen_def)
        then show thesis by (rule that(3))
      next
        case True
        then obtain d where "cmd = CInsert d" ..
        then have "run_cmd pf clk (CmdInsert d) (rt_store rt) = Ok so st1"
          using mut(1) run_mutation_cmd [of pf clk cmd] by simp
        from rejected_insert_same [OF st this] 2 same show thesis
          by (auto simp: mutation_rejected_def)
      qed
    qed
  qed
qed


subsection \<open>The invariant\<close>

text \<open>The sequence numbers stay below 2^63 for \<open>k\<close> more steps.\<close>

definition seqs_below :: "nat \<Rightarrow> qso_store \<Rightarrow> bool" where
  "seqs_below k st \<longleftrightarrow> unat (next_op_seq st) + k < 2 ^ 63"

lemma seqs_below_small: "seqs_below k st \<Longrightarrow> next_op_seq st < 2 ^ 63"
  by (simp add: seqs_below_def word_less_nat_alt)

lemma seqs_below_succ:
  "seqs_below (Suc k) st \<Longrightarrow> next_op_seq st' \<in> {next_op_seq st, next_op_seq st + 1} \<Longrightarrow> seqs_below k st'"
proof -
  assume a: "seqs_below (Suc k) st" "next_op_seq st' \<in> {next_op_seq st, next_op_seq st + 1}"
  have "unat (next_op_seq st + 1) \<le> unat (next_op_seq st) + 1" by (simp add: unat_word_ariths)
  with a show "seqs_below k st'" by (auto simp: seqs_below_def)
qed

definition restart_ok :: "profile \<Rightarrow> 'p codec \<Rightarrow> nat \<Rightarrow> 'p connection runtime \<Rightarrow> bool" where
  "restart_ok pf cdc k rt \<longleftrightarrow> (\<forall>w. rt_worker rt = Some w \<longrightarrow>
    worker_sound pf cdc w (rt_store rt) \<and> seqs_below k (rt_store rt) \<and>
    list_all (snap_current (rt_store rt)) (wk_queue w) \<and>
    (\<forall>m wt. rt_ctl rt = Sending m wt \<longrightarrow> snap_current (rt_store rt) m))"

lemma snap_current_ops: "ops_only q \<Longrightarrow> list_all (snap_current st) q"
  by (auto simp: ops_only_def list_all_iff)

lemma worker_sound_frame:
  "wk_sink w' = wk_sink w \<Longrightarrow> wk_buf w' = wk_buf w \<Longrightarrow> queued_ops (wk_queue w') = queued_ops (wk_queue w) \<Longrightarrow>
    wk_reply w' \<in> {wk_reply w, None} \<Longrightarrow> worker_sound pf cdc w st \<Longrightarrow> worker_sound pf cdc w' st"
  by (auto simp: worker_sound_def)

lemma worker_sound_same:
  "worker_sound pf cdc w st \<Longrightarrow> same_data st st' \<Longrightarrow> next_op_seq st' < 2 ^ 63 \<Longrightarrow> worker_sound pf cdc w st'"
  by (auto simp: worker_sound_def intro: journalled_same)

lemma same_data_clear: "same_data st (clear_pending_ops st)"
  by (simp add: same_data_def clear_pending_ops_def log_of_def)

lemma worker_sound_pushed:
  assumes "worker_sound pf cdc w st" "cmd_effect cmd op so st st1" "store_inv st" "has_room st" "cmd_op cmd st = Some op"
    and "next_op_seq st1 < 2 ^ 63"
  shows "worker_sound pf cdc (pushed so w) (clear_pending_ops st1)"
proof -
  have "journalled pf cdc (fst (wk_sink w)) ((wk_buf w @ queued_ops (wk_queue w)) @ [so]) st1"
    by (rule journalled_accept [OF _ assms(2-6)]) (use assms(1) in \<open>simp add: worker_sound_def\<close>)
  from journalled_same [OF this same_data_clear] assms(1,6) show ?thesis
    by (simp add: worker_sound_def pushed_def)
qed

text \<open>Taking a command.\<close>

lemma idle_worker:
  assumes "rt_protocol rt" "rt_ctl rt = Idle" "rt_worker rt = Some w"
  shows "wk_running w" "ops_only (wk_queue w)"
  using assms by (auto simp: rt_protocol_def protocol_def split: if_splits)

lemma mutation_restart_ok:
  assumes run: "handle_mutation pf fm cfg clk cmd rt = Some rt'" and ok: "restart_ok pf cdc (Suc k) rt"
    and pr: "rt_protocol rt" "rt_ctl rt = Idle" and st: "store_inv (rt_store rt)" "has_room (rt_store rt)"
    and unseen: "\<not> full_queue_seen rt'"
  shows "restart_ok pf cdc k rt'"
proof (cases "rt_worker rt")
  case None
  then have "rt_worker rt' = None" by (rule_tac handle_mutation_cases [OF run]) simp_all
  then show ?thesis by (simp add: restart_ok_def)
next
  case (Some w)
  note idle = idle_worker [OF pr Some]
  have snd: "worker_sound pf cdc w (rt_store rt)" and below: "seqs_below (Suc k) (rt_store rt)"
    using ok Some by (simp_all add: restart_ok_def)
  from handle_mutation_restart [OF run Some idle(1) st] show ?thesis
  proof cases
    case 1
    from seqs_below_succ [OF below 1(4)] have b: "seqs_below k (rt_store rt')" .
    with worker_sound_same [OF snd 1(3) seqs_below_small [OF b]] 1 snap_current_ops [OF idle(2)] show ?thesis
      by (simp add: restart_ok_def)
  next
    case (2 so st1 op)
    have b: "seqs_below k st1"
      by (rule seqs_below_succ [OF below]) (use cmd_effect_counters [OF 2(2)] in simp)
    have "worker_sound pf cdc (pushed so w) (clear_pending_ops st1)"
      by (rule worker_sound_pushed [OF snd 2(2) st 2(1) seqs_below_small [OF b]])
    moreover have "ops_only (wk_queue (pushed so w))" using idle(2) by (simp add: pushed_def)
    ultimately show ?thesis
      using 2(3-5) b snap_current_ops by (simp add: restart_ok_def seqs_below_def)
  next
    case 3
    with unseen show ?thesis by simp
  qed
qed

text \<open>Every other command leaves store and worker alone.\<close>

lemma restart_weaken: "restart_ok pf cdc (Suc k) rt \<Longrightarrow> restart_ok pf cdc k rt"
  by (auto simp: restart_ok_def seqs_below_def)

lemma restart_frame:
  assumes "restart_ok pf cdc (Suc k) rt" "rt_worker rt' = rt_worker rt" "rt_store rt' = rt_store rt"
    and "\<And>m wt. rt_ctl rt' = Sending m wt \<Longrightarrow> snap_current (rt_store rt) m"
  shows "restart_ok pf cdc k rt'"
  using restart_weaken [OF assms(1)] assms(2-) by (simp add: restart_ok_def)

lemma command_restart_ok:
  assumes run: "handle_command pf fm cfg clk cmd rt = Some rt'" and ok: "restart_ok pf cdc (Suc k) rt"
    and pr: "rt_protocol rt" "rt_ctl rt = Idle" and st: "store_inv (rt_store rt)" "has_room (rt_store rt)"
    and unseen: "\<not> full_queue_seen rt'"
  shows "restart_ok pf cdc k rt'"
proof (cases "handle_mutation pf fm cfg clk cmd rt = Some rt'")
  case True
  from mutation_restart_ok [OF this ok pr st unseen] show ?thesis .
next
  case False
  with run have "rt_worker rt' = rt_worker rt \<and> rt_store rt' = rt_store rt \<and>
      (\<forall>m wt. rt_ctl rt' = Sending m wt \<longrightarrow> snap_current (rt_store rt) m)"
    by (cases cmd) (auto simp: handle_command_def split: option.splits)
  with restart_frame [OF ok] show ?thesis by blast
qed

text \<open>The loop goes on. No mutation is rejected: a flush does not fail, and the worker is there.\<close>

lemma restart_worker:
  assumes "restart_ok pf cdc (Suc k) rt" "rt_worker rt = Some w" "rt_worker rt' = Some w'" "rt_store rt' = rt_store rt"
    and "worker_sound pf cdc w (rt_store rt) \<Longrightarrow> worker_sound pf cdc w' (rt_store rt)"
    and "\<And>m. m \<in> set (wk_queue w') \<Longrightarrow> m \<in> set (wk_queue w) \<or> snap_current (rt_store rt) m"
    and "\<And>m wt. rt_ctl rt' = Sending m wt \<Longrightarrow> rt_ctl rt = Sending m wt \<or> snap_current (rt_store rt) m"
  shows "restart_ok pf cdc k rt'"
  using restart_weaken [OF assms(1)] assms(2-) by (fastforce simp: restart_ok_def list_all_iff)

lemma resume_snapshot:
  assumes "resume pf fm cfg wt (Some rep) rt = Some rt'" "reply_for wt rep" "\<And>e. rep \<noteq> ReplyFlush (Inl e)"
  shows "rt_store rt' = rt_store rt \<and> (\<forall>m wt. rt_ctl rt' = Sending m wt \<longrightarrow> snap_current (rt_store rt) m)"
  using assms accepted_snapshot accepted_cases(2)
  by (cases "(pf, fm, cfg, wt, Some rep, rt)" rule: resume.cases) (auto; blast)+

lemma progress_restart_ok:
  assumes run: "loop_progress pf fm cfg rt = Some (Some rt')" and ok: "restart_ok pf cdc (Suc k) rt"
    and pr: "rt_protocol rt"
  shows "restart_ok pf cdc k rt'"
proof -
  obtain w where w: "rt_worker rt = Some w" and prw: "protocol (rt_ctl rt) w"
    using run pr by (auto simp: loop_progress_def rt_protocol_def split: option.splits)
  have snd: "worker_sound pf cdc w (rt_store rt)" using ok w by (simp add: restart_ok_def)
  show ?thesis
  proof (cases "rt_ctl rt")
    case (Sending m wt)
    then have "wk_running w" and m: "msg_for wt m" using prw by (auto simp: protocol_def split: if_splits)
    then have rt': "rt' = rt\<lparr>rt_worker := Some (w\<lparr>wk_queue := wk_queue w @ [m], wk_reply := None\<rparr>), rt_ctl := Awaiting wt\<rparr>"
      using run w Sending by (auto simp: loop_progress_def split: if_splits)
    have no_op: "queued_ops [m] = []" using m by (cases "(wt, m)" rule: msg_for.cases) auto
    have "snap_current (rt_store rt) m" using ok w Sending by (simp add: restart_ok_def)
    moreover have "worker_sound pf cdc (w\<lparr>wk_queue := wk_queue w @ [m], wk_reply := None\<rparr>) (rt_store rt)"
      by (intro worker_sound_frame [OF _ _ _ _ snd]) (simp_all add: no_op)
    ultimately show ?thesis
      by (intro restart_worker [OF ok w, of rt']) (auto simp: rt')
  next
    case (Awaiting wt)
    then obtain rep where rep: "wk_reply w = Some rep" "reply_for wt rep"
      and res: "resume pf fm cfg wt (Some rep) (rt\<lparr>rt_worker := Some (w\<lparr>wk_reply := None\<rparr>)\<rparr>) = Some rt'"
      using prw run w by (auto simp: loop_progress_def protocol_def split: option.splits if_splits)
    have "rep \<noteq> ReplyFlush (Inl e)" for e using snd rep(1) by (simp add: worker_sound_def)
    note sel = resume_snapshot [OF res rep(2) this]
    have "worker_sound pf cdc (w\<lparr>wk_reply := None\<rparr>) (rt_store rt)"
      by (intro worker_sound_frame [OF _ _ _ _ snd]) simp_all
    moreover have "rt_worker rt' = Some (w\<lparr>wk_reply := None\<rparr>)" using resume_worker [OF res] by simp
    ultimately show ?thesis
      using sel by (intro restart_worker [OF ok w]) auto
  qed (use run in \<open>simp_all add: idle_no_progress\<close>)
qed


text \<open>The worker receives, its timer fires, or its queue closes.\<close>

lemma recv_restart_ok:
  assumes cdc: "codec_ok cdc" and ok: "restart_ok pf cdc (Suc k) rt" and pr: "rt_protocol rt" and inv: "store_inv (rt_store rt)"
    and w: "rt_worker rt = Some w" and recv: "worker_recv fm cfg (sqlite_sink cdc) w = Some w'"
  shows "restart_ok pf cdc k (rt\<lparr>rt_worker := Some w'\<rparr>)"
proof -
  obtain m rest where run: "wk_running w" and q: "wk_queue w = m # rest"
    and w': "w' = worker_handle fm cfg (sqlite_sink cdc) m (w\<lparr>wk_queue := rest\<rparr>)"
    using recv by (auto simp: worker_recv_def split: if_splits list.splits)
  have snd: "worker_sound pf cdc w (rt_store rt)" and snap: "snap_current (rt_store rt) m"
    using ok w q by (simp_all add: restart_ok_def)
  have "queued_ops rest = []" if "m = MsgCheckpoint s n c" for s n c
    using pr w run q that
    by (auto simp: rt_protocol_def protocol_def Cons_eq_append_conv split: ctl.splits option.splits)
  then have "worker_sound pf cdc w' (rt_store rt)"
    unfolding w' by (rule worker_handle_sound [OF cdc q snd inv snap])
  moreover have "wk_queue w' = rest" by (simp add: w' worker_handle_wiring(1) [OF refl])
  ultimately show ?thesis
    using q by (intro restart_worker [OF ok w]) auto
qed

lemma flushed_restart_ok:
  assumes cdc: "codec_ok cdc" and ok: "restart_ok pf cdc (Suc k) rt" and w: "rt_worker rt = Some w"
    and w': "w' = snd (flush_buf fm (sqlite_sink cdc) cf w) \<or> w' = (snd (flush_buf fm (sqlite_sink cdc) cf w))\<lparr>wk_running := b\<rparr>"
  shows "restart_ok pf cdc k (rt\<lparr>rt_worker := Some w'\<rparr>)"
proof -
  obtain out v where fl: "flush_buf fm (sqlite_sink cdc) cf w = (out, v)" by fastforce
  have "worker_sound pf cdc w (rt_store rt)" using ok w by (simp add: restart_ok_def)
  from flush_sound [OF cdc this fl] have "worker_sound pf cdc v (rt_store rt)" by simp
  then have "worker_sound pf cdc w' (rt_store rt)" using w' by (auto simp: fl worker_sound_def)
  moreover have "wk_queue w' = wk_queue w"
    using w' flush_buf_wiring [OF fl] by (auto simp: fl same_wiring_def)
  ultimately show ?thesis
    by (intro restart_worker [OF ok w]) auto
qed

lemma step_restart_ok:
  assumes cdc: "codec_ok cdc" and ok: "restart_ok pf cdc (Suc k) rt" and pr: "rt_protocol rt"
    and st: "rt_store_ok (Suc j) rt" and step: "rt_step pf fm cfg (sqlite_sink cdc) rt rt'"
    and unseen: "\<not> full_queue_seen rt'"
  shows "restart_ok pf cdc k rt'"
proof -
  have inv: "store_inv (rt_store rt)" "has_room (rt_store rt)"
    using st room_for_Suc by (auto simp: rt_store_ok_def)
  from step show ?thesis
  proof (cases rule: rt_step.cases)
    case (command clk cmd)
    from command_restart_ok [OF command(2) ok pr command(1) inv unseen] show ?thesis .
  next
    case progress
    from progress_restart_ok [OF this ok pr] show ?thesis .
  next
    case durable
    then show ?thesis
    proof (cases rule: loop_durable_cases)
      case (1 w msg rest)
      have "worker_sound pf cdc w (rt_store rt) \<Longrightarrow> worker_sound pf cdc (w\<lparr>wk_durable := rest\<rparr>) (rt_store rt)"
        by (rule worker_sound_frame) simp_all
      with 1 show ?thesis
        by (intro restart_worker [OF ok 1(1)]) (auto simp: handle_durable_sel)
    qed
  next
    case (recv w w')
    from recv_restart_ok [OF cdc ok pr inv(1) recv(2,3)] recv(1) show ?thesis by simp
  next
    case (tick w w')
    with flushed_restart_ok [OF cdc ok tick(2), of _ fm False] show ?thesis
      by (auto simp: worker_tick_def split: if_splits)
  next
    case drop
    with restart_frame [OF ok, of rt'] show ?thesis by simp
  next
    case (closed w w')
    with flushed_restart_ok [OF cdc ok closed(3), of _ fm True False] show ?thesis
      by (auto simp: worker_closed_def split: if_splits)
  qed
qed

lemma reach_restart_ok:
  assumes "rt_reach pf fm cfg (sqlite_sink cdc) rt0 n rt" and "codec_ok cdc" and "rt_protocol rt0"
    and "restart_ok pf cdc (n + k) rt0" "rt_store_ok (n + j) rt0" "\<not> full_queue_seen rt"
  shows "restart_ok pf cdc k rt"
  using assms
proof (induction arbitrary: k j rule: rt_reach.induct)
  case (step n rt rt')
  have "\<not> full_queue_seen rt" using step_seen [OF step.hyps(2)] step.prems(5) by blast
  then have "restart_ok pf cdc (Suc k) rt" using step.IH [of "Suc k" "Suc j"] step.prems by simp
  moreover have "rt_protocol rt" using protocol_reach [OF step.hyps(1) step.prems(2)] .
  moreover have "rt_store_ok (Suc j) rt"
    using rt_reach_store [OF step.hyps(1), of "Suc j"] step.prems(4) by simp
  ultimately show ?case
    using step_restart_ok [OF step.prems(1) _ _ _ step.hyps(2) step.prems(5)] by blast
qed simp

end
