(* ===== verification/Qso_Sessions.thy ===== *)
theory Qso_Sessions
  imports Qso_Restart_Run
begin

section \<open>Sessions: open, load, run, crash, and again\<close>

text \<open>
  A program that uses the library opens the database, loads the store, spawns the runtime and
  works; at some moment it stops or crashes, and what was in flight is lost. \<open>boot\<close> is the
  start of a session, composed of the modelled functions; \<open>crash_point\<close> is where a session can be
  cut off, also inside the handling of a message; \<open>crash_reach\<close> is any number of sessions, each
  with its own configuration, each cut off anywhere, on an engine that reports no error and
  without \<open>PersistQueueFull\<close> for a patch, void, undo or redo.

  A crash is the end of the process: what the engine has executed stays in the file. Each of the
  sink's three writes (the transaction of an append, the insert of a snapshot, the delete of a
  compaction) is atomic in the engine, so a crash falls between two of them. Loss of power, under
  which \<open>synchronous = NORMAL\<close> may lose the last transactions, is not modelled; neither is a
  crash while \<open>sqlite_open\<close> writes its schema.
\<close>


subsection \<open>Where a session can end\<close>

definition in_flight :: "'s worker \<Rightarrow> stored_op list" where
  "in_flight w = wk_buf w @ queued_ops (wk_queue w)"

text \<open>\<open>crash_point fm cfg sink w s ops\<close>: from worker state \<open>w\<close>, the process can die with sink state
  \<open>s\<close>, and then \<open>ops\<close> were accepted and had not been appended: between two steps; when
  \<open>flush_buf\<close> has appended the buffer and not yet flushed the sink, or when it did so for a message
  with an operation; when a checkpoint has flushed, or has written its snapshot and not yet
  compacted.\<close>

inductive crash_point :: "fmt \<Rightarrow> runtime_config \<Rightarrow> 's op_sink \<Rightarrow> 's worker \<Rightarrow> 's \<Rightarrow> stored_op list \<Rightarrow> bool"
  for fm cfg sink w where
  between: "crash_point fm cfg sink w (wk_sink w) (in_flight w)"
| appended: "wk_running w \<Longrightarrow> wk_buf w \<noteq> [] \<Longrightarrow> sink_append_ops sink (wk_buf w) (wk_sink w) = (Inr seq, s) \<Longrightarrow>
    crash_point fm cfg sink w s (queued_ops (wk_queue w))"
| op_appended: "wk_running w \<Longrightarrow> wk_queue w = MsgOp so # rest \<Longrightarrow>
    length (wk_buf w @ [so]) \<ge> cfg_batch_max_ops cfg \<or> cfg_flush_on_insert cfg \<and> is_insert (so_op so) \<Longrightarrow>
    sink_append_ops sink (wk_buf w @ [so]) (wk_sink w) = (Inr seq, s) \<Longrightarrow>
    crash_point fm cfg sink w s (queued_ops rest)"
| flushed: "wk_running w \<Longrightarrow> wk_queue w = MsgCheckpoint snap n c # rest \<Longrightarrow>
    flush_buf fm sink True (w\<lparr>wk_queue := rest\<rparr>) = (Inr (), w1) \<Longrightarrow>
    crash_point fm cfg sink w (wk_sink w1) (in_flight w1)"
| snapshotted: "wk_running w \<Longrightarrow> wk_queue w = MsgCheckpoint snap n c # rest \<Longrightarrow>
    flush_buf fm sink True (w\<lparr>wk_queue := rest\<rparr>) = (Inr (), w1) \<Longrightarrow>
    sink_write_snapshot sink snap n (wk_sink w1) = (Inr (), s) \<Longrightarrow>
    crash_point fm cfg sink w s (in_flight w1)"

text \<open>What is lost is the end of what was in flight.\<close>

lemma crash_point_suffix: "crash_point fm cfg sink w s ops \<Longrightarrow> \<exists>kept. in_flight w = kept @ ops"
proof (induction rule: crash_point.induct)
  case (flushed snap n c rest w1)
  with flush_buf_wiring [OF flushed(3)] show ?case by (simp add: in_flight_def same_wiring_def)
next
  case (snapshotted snap n c rest w1 s)
  with flush_buf_wiring [OF snapshotted(3)] show ?case by (simp add: in_flight_def same_wiring_def)
qed (auto simp: in_flight_def)


subsection \<open>Booting\<close>

definition boot :: "profile \<Rightarrow> (nat \<Rightarrow> int) \<Rightarrow> 'p codec \<Rightarrow> 'p database \<Rightarrow> (qso_store \<times> 'p database) option" where
  "boot pf clk cdc db0 =
    (case sqlite_open (Inr db0) no_faults no_faults of
       Inl e \<Rightarrow> None
     | Inr db \<Rightarrow>
       (case load_store pf clk cdc no_faults no_faults db of
          Some (Inr st) \<Rightarrow> Some (st, db)
        | _ \<Rightarrow> None))"

inductive crash_reach :: "profile \<Rightarrow> fmt \<Rightarrow> 'p codec \<Rightarrow> nat \<Rightarrow> 'p database \<Rightarrow> bool"
  for pf fm cdc where
  created: "crash_reach pf fm cdc 0 empty_database"
| crashed: "crash_reach pf fm cdc N db0 \<Longrightarrow> boot pf clk cdc db0 = Some (st, db) \<Longrightarrow> fault_free (db, env) \<Longrightarrow>
    spawn_qsolog st (Some (db, env)) cfg = Some rt0 \<Longrightarrow> rt_reach pf fm cfg (sqlite_sink cdc) rt0 n rt \<Longrightarrow>
    rt_worker rt = Some w \<Longrightarrow> crash_point fm cfg (sqlite_sink cdc) w s ops \<Longrightarrow> \<not> full_queue_seen rt \<Longrightarrow>
    crash_reach pf fm cdc (N + n) (fst s)"

text \<open>A file that boots, to a store that the next session can start from, with \<open>k\<close> steps left.\<close>

definition recoverable :: "profile \<Rightarrow> 'p codec \<Rightarrow> nat \<Rightarrow> 'p database \<Rightarrow> bool" where
  "recoverable pf cdc k db0 \<longleftrightarrow> (\<exists>st db. (\<forall>clk. boot pf clk cdc db0 = Some (st, db)) \<and>
    journalled pf cdc db [] st \<and> store_inv st \<and> seqs_below k st \<and> room_for k st)"

text \<open>Everything a client can see of a store, apart from undo and redo.\<close>

definition same_contents :: "qso_store \<Rightarrow> qso_store \<Rightarrow> bool" where
  "same_contents st st' \<longleftrightarrow> records st' = records st \<and> order st' = order st \<and> pos st' = pos st \<and>
    by_call st' = by_call st \<and> by_contest st' = by_contest st \<and> next_qso_id st' = next_qso_id st"

lemma replica_contents: "replica st rs \<Longrightarrow> store_wf st \<Longrightarrow> same_contents st rs"
  using replica_data by (auto simp: same_contents_def replica_def)

lemma boot_current:
  assumes "meta_current (db_meta db)" "\<And>clk. load_store pf clk cdc no_faults no_faults db = Some (Inr st)"
  shows "boot pf clk cdc db = Some (st, db)"
  using assms by (simp add: boot_def sqlite_open_current)

lemma journalled_meta: "journalled pf cdc db ops st \<Longrightarrow> meta_current (db_meta db)"
  by (auto simp: journalled_def journal_from_def)

lemma recoverable_new:
  assumes cdc: "codec_ok (cdc :: 'p codec)" and k: "k < 2 ^ 63 - 1"
  shows "recoverable pf cdc k empty_database"
proof -
  have "Mapping.lookup (db_meta (empty_database :: 'p database)) META_SCHEMA_VERSION = None"
    by (simp add: empty_database_def)
  then obtain t where opened: "sqlite_open (Inr (empty_database :: 'p database)) no_faults no_faults = Inr (empty_database\<lparr>db_meta := t\<rparr>)"
    and t: "meta_current t" by (rule sqlite_open_fresh)
  let ?db = "(empty_database :: 'p database)\<lparr>db_meta := t\<rparr>"
  have jn: "journalled pf cdc ?db [] new_store"
    using t by (intro journalled_new) (simp_all add: empty_database_def)
  have empty: "db_events (empty_database :: 'p database) = []" by (simp add: empty_database_def)
  have new: "next_op_seq new_store = 1" "next_qso_id new_store = 1" "undo new_store = []" "redo new_store = []"
    by (simp_all add: new_store_def default_store_def)
  have "load_latest_snapshot cdc no_faults ?db = Inr None"
    by (simp add: load_latest_snapshot_def select_latest_snapshot_def empty_database_def)
  then have "load_store pf clk cdc no_faults no_faults ?db = Some (Inr new_store)" for clk
    by (intro load_store_replay [OF cdc, of "[]" "[]" _ None])
      (simp_all add: journal_ok_def new empty)
  then have "boot pf clk cdc empty_database = Some (new_store, ?db)" for clk
    by (simp add: boot_def opened)
  moreover have "seqs_below k new_store" using k by (simp add: seqs_below_def new)
  moreover have "room_for k new_store" using k by (intro room_for_new) simp
  ultimately show ?thesis
    using jn store_inv_new unfolding recoverable_def by blast
qed

lemma spawn_restart_ok:
  assumes "spawn_qsolog st (Some (db, env)) cfg = Some rt0" "fault_free (db, env)" "journalled pf cdc db [] st"
    and "seqs_below k st"
  shows "restart_ok pf cdc k rt0"
  using assms
  by (auto simp: spawn_qsolog_def restart_ok_def worker_sound_def new_worker_def split: if_splits)

text \<open>One session, from a boot to any reachable state.\<close>

lemma session_sound:
  assumes cdc: "codec_ok cdc" and rec: "recoverable pf cdc (n + k) db0" and boot: "boot pf clk cdc db0 = Some (st, db)"
    and free: "fault_free (db, env)" and spawn: "spawn_qsolog st (Some (db, env)) cfg = Some rt0"
    and reach: "rt_reach pf fm cfg (sqlite_sink cdc) rt0 n rt" and unseen: "\<not> full_queue_seen rt"
  shows "restart_ok pf cdc k rt" "rt_store_ok k rt" "rt_protocol rt"
proof -
  obtain st' db' where boot': "\<And>clk. boot pf clk cdc db0 = Some (st', db')"
    and jn': "journalled pf cdc db' [] st'" "store_inv st'" "seqs_below (n + k) st'" "room_for (n + k) st'"
    using rec by (auto simp: recoverable_def)
  with boot have "st' = st" "db' = db" by simp_all
  with jn' have jn: "journalled pf cdc db [] st" "store_inv st" "seqs_below (n + k) st" "room_for (n + k) st" by simp_all
  have ok: "rt_store_ok (n + k) rt0" by (rule rt_store_ok_spawn [OF spawn jn(2,4)])
  show "rt_store_ok k rt" by (rule rt_reach_store [OF reach ok])
  show "rt_protocol rt" by (rule protocol_reach [OF reach protocol_spawn [OF spawn]])
  show "restart_ok pf cdc k rt"
    by (rule reach_restart_ok [OF reach cdc protocol_spawn [OF spawn] spawn_restart_ok [OF spawn free jn(1,3)] ok unseen])
qed

text \<open>Wherever it ends, the file and the operations lost rebuild the store.\<close>

lemma flushed_checkpoint:
  assumes cdc: "codec_ok cdc" and sd: "worker_sound pf cdc w st" and q: "wk_queue w = MsgCheckpoint snap n c # rest"
    and fl: "flush_buf fm (sqlite_sink cdc) True (w\<lparr>wk_queue := rest\<rparr>) = (out, w1)"
  shows "fault_free (wk_sink w1)" "journalled pf cdc (fst (wk_sink w1)) (in_flight w1) st" "in_flight w1 = queued_ops rest"
proof -
  have "worker_sound pf cdc (w\<lparr>wk_queue := rest\<rparr>) st" using sd q by (simp add: worker_sound_def)
  from flush_sound [OF cdc this fl] show "fault_free (wk_sink w1)" "journalled pf cdc (fst (wk_sink w1)) (in_flight w1) st"
    by (simp_all add: worker_sound_def in_flight_def)
  show "in_flight w1 = queued_ops rest"
    using flush_buf_wiring [OF fl] by (simp add: in_flight_def same_wiring_def)
qed

lemma snapshot_free:
  assumes cdc: "codec_ok cdc" and free: "fault_free c" and jn: "journalled pf cdc (fst c) [] st" and inv: "store_inv st"
    and wr: "sink_write_snapshot (sqlite_sink cdc) (export_snapshot st) n c = (out, c')"
  shows "journalled pf cdc (fst c') [] st"
proof -
  obtain clk c1 where c1: "with_conn (\<lambda>flt clk. write_snapshot cdc flt clk (export_snapshot st) n) c
        = (fst (write_snapshot cdc no_faults clk (export_snapshot st) n (fst c)), c1)"
      "fst c1 = snd (write_snapshot cdc no_faults clk (export_snapshot st) n (fst c))"
    by (rule with_conn_free [OF free])
  obtain rows where "write_snapshot cdc no_faults clk (export_snapshot st) n (fst c) = (Inr (), (fst c)\<lparr>db_snapshots := rows\<rparr>)"
      "journalled pf cdc ((fst c)\<lparr>db_snapshots := rows\<rparr>) [] st"
    by (rule journalled_snapshot [OF cdc jn inv])
  with c1 wr show ?thesis by (simp add: sqlite_sink_def)
qed

text \<open>A checkpoint is the last message of the queue: the loop waits for its answer.\<close>

lemma checkpoint_last:
  assumes "rt_protocol rt" "rt_worker rt = Some w" "wk_running w" "wk_queue w = MsgCheckpoint snap n c # rest"
  shows "queued_ops rest = []"
  using assms by (auto simp: rt_protocol_def protocol_def Cons_eq_append_conv split: ctl.splits option.splits)

lemma crash_point_sound:
  assumes cdc: "codec_ok cdc" and ok: "restart_ok pf cdc k rt" "rt_store_ok k rt" "rt_protocol rt"
    and w: "rt_worker rt = Some w" and crash: "crash_point fm cfg (sqlite_sink cdc) w s ops"
  shows "journalled pf cdc (fst s) ops (rt_store rt)"
proof -
  have sd: "worker_sound pf cdc w (rt_store rt)" and inv: "store_inv (rt_store rt)"
    using ok w by (simp_all add: restart_ok_def rt_store_ok_def)
  have free: "fault_free (wk_sink w)" and jn: "journalled pf cdc (fst (wk_sink w)) (in_flight w) (rt_store rt)"
    using sd by (simp_all add: worker_sound_def in_flight_def)
  from crash show ?thesis
  proof cases
    case between
    with jn show ?thesis by simp
  next
    case (appended seq)
    with jn sqlite_append_free [OF cdc free, of pf "wk_buf w" "queued_ops (wk_queue w)" "rt_store rt"]
    show ?thesis by (auto simp: in_flight_def)
  next
    case (op_appended so rest seq)
    with jn sqlite_append_free [OF cdc free, of pf "wk_buf w @ [so]" "queued_ops rest" "rt_store rt"]
    show ?thesis by (auto simp: in_flight_def)
  next
    case (flushed snap n c rest w1)
    from flushed_checkpoint(2) [OF cdc sd flushed(4,5)] flushed(1,2) show ?thesis by simp
  next
    case (snapshotted snap n c rest w1)
    note fl = flushed_checkpoint [OF cdc sd snapshotted(3,4)]
    have lost: "in_flight w1 = []"
      using fl(3) checkpoint_last [OF ok(3) w snapshotted(2,3)] by simp
    have "snap = export_snapshot (rt_store rt)"
      using ok(1) w snapshotted(3) by (simp add: restart_ok_def)
    with snapshot_free [OF cdc fl(1) _ inv] fl(2) snapshotted(1,5) lost show ?thesis by simp
  qed
qed

text \<open>And back: what the session leaves behind boots again, whatever was in flight.\<close>

lemma session_recovers:
  assumes cdc: "codec_ok cdc" and ok: "restart_ok pf cdc k rt" "rt_store_ok k rt" "rt_protocol rt"
    and w: "rt_worker rt = Some w" and crash: "crash_point fm cfg (sqlite_sink cdc) w s ops"
  obtains rs rs' where "\<forall>clk. boot pf clk cdc (fst s) = Some (rs, fst s)"
    "\<forall>clk. replay_all pf clk ops rs = Ok () rs'" "replica (rt_store rt) rs'"
    "recoverable pf cdc k (fst s)"
proof -
  note jn = crash_point_sound [OF cdc ok w crash]
  have below: "seqs_below k (rt_store rt)" using ok(1) w by (simp add: restart_ok_def)
  have st: "store_inv (rt_store rt)" "room_for k (rt_store rt)" using ok(2) by (simp_all add: rt_store_ok_def)
  obtain rs rs' where load: "\<forall>clk. load_store pf clk cdc no_faults no_faults (fst s) = Some (Inr rs)"
    and replay: "\<forall>clk. replay_all pf clk ops rs = Ok () rs'" "replica (rt_store rt) rs'"
    and rs: "journalled pf cdc (fst s) [] rs" "store_inv rs"
      "next_op_seq rs \<le> next_op_seq (rt_store rt)" "next_qso_id rs \<le> next_qso_id (rt_store rt)"
    by (rule journalled_loads [OF cdc jn st(1)])
  have boots: "boot pf clk cdc (fst s) = Some (rs, fst s)" for clk
    by (rule boot_current [OF journalled_meta [OF rs(1)]]) (use load in blast)
  have "seqs_below k rs" using below rs(3) by (simp add: seqs_below_def word_le_nat_alt)
  moreover have "room_for k rs" by (rule room_for_le [OF st(2) rs(3,4)])
  ultimately have "recoverable pf cdc k (fst s)"
    using boots rs(1,2) unfolding recoverable_def by blast
  with that boots replay show thesis by blast
qed

lemma crash_reach_recoverable:
  "crash_reach pf fm cdc N db0 \<Longrightarrow> codec_ok cdc \<Longrightarrow> N + k < 2 ^ 63 - 1 \<Longrightarrow> recoverable pf cdc k db0"
proof (induction arbitrary: k rule: crash_reach.induct)
  case created
  then show ?case using recoverable_new by simp
next
  case (crashed N db0 clk st db env cfg rt0 n rt w s ops)
  have "recoverable pf cdc (n + k) db0" using crashed by (simp add: add.assoc)
  note sound = session_sound [OF crashed.prems(1) this crashed.hyps(2-5) crashed.hyps(8)]
  from session_recovers [OF crashed.prems(1) sound crashed.hyps(6,7)] show ?case by blast
qed


subsection \<open>Durable mode\<close>

text \<open>In durable mode every accepted operation is followed by a flush that the loop waits for, so
  outside such a wait nothing is in flight. This needs no assumption on the engine.\<close>

definition drained :: "'s runtime \<Rightarrow> bool" where
  "drained rt \<longleftrightarrow> (\<forall>w. rt_worker rt = Some w \<longrightarrow> in_flight w = [] \<or>
    (\<exists>ann cp so. waiting_for (rt_ctl rt) = Some (WaitMutation ann cp so)))"

lemma drained_frame:
  assumes "drained rt" "rt_worker rt = Some w" "rt_worker rt' = Some w'" "in_flight w = [] \<Longrightarrow> in_flight w' = []"
    and "\<And>wt. waiting_for (rt_ctl rt) = Some wt \<Longrightarrow> waiting_for (rt_ctl rt') = Some wt \<or> in_flight w' = []"
  shows "drained rt'"
  using assms by (fastforce simp: drained_def)

lemma drained_empty: "rt_worker rt = Some w \<Longrightarrow> in_flight w = [] \<Longrightarrow> drained rt"
  by (simp add: drained_def)

lemma persist_after_durable:
  assumes "persist_after_mutation pf fm cfg ann cp so rt = Some rt'" "cfg_ack_mode cfg = Durable" "rt_worker rt = Some w"
  shows "rt_worker rt' = Some w \<or> waiting_for (rt_ctl rt') = Some (WaitMutation ann cp so)"
  using assms
  by (auto simp: persist_after_mutation_def Let_def split: sum.splits dest!: rejected_sel)

lemma command_durable:
  assumes run: "handle_command pf fm cfg clk cmd rt = Some rt'" and ack: "cfg_ack_mode cfg = Durable"
    and w: "rt_worker rt = Some w"
  shows "rt_worker rt' = Some w \<or> (\<exists>ann cp so. waiting_for (rt_ctl rt') = Some (WaitMutation ann cp so))"
proof (cases "handle_mutation pf fm cfg clk cmd rt = Some rt'")
  case False
  with run w show ?thesis by (cases cmd) (auto simp: handle_command_def)
next
  case True
  show ?thesis
  proof (cases "\<exists>ann so st1. persist_after_mutation pf fm cfg ann (take_checkpoint (rt_store rt)) so (rt\<lparr>rt_store := st1\<rparr>) = Some rt'")
    case True
    then obtain ann so st1 where
      "persist_after_mutation pf fm cfg ann (take_checkpoint (rt_store rt)) so (rt\<lparr>rt_store := st1\<rparr>) = Some rt'" by blast
    from persist_after_durable [OF this ack, of w] w show ?thesis by auto
  next
    case False
    with True w show ?thesis
      by (auto simp: handle_mutation_def Let_def split: sum.splits result.splits)
  qed
qed

lemma handle_in_flight:
  assumes "wk_queue w = m # rest" "in_flight w = []"
  shows "in_flight (worker_handle fm cfg sink m (w\<lparr>wk_queue := rest\<rparr>)) = []"
proof -
  have "\<nexists>so. m = MsgOp so" "wk_buf w = []" "queued_ops rest = []"
    using assms by (auto simp: in_flight_def) (cases m; simp)
  moreover obtain out v where "flush_buf fm sink True (w\<lparr>wk_queue := rest\<rparr>) = (out, v)" by fastforce
  moreover from flush_buf_wiring [OF this] have "wk_buf v = []" "wk_queue v = rest"
    by (simp_all add: same_wiring_def)
  ultimately show ?thesis
    by (cases m) (auto simp: in_flight_def split: sum.split prod.split)
qed

lemma flush_in_flight: "in_flight w = [] \<Longrightarrow> in_flight (snd (flush_buf fm sink cf w)) = []"
  by (simp add: in_flight_def flush_snd_wiring)

lemma in_flight_simps [simp]:
  "in_flight (w\<lparr>wk_reply := r\<rparr>) = in_flight w" "in_flight (w\<lparr>wk_durable := ds\<rparr>) = in_flight w"
  "in_flight (w\<lparr>wk_running := b\<rparr>) = in_flight w"
  by (simp_all add: in_flight_def)

lemma drained_progress:
  assumes run: "loop_progress pf fm cfg rt = Some (Some rt')" and dr: "drained rt" and pr: "rt_protocol rt"
  shows "drained rt'"
proof -
  obtain w where w: "rt_worker rt = Some w" and prw: "protocol (rt_ctl rt) w"
    using run pr by (auto simp: loop_progress_def rt_protocol_def split: option.splits)
  show ?thesis
  proof (cases "rt_ctl rt")
    case (Sending m wt)
    then have "wk_running w" and m: "msg_for wt m" using prw by (auto simp: protocol_def split: if_splits)
    then have rt': "rt' = rt\<lparr>rt_worker := Some (w\<lparr>wk_queue := wk_queue w @ [m], wk_reply := None\<rparr>), rt_ctl := Awaiting wt\<rparr>"
      using run w Sending by (auto simp: loop_progress_def split: if_splits)
    have "queued_ops [m] = []" using m by (cases "(wt, m)" rule: msg_for.cases) auto
    then show ?thesis
      using Sending w by (intro drained_frame [OF dr w, of rt' "w\<lparr>wk_queue := wk_queue w @ [m], wk_reply := None\<rparr>"])
        (auto simp: rt' in_flight_def)
  next
    case (Awaiting wt)
    then obtain rep where rep: "wk_reply w = Some rep"
      and res: "resume pf fm cfg wt (Some rep) (rt\<lparr>rt_worker := Some (w\<lparr>wk_reply := None\<rparr>)\<rparr>) = Some rt'"
      using prw run w by (auto simp: loop_progress_def protocol_def split: option.splits if_splits)
    have q: "wk_queue w = []" using prw Awaiting rep by (auto simp: protocol_def split: if_splits)
    show ?thesis
    proof (cases "wk_running w")
      case True
      then have "in_flight (w\<lparr>wk_reply := None\<rparr>) = []"
        using prw Awaiting rep q by (simp add: protocol_def in_flight_def)
      then show ?thesis by (rule drained_empty [rotated]) (use resume_worker [OF res] in simp)
    next
      case False
      then have "wt = WaitShutdown" using prw Awaiting by (auto simp: protocol_def)
      then have "in_flight w = []" using dr w Awaiting by (auto simp: drained_def)
      then show ?thesis by (intro drained_empty [of _ "w\<lparr>wk_reply := None\<rparr>"]) (use resume_worker [OF res] in simp_all)
    qed
  qed (use run in \<open>simp_all add: idle_no_progress\<close>)
qed

lemma drained_step:
  assumes dr: "drained rt" and pr: "rt_protocol rt" and ack: "cfg_ack_mode cfg = Durable"
    and step: "rt_step pf fm cfg sink rt rt'"
  shows "drained rt'"
  using step
proof (cases rule: rt_step.cases)
  case (command clk cmd)
  show ?thesis
  proof (cases "rt_worker rt")
    case None
    with handle_command_cases [OF command(2)] have "rt_worker rt' = None" by (metis option.distinct(1))
    then show ?thesis by (simp add: drained_def)
  next
    case (Some w)
    then have "in_flight w = []" using dr command(1) by (simp add: drained_def)
    with command_durable [OF command(2) ack Some] show ?thesis by (auto simp: drained_def)
  qed
next
  case progress
  from drained_progress [OF this dr pr] show ?thesis .
next
  case durable
  then show ?thesis
    by (rule loop_durable_cases) (use dr in \<open>auto simp: drained_def handle_durable_sel\<close>)
next
  case (recv v v')
  then show ?thesis
    by (intro drained_frame [OF dr recv(2), of _ v']) (auto simp: worker_recv_def handle_in_flight split: if_splits list.splits)
next
  case (tick v v')
  then show ?thesis
    by (intro drained_frame [OF dr tick(2), of _ v']) (auto simp: worker_tick_def flush_in_flight split: if_splits)
next
  case drop
  then show ?thesis using dr by (auto simp: drained_def)
next
  case (closed v v')
  then show ?thesis
    by (intro drained_frame [OF dr closed(3), of _ v']) (auto simp: worker_closed_def flush_in_flight split: if_splits)
qed

lemma drained_reach:
  assumes "rt_reach pf fm cfg sink rt0 n rt" "spawn_qsolog store o_sink cfg = Some rt0" "cfg_ack_mode cfg = Durable"
  shows "drained rt"
  using assms
proof (induction rule: rt_reach.induct)
  case start
  then show ?case by (auto simp: spawn_qsolog_def drained_def new_worker_def in_flight_def split: if_splits)
next
  case (step n rt rt')
  then show ?case
    using drained_step protocol_reach [OF step.hyps(1) protocol_spawn [OF step.prems(1)]] by blast
qed


text \<open>The queue is then empty whenever a command is taken, so it is never full.\<close>

definition never_full :: "'s runtime \<Rightarrow> bool" where
  "never_full rt \<longleftrightarrow> \<not> full_queue_seen rt \<and>
    (\<forall>resp. waiting_for (rt_ctl rt) = Some (WaitAutoCheckpoint resp) \<longrightarrow> resp \<noteq> RespUnit (Inl PersistQueueFull))"

lemma never_full_respond:
  "\<not> full_queue_seen rt \<Longrightarrow> resp \<noteq> RespUnit (Inl PersistQueueFull) \<Longrightarrow> never_full (respond resp rt)"
  by (auto simp: never_full_def full_queue_seen_def)

lemma announce_responses [simp]:
  "announce_response ann \<noteq> RespUnit (Inl e)"
  "announce_error ann e = RespUnit (Inl e') \<longleftrightarrow> (\<forall>i. ann \<noteq> AnnInsert i) \<and> e = e'"
  "command_error cmd e = RespUnit (Inl e') \<longleftrightarrow> (\<forall>d. cmd \<noteq> CInsert d) \<and> e = e'"
  by (cases ann; simp)+ (cases cmd; simp)

lemma never_full_accepted: "\<not> full_queue_seen rt \<Longrightarrow> never_full (mutation_accepted cfg ann rt)"
  by (cases ann) (auto simp: mutation_accepted_def maybe_auto_checkpoint_def Let_def never_full_def full_queue_seen_def)

lemma never_full_rejected:
  "mutation_rejected pf ann cp so e rt = Some rt' \<Longrightarrow> e \<noteq> PersistQueueFull \<Longrightarrow> \<not> full_queue_seen rt \<Longrightarrow> never_full rt'"
  by (auto simp: mutation_rejected_def full_queue_seen_def intro!: never_full_respond split: result.splits)

lemma seen_mark [simp]: "full_queue_seen (mark_persist_unhealthy m rt) = full_queue_seen rt"
  by (simp add: full_queue_seen_def)


lemma never_full_mutation:
  assumes run: "handle_mutation pf fm cfg clk cmd rt = Some rt'" and ack: "cfg_ack_mode cfg = Durable"
    and room: "\<And>w. rt_worker rt = Some w \<Longrightarrow> wk_running w \<and> wk_queue w = [] \<and> 0 < cfg_persist_queue_bound cfg"
    and nf: "\<not> full_queue_seen rt"
  shows "never_full rt'"
proof (cases "ensure_mutation_allowed (cfg_ack_mode cfg) (rt_health rt)")
  case (Inl e)
  then have "e \<noteq> PersistQueueFull" by (auto simp: ensure_mutation_allowed_def split: if_splits)
  with Inl run nf show ?thesis by (auto simp: handle_mutation_def intro!: never_full_respond)
next
  case (Inr u)
  show ?thesis
  proof (cases "run_mutation pf clk cmd (rt_store rt)")
    case (Err e st)
    with Inr run nf show ?thesis
      by (auto simp: handle_mutation_def Let_def full_queue_seen_def intro!: never_full_respond)
  next
    case (Ok x st)
    obtain ann so where x: "x = (ann, so)" by fastforce
    have pa: "persist_after_mutation pf fm cfg ann (take_checkpoint (rt_store rt)) so (rt\<lparr>rt_store := clear_pending_ops st\<rparr>) = Some rt'"
      using run Inr Ok by (simp add: handle_mutation_def Let_def x)
    show ?thesis
    proof (cases "rt_worker rt")
      case None
      with pa nf show ?thesis
        by (auto simp: persist_after_mutation_def full_queue_seen_def intro!: never_full_accepted)
    next
      case (Some w)
      with pa nf room [OF Some] ack show ?thesis
        by (auto simp: persist_after_mutation_def enqueue_persist_def Let_def never_full_def full_queue_seen_def)
    qed
  qed (use Inr run in \<open>simp add: handle_mutation_def Let_def\<close>)
qed

lemma never_full_command:
  assumes run: "handle_command pf fm cfg clk cmd rt = Some rt'" and ack: "cfg_ack_mode cfg = Durable"
    and room: "\<And>w. rt_worker rt = Some w \<Longrightarrow> wk_running w \<and> wk_queue w = [] \<and> 0 < cfg_persist_queue_bound cfg"
    and nf: "\<not> full_queue_seen rt"
  shows "never_full rt'"
proof (cases "handle_mutation pf fm cfg clk cmd rt = Some rt'")
  case True
  from never_full_mutation [OF this ack room nf] show ?thesis .
next
  case False
  with run nf show ?thesis
    by (cases cmd) (auto simp: handle_command_def never_full_def full_queue_seen_def split: option.splits)
qed

lemma never_full_resume:
  assumes "resume pf fm cfg wt rep rt = Some rt'" "\<not> full_queue_seen rt"
    and "\<forall>resp. wt = WaitAutoCheckpoint resp \<longrightarrow> resp \<noteq> RespUnit (Inl PersistQueueFull)"
  shows "never_full rt'"
proof -
  have stop: "never_full ((respond r rt)\<lparr>rt_ctl := Stopped\<rparr>)" if "r \<noteq> RespUnit (Inl PersistQueueFull)" for r
    using assms(2) that by (auto simp: never_full_def full_queue_seen_def)
  have "map_sum RtPersist id out \<noteq> Inl PersistQueueFull" for out :: "persist_error + 'b"
    by (cases out) simp_all
  with assms stop show ?thesis
    by (cases "(pf, fm, cfg, wt, rep, rt)" rule: resume.cases)
      (auto intro!: never_full_accepted never_full_respond stop dest!: never_full_rejected simp: full_queue_seen_def)
qed


lemma never_full_progress:
  assumes run: "loop_progress pf fm cfg rt = Some (Some rt')" and nf: "never_full rt"
  shows "never_full rt'"
proof -
  obtain w where w: "rt_worker rt = Some w"
    using run by (auto simp: loop_progress_def split: option.splits)
  have unseen: "\<not> full_queue_seen rt" using nf by (simp add: never_full_def)
  show ?thesis
  proof (cases "rt_ctl rt")
    case (Sending m wt)
    then have resp: "\<forall>resp. wt = WaitAutoCheckpoint resp \<longrightarrow> resp \<noteq> RespUnit (Inl PersistQueueFull)"
      using nf by (auto simp: never_full_def)
    show ?thesis
    proof (cases "wk_running w")
      case True
      with run w Sending nf show ?thesis
        by (auto simp: loop_progress_def never_full_def full_queue_seen_def split: if_splits)
    next
      case False
      with run w Sending have "send_failed pf fm cfg wt rt = Some rt'" by (simp add: loop_progress_def)
      with never_full_resume [OF _ unseen resp] resp unseen show ?thesis
        by (cases wt) (auto simp del: resume.simps intro!: never_full_respond)
    qed
  next
    case (Awaiting wt)
    then have resp: "\<forall>resp. wt = WaitAutoCheckpoint resp \<longrightarrow> resp \<noteq> RespUnit (Inl PersistQueueFull)"
      using nf by (auto simp: never_full_def)
    from run w Awaiting obtain rep v where "resume pf fm cfg wt rep (rt\<lparr>rt_worker := v\<rparr>) = Some rt'"
      by (auto simp: loop_progress_def split: option.splits if_splits)
        (metis (no_types, lifting) runtime.surjective runtime.update_convs(7))
    from never_full_resume [OF this] unseen resp show ?thesis by (simp add: full_queue_seen_def)
  qed (use run in \<open>simp_all add: idle_no_progress\<close>)
qed

lemma queued_ops_map [simp]: "queued_ops (map MsgOp ops) = ops"
  by (induction ops) simp_all

lemma never_full_step:
  assumes dr: "drained rt" and pr: "rt_protocol rt" and ack: "cfg_ack_mode cfg = Durable" "0 < cfg_persist_queue_bound cfg"
    and nf: "never_full rt" and step: "rt_step pf fm cfg sink rt rt'"
  shows "never_full rt'"
  using step
proof (cases rule: rt_step.cases)
  case (command clk cmd)
  have "wk_running w \<and> wk_queue w = [] \<and> 0 < cfg_persist_queue_bound cfg" if w: "rt_worker rt = Some w" for w
  proof -
    have "in_flight w = []" using dr w command(1) by (simp add: drained_def)
    then have "wk_queue w = []"
      using idle_worker(2) [OF pr command(1) w] by (auto simp: ops_only_def in_flight_def neq_Nil_conv Cons_eq_map_conv)
    with idle_worker(1) [OF pr command(1) w] ack(2) show ?thesis by simp
  qed
  with never_full_command [OF command(2) ack(1)] nf show ?thesis by (simp add: never_full_def)
next
  case progress
  from never_full_progress [OF this nf] show ?thesis .
next
  case durable
  then show ?thesis
    by (rule loop_durable_cases)
      (use nf in \<open>auto simp: never_full_def full_queue_seen_def handle_durable_def split: sum.split\<close>)
qed (use nf in \<open>simp_all add: never_full_def full_queue_seen_def\<close>)

lemma never_full_reach:
  assumes "rt_reach pf fm cfg sink rt0 n rt" "spawn_qsolog store (Some s) cfg = Some rt0" "cfg_ack_mode cfg = Durable"
  shows "never_full rt"
  using assms
proof (induction rule: rt_reach.induct)
  case start
  then show ?case by (auto simp: spawn_qsolog_def never_full_def full_queue_seen_def split: if_splits)
next
  case (step n rt rt')
  have "0 < cfg_persist_queue_bound cfg" using step.prems(1) by (auto simp: spawn_qsolog_def split: if_splits)
  then show ?case
    using never_full_step [OF drained_reach [OF step.hyps(1) step.prems]
      protocol_reach [OF step.hyps(1) protocol_spawn [OF step.prems(1)]] step.prems(2) _ step.IH [OF step.prems]]
      step.hyps(2) by blast
qed

end
