(* ===== verification/Qso_Session_Properties.thy ===== *)
theory Qso_Session_Properties
  imports Qso_Sessions Qso_Runtime_Properties
begin

section \<open>Properties of whole sessions\<close>

text \<open>
  Store, runtime, worker and SQLite sink together, over any number of sessions, each ended by the
  death of the process between two steps or between two writes of the worker. The engine does not
  fail (\<open>fault_free\<close>), no patch, void, undo or redo of a session is answered \<open>PersistQueueFull\<close>,
  the codecs are inverse to each other, and all sessions together take fewer than 2^63 - 1 steps.
\<close>


subsection \<open>A sample session\<close>

definition queued_config :: runtime_config where
  "queued_config = default_config\<lparr>cfg_flush_on_insert := False, cfg_snapshot_every_ops := 2\<rparr>"

text \<open>The runtime of a first session, on a new file.\<close>

definition first_session :: "runtime_config \<Rightarrow> (tree database \<times> tree connection runtime) option" where
  "first_session cfg =
    (case boot dev_profile (\<lambda>_. 0) tree_codec empty_database of
       None \<Rightarrow> None
     | Some (st, db) \<Rightarrow> map_option (\<lambda>rt. (db, rt)) (spawn_qsolog st (Some (db, [])) cfg))"

text \<open>A schedule of that session, and a test on the state it ends in.\<close>

definition session_ends :: "runtime_config \<Rightarrow> label list \<Rightarrow>
    (tree connection runtime \<Rightarrow> tree connection worker \<Rightarrow> bool) \<Rightarrow> bool" where
  "session_ends cfg ls P =
    (case first_session cfg of
       None \<Rightarrow> False
     | Some (db, rt0) \<Rightarrow>
       (case rt_run dev_profile sample_fmt cfg (sqlite_sink tree_codec) ls rt0 of
          None \<Rightarrow> False
        | Some rt \<Rightarrow> (case rt_worker rt of None \<Rightarrow> False | Some w \<Rightarrow> P rt w)))"

lemma session_endsE:
  assumes "session_ends cfg ls P"
  obtains st db rt0 rt w where "boot dev_profile (\<lambda>_. 0) tree_codec empty_database = Some (st, db)"
    "spawn_qsolog st (Some (db, [])) cfg = Some rt0" "fault_free (db, [])"
    "rt_reach dev_profile sample_fmt cfg (sqlite_sink tree_codec) rt0 (length ls) rt" "rt_worker rt = Some w" "P rt w"
proof -
  obtain db rt0 where first: "first_session cfg = Some (db, rt0)"
    using assms by (cases "first_session cfg") (auto simp: session_ends_def)
  then obtain rt where run: "rt_run dev_profile sample_fmt cfg (sqlite_sink tree_codec) ls rt0 = Some rt"
    using assms by (cases "rt_run dev_profile sample_fmt cfg (sqlite_sink tree_codec) ls rt0") (auto simp: session_ends_def)
  with first obtain w where w: "rt_worker rt = Some w" "P rt w"
    using assms by (cases "rt_worker rt") (auto simp: session_ends_def)
  from first obtain st where "boot dev_profile (\<lambda>_. 0) tree_codec empty_database = Some (st, db)"
      "spawn_qsolog st (Some (db, [])) cfg = Some rt0"
    by (auto simp: first_session_def split: option.splits)
  with that run_from_spawn [OF run] w show thesis by (simp add: fault_free_def)
qed

definition two_inserts :: "label list" where
  "two_inserts = [LCommand 0 (CInsert (sample_draft ''K1A'')), LRecv, LCommand 1 (CInsert (sample_draft ''W2B'')),
    LProgress, LRecv, LRecv, LProgress, LCommand 2 (CVoid 1), LCommand 3 (CPatch 2 default_patch), LRecv]"


subsection \<open>Restart\<close>

text \<open>C4. A crash loses what is in flight and nothing else. Take any number of earlier sessions and a
  last one, with any queue bound, batch limit, checkpoint interval and acknowledgment mode, on an
  engine that reports no error in any of them (\<open>fault_free\<close>, here and in \<open>crash_reach\<close>), and in
  none of which a client was told \<open>PersistQueueFull\<close> for a patch, void, undo or redo. If the
  process dies in any reachable state, between two steps of the worker or between two writes
  inside one, booting from what is in the file succeeds, and replaying the operations that were
  not yet appended, which are the end of what was in buffer and queue, on the loaded store gives
  records, order, positions, both indices and next id of the session's store. Loss of power and a
  crash inside \<open>sqlite_open\<close> are not covered, and \<open>rejected_undos_corrupt_record\<close> shows that the
  exception for \<open>PersistQueueFull\<close> is needed.\<close>
theorem crash_loses_only_flight:
  assumes "codec_ok cdc" and "crash_reach pf fm cdc N db0" and "boot pf clk cdc db0 = Some (st, db)"
    and "fault_free (db, env)" and "spawn_qsolog st (Some (db, env)) cfg = Some rt0"
    and "rt_reach pf fm cfg (sqlite_sink cdc) rt0 n rt" and "N + n < 2 ^ 63 - 1"
    and "rt_worker rt = Some w" and "crash_point fm cfg (sqlite_sink cdc) w s lost"
    and "RespUnit (Inl PersistQueueFull) \<notin> set (rt_responses rt)"
  shows "\<exists>kept rs rs'. in_flight w = kept @ lost \<and> boot pf clk' cdc (fst s) = Some (rs, fst s) \<and>
    replay_all pf clk' lost rs = Ok () rs' \<and> same_contents (rt_store rt) rs'"
proof -
  have rec: "recoverable pf cdc (n + 0) db0"
    using crash_reach_recoverable [OF assms(2,1), of n] assms(7) by simp
  have "\<not> full_queue_seen rt" using assms(10) by (simp add: full_queue_seen_def)
  note sound = session_sound [OF assms(1) rec assms(3-6) this]
  have "store_wf (rt_store rt)" using sound(2) by (simp add: rt_store_ok_def store_inv_def)
  then show ?thesis
    using session_recovers [OF assms(1) sound assms(8,9)] crash_point_suffix [OF assms(9)] replica_contents by metis
qed

theorem crash_loses_only_flight_witness:
  "\<exists>(rt :: tree connection runtime) w rs rs'. rt_worker rt = Some w \<and> length (in_flight w) = 2 \<and>
    boot dev_profile (\<lambda>_. 0) tree_codec (fst (wk_sink w)) = Some (rs, fst (wk_sink w)) \<and>
    replay_all dev_profile (\<lambda>_. 0) (in_flight w) rs = Ok () rs' \<and> same_contents (rt_store rt) rs'"
proof -
  have "session_ends queued_config two_inserts
      (\<lambda>rt w. length (in_flight w) = 2 \<and> RespUnit (Inl PersistQueueFull) \<notin> set (rt_responses rt))"
    by code_simp
  then obtain st db rt0 rt w where boot: "boot dev_profile (\<lambda>_. 0) tree_codec empty_database = Some (st, db)"
    and run: "spawn_qsolog st (Some (db, [])) queued_config = Some rt0"
      "rt_reach dev_profile sample_fmt queued_config (sqlite_sink tree_codec) rt0 (length two_inserts) rt"
    and free: "fault_free (db, [])" and w: "rt_worker rt = Some w" "length (in_flight w) = 2"
      "RespUnit (Inl PersistQueueFull) \<notin> set (rt_responses rt)"
    by (elim session_endsE) blast
  have "0 + length two_inserts < 2 ^ 63 - 1" by (simp add: two_inserts_def)
  from crash_loses_only_flight [OF tree_codec_ok crash_reach.created boot free run this w(1) crash_point.between w(3),
      of "\<lambda>_. 0"] w(1,2)
  show ?thesis by blast
qed

text \<open>C18. Restarting does not fail: take any number of sessions on an engine that reports no error, in
  none of which a client was told \<open>PersistQueueFull\<close> for a patch, void, undo or redo, and each
  cut off by the death of the process in any reachable state, between two steps of the worker or
  between two writes inside one. Then opening the file and loading the store succeed and give a
  well-formed store. Loss of power and a crash inside \<open>sqlite_open\<close> are not covered.\<close>
theorem restart_after_any_crash:
  assumes "codec_ok cdc" and "crash_reach pf fm cdc N db0" and "N < 2 ^ 63 - 1"
  shows "\<exists>st db. boot pf clk cdc db0 = Some (st, db) \<and> store_inv st"
  using crash_reach_recoverable [OF assms(2,1), of 0] assms(3) by (auto simp: recoverable_def)

theorem restart_after_any_crash_witness:
  "\<exists>(rt :: tree connection runtime) w st db. rt_worker rt = Some w \<and> length (in_flight w) = 2 \<and>
    boot dev_profile (\<lambda>_. 0) tree_codec (fst (wk_sink w)) = Some (st, db) \<and> store_inv st"
proof -
  have "session_ends queued_config two_inserts (\<lambda>rt w. length (in_flight w) = 2 \<and> \<not> full_queue_seen rt)"
    by code_simp
  then obtain st db rt0 rt w where boot: "boot dev_profile (\<lambda>_. 0) tree_codec empty_database = Some (st, db)"
    and run: "spawn_qsolog st (Some (db, [])) queued_config = Some rt0"
      "rt_reach dev_profile sample_fmt queued_config (sqlite_sink tree_codec) rt0 (length two_inserts) rt"
    and free: "fault_free (db, [])" and w: "rt_worker rt = Some w" "length (in_flight w) = 2" "\<not> full_queue_seen rt"
    by (elim session_endsE) blast
  have "crash_reach dev_profile sample_fmt tree_codec (0 + length two_inserts) (fst (wk_sink w))"
    by (rule crash_reach.crashed [OF crash_reach.created boot free run w(1) crash_point.between w(3)])
  moreover have "0 + length two_inserts < 2 ^ 63 - 1" by (simp add: two_inserts_def)
  ultimately show ?thesis
    using restart_after_any_crash [OF tree_codec_ok, of dev_profile sample_fmt _ _ "\<lambda>_. 0"] w(1,2) by blast
qed

text \<open>C5. Durable mode keeps its promise on an engine that reports no error: after any number of
  earlier sessions as in \<open>crash_reach\<close>, whenever the loop is not waiting for the flush of a
  mutation (so when it is idle or has ended, and while it waits for a flush, a checkpoint or the
  shutdown), the death of the process loses nothing, also between the snapshot of a checkpoint and
  its compaction: booting gives the contents of the session's store. In durable mode no client is
  ever told \<open>PersistQueueFull\<close> for a patch, void, undo or redo, so this session needs no
  exception.\<close>
theorem durable_store_survives_crash:
  assumes "codec_ok cdc" and "crash_reach pf fm cdc N db0" and "boot pf clk cdc db0 = Some (st, db)"
    and "fault_free (db, env)" and "spawn_qsolog st (Some (db, env)) cfg = Some rt0"
    and "rt_reach pf fm cfg (sqlite_sink cdc) rt0 n rt" and "N + n < 2 ^ 63 - 1"
    and "rt_worker rt = Some w" and "cfg_ack_mode cfg = Durable"
    and "\<And>ann cp so. waiting_for (rt_ctl rt) \<noteq> Some (WaitMutation ann cp so)"
    and "crash_point fm cfg (sqlite_sink cdc) w s lost"
  shows "\<exists>rs. boot pf clk' cdc (fst s) = Some (rs, fst s) \<and> same_contents (rt_store rt) rs"
proof -
  have rec: "recoverable pf cdc (n + 0) db0"
    using crash_reach_recoverable [OF assms(2,1), of n] assms(7) by simp
  have "never_full rt" by (rule never_full_reach [OF assms(6,5,9)])
  then have "\<not> full_queue_seen rt" by (simp add: never_full_def)
  note sound = session_sound [OF assms(1) rec assms(3-6) this]
  have "in_flight w = []" using drained_reach [OF assms(6,5,9)] assms(8,10) by (auto simp: drained_def)
  then have "lost = []" using crash_point_suffix [OF assms(11)] by simp
  moreover obtain rs rs' where "\<forall>clk. boot pf clk cdc (fst s) = Some (rs, fst s)"
    "\<forall>clk. replay_all pf clk lost rs = Ok () rs'" "replica (rt_store rt) rs'"
    using session_recovers [OF assms(1) sound assms(8,11)] by metis
  moreover have "store_wf (rt_store rt)" using sound(2) by (simp add: rt_store_ok_def store_inv_def)
  ultimately show ?thesis using replica_contents by auto
qed

definition insert_then_checkpoint :: "label list" where
  "insert_then_checkpoint = durable_insert @ [LCommand 1 CCheckpoint, LProgress]"

text \<open>The sink after the snapshot of the checkpoint at the head of the queue.\<close>

definition snapshot_written :: "tree connection worker \<Rightarrow> tree connection option" where
  "snapshot_written w =
    (case wk_queue w of
       MsgCheckpoint snap n c # rest \<Rightarrow>
         (case flush_buf sample_fmt (sqlite_sink tree_codec) True (w\<lparr>wk_queue := rest\<rparr>) of
            (Inr _, w1) \<Rightarrow> (case sink_write_snapshot (sqlite_sink tree_codec) snap n (wk_sink w1) of
              (Inr _, s) \<Rightarrow> Some s | _ \<Rightarrow> None)
          | _ \<Rightarrow> None)
     | _ \<Rightarrow> None)"

lemma snapshot_written_crash:
  "snapshot_written w = Some s \<Longrightarrow> wk_running w \<Longrightarrow>
    \<exists>lost. crash_point sample_fmt cfg (sqlite_sink tree_codec) w s lost"
  by (auto simp: snapshot_written_def split: list.splits persist_msg.splits prod.splits sum.splits
      intro: crash_point.snapshotted)

theorem durable_store_survives_crash_witness:
  "\<exists>(rt :: tree connection runtime) w s lost rs. rt_worker rt = Some w \<and> rt_ctl rt = Awaiting WaitCheckpoint \<and>
    crash_point sample_fmt durable_config (sqlite_sink tree_codec) w s lost \<and>
    length (db_snapshots (fst s)) = 1 \<and> length (db_snapshots (fst (wk_sink w))) = 0 \<and>
    boot dev_profile (\<lambda>_. 0) tree_codec (fst s) = Some (rs, fst s) \<and> same_contents (rt_store rt) rs"
proof -
  have "session_ends durable_config insert_then_checkpoint
      (\<lambda>rt w. (case rt_ctl rt of Awaiting WaitCheckpoint \<Rightarrow> True | _ \<Rightarrow> False) \<and> wk_running w \<and>
        length (db_snapshots (fst (wk_sink w))) = 0 \<and>
        (case snapshot_written w of Some s \<Rightarrow> length (db_snapshots (fst s)) = 1 | None \<Rightarrow> False))"
    by code_simp
  then obtain st db rt0 rt w s where boot: "boot dev_profile (\<lambda>_. 0) tree_codec empty_database = Some (st, db)"
    and run: "spawn_qsolog st (Some (db, [])) durable_config = Some rt0"
      "rt_reach dev_profile sample_fmt durable_config (sqlite_sink tree_codec) rt0 (length insert_then_checkpoint) rt"
    and free: "fault_free (db, [])" and rt: "rt_worker rt = Some w" "rt_ctl rt = Awaiting WaitCheckpoint" "wk_running w"
    and cut: "snapshot_written w = Some s" "length (db_snapshots (fst s)) = 1" "length (db_snapshots (fst (wk_sink w))) = 0"
    by (elim session_endsE) (auto split: ctl.splits wait.splits option.splits)
  obtain lost where crash: "crash_point sample_fmt durable_config (sqlite_sink tree_codec) w s lost"
    using snapshot_written_crash [OF cut(1) rt(3)] by blast
  have "0 + length insert_then_checkpoint < 2 ^ 63 - 1" "cfg_ack_mode durable_config = Durable"
    "\<And>ann cp so. waiting_for (rt_ctl rt) \<noteq> Some (WaitMutation ann cp so)"
    by (simp_all add: insert_then_checkpoint_def durable_insert_def durable_config_def rt)
  from durable_store_survives_crash [OF tree_codec_ok crash_reach.created boot free run this(1) rt(1) this(2,3) crash, of "\<lambda>_. 0"]
    rt crash cut(2,3)
  show ?thesis by blast
qed


subsection \<open>Rejected undos\<close>

definition small_queue_config :: runtime_config where
  "small_queue_config = default_config\<lparr>cfg_persist_queue_bound := 2, cfg_flush_on_insert := False\<rparr>"

definition two_rejected_undos :: "label list" where
  "two_rejected_undos = [LCommand 0 (CInsert (sample_draft ''K1A'')), LCommand 1 (CVoid 1), LCommand 2 CUndo, LCommand 3 CUndo,
    LRecv, LRecv, LCommand 4 CFlush, LProgress, LRecv, LProgress]"

fun accepted :: "response \<Rightarrow> bool" where
  "accepted (RespId r) = (\<not> isl r)"
| "accepted (RespUnit r) = (\<not> isl r)"
| "accepted (RespSeq r) = (\<not> isl r)"
| "accepted _ = True"

text \<open>An insert and a void, replayed on an empty store.\<close>

lemma replay_step_Ok:
  assumes "store_wf st" "log_apply (so_op so) (log_of st) = Some L"
  shows "\<exists>st1. apply_replayed_op pf clk so st = Ok () st1 \<and> store_wf st1 \<and> log_of st1 = L"
proof -
  obtain x st1 where "apply_with_seq pf clk (so_op so) (so_seq so) st = Ok x st1"
      "refined_store st (so_seq so) (so_op so) L st1"
    using apply_with_seq_Some [OF assms] by blast
  then show ?thesis by (simp add: apply_replayed_op_seq refined_store_def log_of_def)
qed

lemma replay_insert_void:
  assumes "so_op so1 = OpInsert r" "so_op so2 = OpVoid (qr_id r) False"
  shows "\<exists>rs. replay_all pf clk [so1, so2] new_store = Ok () rs \<and>
    map_option (\<lambda>r. is_void (qr_flags r)) (store_get (qr_id r) rs) = Some True"
proof -
  obtain st1 where st1: "apply_replayed_op pf (clk 0) so1 new_store = Ok () st1" "store_wf st1" "log_of st1 = [r]"
    using replay_step_Ok [of new_store so1 "[r]"] assms(1) by (auto simp: log_ids_def)
  obtain rs where "apply_replayed_op pf (clk 1) so2 st1 = Ok () rs" "store_wf rs" "log_of rs = [set_void True r]"
    using replay_step_Ok [OF st1(2), of so2 "[set_void True r]"] assms(2) st1(3)
    by (auto simp: log_ids_def log_update_def)
  with st1(1) show ?thesis
    by (auto simp: store_get_def wf_lookup log_find_def)
qed

lemma boot_replays:
  assumes "meta_current (db_meta db)" "load_latest_snapshot cdc no_faults db = Inr None"
    and "load_events_after cdc no_faults 0 db = Inr js" "replay_all pf clk js new_store = Ok () rs"
  shows "boot pf clk cdc db = Some (rs, db)"
proof -
  have "saturating_sub (snap_next_op_seq (export_snapshot new_store)) 1 = 0"
    by (simp add: export_snapshot_def new_store_def saturating_sub_def)
  with assms show ?thesis
    by (simp add: boot_def sqlite_open_current load_store_def)
qed

lemma session_ends_conj:
  "session_ends cfg ls P \<Longrightarrow> session_ends cfg ls Q \<Longrightarrow> session_ends cfg ls (\<lambda>rt w. P rt w \<and> Q rt w)"
  by (auto simp: session_ends_def split: option.splits)

lemma session_ends_mono:
  "session_ends cfg ls P \<Longrightarrow> (\<And>rt w. P rt w \<Longrightarrow> Q rt w) \<Longrightarrow> session_ends cfg ls Q"
  by (auto simp: session_ends_def split: option.splits)

lemma two_rejected_undos_file:
  "session_ends small_queue_config two_rejected_undos (\<lambda>rt w.
    \<exists>rs db. boot dev_profile (\<lambda>_. 0) tree_codec (fst (wk_sink w)) = Some (rs, db) \<and>
      map_option (\<lambda>r. is_void (qr_flags r)) (store_get 1 rs) = Some True)"
proof (rule session_ends_mono [OF session_ends_conj])
  show "session_ends small_queue_config two_rejected_undos (\<lambda>rt w. meta_current (db_meta (fst (wk_sink w))) \<and>
      (case load_latest_snapshot tree_codec no_faults (fst (wk_sink w)) of Inr None \<Rightarrow> True | _ \<Rightarrow> False))"
    by code_simp
  show "session_ends small_queue_config two_rejected_undos (\<lambda>rt w.
      case load_events_after tree_codec no_faults 0 (fst (wk_sink w)) of
        Inr [a, b] \<Rightarrow> so_op b = OpVoid 1 False \<and> (case so_op a of OpInsert r \<Rightarrow> qr_id r = 1 | _ \<Rightarrow> False)
      | _ \<Rightarrow> False)"
    by code_simp
next
  fix rt :: "tree connection runtime" and w :: "tree connection worker"
  let ?db = "fst (wk_sink w)"
  assume a: "(meta_current (db_meta ?db) \<and> (case load_latest_snapshot tree_codec no_faults ?db of Inr None \<Rightarrow> True | _ \<Rightarrow> False)) \<and>
      (case load_events_after tree_codec no_faults 0 ?db of
        Inr [a, b] \<Rightarrow> so_op b = OpVoid 1 False \<and> (case so_op a of OpInsert r \<Rightarrow> qr_id r = 1 | _ \<Rightarrow> False)
      | _ \<Rightarrow> False)"
  then have db: "meta_current (db_meta ?db)" "load_latest_snapshot tree_codec no_faults ?db = Inr None"
    by (auto split: option.splits sum.splits)
  obtain so1 so2 r where js: "load_events_after tree_codec no_faults 0 ?db = Inr [so1, so2]" "so_op so1 = OpInsert r"
    "so_op so2 = OpVoid (qr_id r) False" "qr_id r = 1"
    using a by (auto split: sum.splits list.splits op.splits)
  obtain rs where "replay_all dev_profile (\<lambda>_. 0) [so1, so2] new_store = Ok () rs"
    "map_option (\<lambda>r. is_void (qr_flags r)) (store_get 1 rs) = Some True"
    using replay_insert_void [OF js(2,3), of dev_profile "\<lambda>_. 0"] unfolding js(4) by blast
  with boot_replays [OF db js(1)]
  show "\<exists>rs db. boot dev_profile (\<lambda>_. 0) tree_codec ?db = Some (rs, db) \<and>
      map_option (\<lambda>r. is_void (qr_flags r)) (store_get 1 rs) = Some True"
    by blast
qed

text \<open>C28. The exception above is real. An insert and a void are accepted and fill a queue of two; two
  undos are then rejected with \<open>PersistQueueFull\<close>. The rollback of the first drops its entry, so
  the second undo pops the entry of the insert, and its rollback writes that entry's \<open>false\<close> into
  the void flag: the record is valid again in memory, though both undos were rejected. After a
  flush that succeeds, a restart gives the record as void.\<close>
theorem rejected_undos_corrupt_record:
  "session_ends small_queue_config two_rejected_undos (\<lambda>rt w.
    map accepted (rt_responses rt) = [True, True, False, False, True] \<and>
    rt_responses rt ! 2 = RespUnit (Inl PersistQueueFull) \<and> rt_responses rt ! 3 = RespUnit (Inl PersistQueueFull) \<and>
    map_option (\<lambda>r. is_void (qr_flags r)) (store_get 1 (rt_store rt)) = Some False \<and>
    (\<exists>rs db. boot dev_profile (\<lambda>_. 0) tree_codec (fst (wk_sink w)) = Some (rs, db) \<and>
      map_option (\<lambda>r. is_void (qr_flags r)) (store_get 1 rs) = Some True))"
proof (rule session_ends_mono [OF session_ends_conj [OF _ two_rejected_undos_file]])
  show "session_ends small_queue_config two_rejected_undos (\<lambda>rt w.
    map accepted (rt_responses rt) = [True, True, False, False, True] \<and>
    rt_responses rt ! 2 = RespUnit (Inl PersistQueueFull) \<and> rt_responses rt ! 3 = RespUnit (Inl PersistQueueFull) \<and>
    map_option (\<lambda>r. is_void (qr_flags r)) (store_get 1 (rt_store rt)) = Some False)"
    by code_simp
qed blast

end
