(* ===== verification/Spec2Isabelle.thy ===== *)
theory Spec2Isabelle
  imports Qso_Store_Properties Qso_Client_Properties Qso_Event_Properties Qso_Linear_Properties
    Qso_Projector_Properties Qso_Session_Properties
begin

text \<open>
  \<^bold>\<open>qsolog\<close>: contest logging as an in-memory store with undo and redo, an append-only journal in
  SQLite, a single-writer runtime that connects the two, the handle its clients call, and a
  projector that keeps a contest engine's results in step with the store.

  \<^bold>\<open>The program and its model.\<close>
  \<^item> \<^emph>\<open>Data\<close> (\<^verbatim>\<open>src/types.rs\<close>, \<^verbatim>\<open>src/qso.rs\<close>, \<^verbatim>\<open>src/op.rs\<close>): theory \<open>Qso_Types\<close>. Structs are
    records, enums datatypes, integers words of their width, strings lists of bytes. A patch and
    its captured inverse are modelled field by field.
  \<^item> \<^emph>\<open>Store\<close> (\<^verbatim>\<open>src/core/store.rs\<close>): theories \<open>Qso_Index\<close> (the index routines, binary search
    included) and \<open>Qso_Store\<close> (the struct and every method). A method on \<open>&mut self\<close> returns one
    of three results: \<open>Panic\<close>, \<open>Err e st\<close> with the state left behind, \<open>Ok v st\<close>. The build
    profile (overflow checks, debug assertions) and the clock are arguments.
  \<^item> \<^emph>\<open>Persistence interface\<close> (\<^verbatim>\<open>src/persist/mod.rs\<close>): theory \<open>Qso_Persist\<close>. The trait \<open>OpSink\<close> is
    a record of functions on a sink state; the locale \<open>journal_sink\<close> is its contract.
  \<^item> \<^emph>\<open>SQLite sink\<close> (\<^verbatim>\<open>src/persist/sqlite.rs\<close>, \<^verbatim>\<open>schema.sql\<close>): theories \<open>Qso_Text\<close> (decimal text
    of versions) and \<open>Qso_Sqlite\<close>. The database is its three tables; a statement of the source is
    a function on them, with its key constraint. The \<open>serde_json\<close> codecs and the failures of the
    engine are parameters; \<open>codec_ok\<close> is the documented behaviour of derived serde
    implementations that recovery relies on.
  \<^item> \<^emph>\<open>Runtime\<close> (\<^verbatim>\<open>src/runtime/handle.rs\<close>, \<^verbatim>\<open>events.rs\<close>): theory \<open>Qso_Runtime\<close>. The loop task and
    the persistence worker are steps on one state: a bounded message queue, one-shot replies, the
    durability channel, the health record, the events and answers sent so far. The
    typed one-shot channels of the commands are one type \<open>response\<close> (\<open>calls_return_their_type\<close>:
    each command is answered with its own type). Where the source awaits, the state says what the
    loop waits for; every interleaving of loop, worker and batch timer is a run of \<open>rt_step\<close>.
  \<^item> \<^emph>\<open>Clients\<close> (\<^verbatim>\<open>src/runtime/handle.rs\<close>, \<open>QsoLogHandle\<close>): theory \<open>Qso_Client\<close>. A call is
    sending, waiting, abandoned by its client (its future is dropped) or returned; the command
    channel holds each command with the number of its call, which stands for the one-shot sender;
    the end of the loop task, a panic included, drops every sender. Handles are cloned and dropped;
    without a handle and with an empty channel the loop ends. \<open>sy_exec\<close> interleaves any number of
    calls with loop, worker and timer.
  \<^item> \<^emph>\<open>Event stream\<close> (\<^verbatim>\<open>src/runtime/handle.rs\<close>, \<open>subscribe\<close>): theory \<open>Qso_Events\<close>. A hub is the
    clients' system with any number of receivers, made at any moment, each at its own position of
    the events sent. What \<open>recv\<close> of the channel returns is a parameter; the locale \<open>broadcast\<close> states
    its documented behaviour (order, the notice of missed events, the end of the stream).
  \<^item> \<^emph>\<open>Engines and projector\<close> (\<^verbatim>\<open>src/engine/traits.rs\<close>, \<^verbatim>\<open>src/engine/projector.rs\<close>): theories
    \<open>Qso_Engine\<close> (the trait is a record of its methods; its contracts are the locales
    \<open>engine_laws\<close>, \<open>local_engine\<close>, \<open>separable_engine\<close>) and \<open>Qso_Projector\<close> (the struct and
    every method). \<open>Qso_Test_Engine\<close> interprets the locales on \<open>ToyEngine\<close> of
    \<^verbatim>\<open>tests/engine_incremental.rs\<close> and on a second engine that is local but not separable.

  \<^bold>\<open>What is proved, and where.\<close>
  \<^item> \<open>Qso_Log\<close>, \<open>Qso_Refine\<close>, \<open>Qso_Commands\<close>: the store refines a log (the list of its records).
    The representation invariant (position table inverse to the order, both indices canonical)
    determines all five data structures from the log; every operation is \<open>log_apply\<close> on it; no
    operation panics. The locale \<open>record_index\<close> treats both secondary indices at once.
  \<^item> \<open>Qso_Undo\<close>: undo and redo refine a history zipper, through the locales \<open>reversible\<close> and
    \<open>growing\<close> about chains of reversible operations, interpreted on the log.
  \<^item> \<open>Qso_Rollback\<close>: the exact store after a rollback. \<open>Qso_Journal\<close>: snapshots and replay
    rebuild the store, emitted sequence numbers increase strictly, the order never reorders.
  \<^item> \<open>Qso_Recovery\<close>: \<open>load_store\<close> on the tables rebuilds the store, across checkpoint,
    compaction and any batching.
  \<^item> \<open>Qso_Worker\<close>, \<open>Qso_Runtime_Inv\<close>: the protocol between loop and worker, accounting for every
    operation (proved in the locale \<open>journal_sink\<close>, used through its interpretation for SQLite),
    durable acknowledgment, rollback safety, end of every wait.
  \<^item> \<open>Qso_Restart\<close>, \<open>Qso_Restart_Run\<close>: the invariant that ties store, worker and database together
    (\<open>journalled\<close>: the rows, then the operations in flight, rebuild the store from the latest
    snapshot), kept by every step of loop and worker on an engine that does not fail.
    \<open>Qso_Sessions\<close>: any number of sessions, each opened, loaded, run and cut off at any
    \<open>crash_point\<close>: between two steps, or inside the handling of a message between two writes (append,
    snapshot, compaction). The sessions are on an engine that does not fail and without
    \<open>PersistQueueFull\<close> for a patch, void, undo or redo. In durable mode nothing is in flight
    outside the wait of a mutation, and the queue is never full.
  \<^item> \<open>Qso_Client\<close>, \<open>Qso_Client_Live\<close>: every waiting call has exactly one sender, on the
    channel or with the loop; every answer has the type of its method; every queue is bounded;
    a lexicographic measure on the loop drives any call to its end. \<open>Qso_Acks\<close>: an id that was
    answered is never the one a pending mutation may still take back. \<open>Qso_Events\<close>: events are
    only added, none after the end of the stream; the insert events are at every moment the order
    of the store, but for the one insert that may still be taken back. \<open>Qso_Announce\<close>: the events
    about the log are those of the answers, one for each accepted mutation, in the same order.
  \<^item> \<open>Qso_Service\<close>, \<open>Qso_Linear\<close>: the abstract specification of the whole system, a service on one log
    with an editor's history on which each command acts at once (\<open>service_mutation\<close>,
    \<open>service_query\<close>; \<open>serve\<close> adds what a refusing journal may do), and the refinement: the answers of the
    loop, in the order it gives them (\<open>sy_trace\<close>), are a run of the service, and each returned call
    has the answer of its own step.
  \<^item> \<open>Qso_Projector_Inv\<close>: the reconciliation loop ends (the impacted set grows inside the ids of
    the dependency index), the index is the inverse of the cached results, at every step of
    every pass. \<open>Qso_Projector_Correct\<close>: with a separable engine each pass moves the results of
    the impacted records to those of a full recomputation, and the ids left out are up to date.
    \<open>Qso_Projector_Run\<close>: this along whole runs of a store and the projector that follows it.
  \<^item> The properties are in \<open>Qso_Store_Properties\<close>, \<open>Qso_Sqlite_Properties\<close>,
    \<open>Qso_Runtime_Properties\<close>, \<open>Qso_Session_Properties\<close>, \<open>Qso_Client_Properties\<close>, \<open>Qso_Event_Properties\<close>,
    \<open>Qso_Linear_Properties\<close> and \<open>Qso_Projector_Properties\<close>, each
    after a text block that states it. \<open>Qso_Examples\<close> has the data of the concrete instances.

  \<^bold>\<open>Bounds.\<close> Counters are 64-bit words. A run of fewer than 2^64 - 1 commands from an empty store
  cannot overflow one; recovery is stated below 2^63 (for sessions: fewer than 2^63 - 1 steps in
  all), where SQLite's signed integers agree with the numbers. The one loop of the source without a
  bound, in \<open>incremental_reconcile\<close>, is a partial function, proved to return always;
  \<open>reconcile_within\<close> is the same loop with a number of passes, and one more than there are valid
  records is enough for one more command on a store and its projector (\<open>apply_stored_op_within\<close>).
  Everything else terminates on its argument. The command channel holds 256 commands, the worker's queue \<open>persist_queue_bound\<close>.

  \<^bold>\<open>What the model shows beyond correctness.\<close> Redo after undo revives a draft entered void, on any
  well-formed store (\<open>redo_revives_void_draft\<close>; properties about undo, redo and results are stated for
  runs without such drafts); a rollback loses the redo stack, or the entry of a rejected undo
  (\<open>rollback_restores_store\<close>, \<open>rollback_of_undo_drops_entry\<close>); from any quiet state, with any draft,
  durable mode can acknowledge a lost insert when an append fails, and can reject one that stays
  in the journal when a flush fails (\<open>durable_mode_acknowledges_lost_insert\<close>,
  \<open>rejected_insert_stays_in_journal\<close>); two undos that a full queue rejects can change a record in
  memory (\<open>rejected_undos_corrupt_record\<close>), which is why
  \<open>crash_loses_only_flight\<close> and \<open>restart_after_any_crash\<close> exclude sessions in which a patch, void,
  undo or redo met a full queue; \<open>latest_seq\<close> fails on an empty journal; an engine that
  is not separable can leave the projector with a stale result (\<open>projector_keeps_stale_result\<close>).

  \<^bold>\<open>Not modelled.\<close> Loss of power: what the engine has executed stays in the file (with
  \<open>synchronous = NORMAL\<close> a power loss may undo the last transactions, so \<open>sqlite_flush\<close> changes no
  table); a crash while \<open>sqlite_open\<close> writes the schema. Panics inside a sink
  (\<open>spawn_blocking\<close> turns them into an error message), \<open>persistence_state()\<close> as a wait for the lock (it is a read of the current record), and what
  \<open>rusqlite\<close>, \<open>serde_json\<close> and \<open>tokio\<close> do inside. The module files hold declarations only.
\<close>

end
